(* ===== verification/Mist_Prelude.thy ===== *)
theory Mist_Prelude
  imports Main "HOL-Library.Word" "HOL-Library.AList" "HOL-Library.Multiset"
begin

text \<open>
  Shared material of the development: the names of the machine types, Rust's
  wrapping and saturating arithmetic on counters, the two standard-library maps the code
  uses (\<open>HashMap\<close> as an association list in iteration order, \<open>BTreeMap\<close> as an association
  list sorted by key), \<open>Iterator::min_by_key\<close>, and the three interfaces that the component
  theories interpret: key/value maps, codecs and step machines with an invariant.

  Counters and sizes (\<open>u16\<close>, \<open>u32\<close>, \<open>u64\<close>, \<open>usize\<close>) are natural numbers with the wrap-around
  written out where the code can reach it; bytes are 8-bit words. Instants and durations are
  natural numbers of one clock unit, so that \<open>Instant::duration_since\<close>, which saturates at
  zero, is subtraction of natural numbers.
\<close>

section \<open>Collections of rules\<close>

named_theorems map_simps \<open>lookup after an update, for both map representations\<close>
named_theorems len_simps \<open>sizes after an update, for both map representations\<close>

section \<open>Machine integers and time\<close>

type_synonym u8 = "8 word"
type_synonym bytes = "u8 list"
type_synonym instant = nat
type_synonym duration = nat

definition u64_max :: nat where
  "u64_max = 2 ^ 64 - 1"

definition u32_max :: nat where
  "u32_max = 2 ^ 32 - 1"

definition wrap64 :: "nat \<Rightarrow> nat" where
  "wrap64 n = n mod 2 ^ 64"

definition saturating_add64 :: "nat \<Rightarrow> nat \<Rightarrow> nat" where
  "saturating_add64 a b = min (a + b) u64_max"

definition saturating_add32 :: "nat \<Rightarrow> nat \<Rightarrow> nat" where
  "saturating_add32 a b = min (a + b) u32_max"

lemma wrap64_Suc [simp]: "n < u64_max \<Longrightarrow> wrap64 (Suc n) = Suc n"
  by (simp add: wrap64_def u64_max_def)

lemma wrap64_max [simp]: "wrap64 (Suc u64_max) = 0"
  by (simp add: wrap64_def u64_max_def)

lemma u64_max_pos [simp]: "0 < u64_max"
  by (simp add: u64_max_def)

lemma saturating_add64_ge: "a \<le> u64_max \<Longrightarrow> a \<le> saturating_add64 a b"
  by (simp add: saturating_add64_def)

lemma saturating_add64_le [simp]: "saturating_add64 a b \<le> u64_max"
  by (simp add: saturating_add64_def)

section \<open>Counting list elements\<close>

lemma length_filter_le_mono:
  "(\<And>x. x \<in> set xs \<Longrightarrow> P x \<Longrightarrow> Q x) \<Longrightarrow> length (filter P xs) \<le> length (filter Q xs)"
  by (induction xs) (auto intro: le_SucI)

section \<open>The first minimum of an iteration\<close>

fun min_by_key :: "('a \<Rightarrow> 'b::linorder) \<Rightarrow> 'a list \<Rightarrow> 'a option" where
  "min_by_key f [] = None"
| "min_by_key f (x # xs) =
     (case min_by_key f xs of
        None \<Rightarrow> Some x
      | Some y \<Rightarrow> if f y < f x then Some y else Some x)"

lemma min_by_key_None [simp]: "min_by_key f xs = None \<longleftrightarrow> xs = []"
  by (cases xs) (auto split: option.splits)

lemma min_by_key_in: "min_by_key f xs = Some x \<Longrightarrow> x \<in> set xs"
  by (induction xs arbitrary: x) (auto split: option.splits if_splits)

lemma min_by_key_le: "min_by_key f xs = Some x \<Longrightarrow> y \<in> set xs \<Longrightarrow> f x \<le> f y"
proof (induction xs arbitrary: x)
  case Nil
  then show ?case by simp
next
  case (Cons z zs)
  then show ?case
    by (fastforce split: option.splits if_splits intro: order.trans less_imp_le)
qed

lemma min_by_key_Some: "xs \<noteq> [] \<Longrightarrow> \<exists>x. min_by_key f xs = Some x \<and> x \<in> set xs"
  by (metis min_by_key_None min_by_key_in option.exhaust)

text \<open>\<open>std::cmp::Reverse\<close>: the same values in the opposite order, for descending sorts.\<close>

datatype 'a reverse = Reverse (unreverse: 'a)

instantiation reverse :: (linorder) linorder
begin

definition less_eq_reverse :: "'a reverse \<Rightarrow> 'a reverse \<Rightarrow> bool" where
  "less_eq_reverse a b \<longleftrightarrow> unreverse b \<le> unreverse a"

definition less_reverse :: "'a reverse \<Rightarrow> 'a reverse \<Rightarrow> bool" where
  "less_reverse a b \<longleftrightarrow> unreverse b < unreverse a"

instance
  by standard (auto simp: less_eq_reverse_def less_reverse_def reverse.expand)

end

section \<open>HashMap: an association list in iteration order\<close>

text \<open>
  The order of the list stands for the table's unspecified iteration order: the theorems are
  stated for an arbitrary list with distinct keys, so they hold for any order.
\<close>

type_synonym ('k, 'v) hmap = "('k \<times> 'v) list"

definition hm_ok :: "('k, 'v) hmap \<Rightarrow> bool" where
  "hm_ok m \<longleftrightarrow> distinct (map fst m)"

definition hm_get :: "('k, 'v) hmap \<Rightarrow> 'k \<Rightarrow> 'v option" where
  "hm_get m k = map_of m k"

definition hm_contains :: "('k, 'v) hmap \<Rightarrow> 'k \<Rightarrow> bool" where
  "hm_contains m k \<longleftrightarrow> k \<in> set (map fst m)"

definition hm_insert :: "'k \<Rightarrow> 'v \<Rightarrow> ('k, 'v) hmap \<Rightarrow> ('k, 'v) hmap" where
  "hm_insert k v m = AList.update k v m"

definition hm_remove :: "'k \<Rightarrow> ('k, 'v) hmap \<Rightarrow> ('k, 'v) hmap" where
  "hm_remove k m = filter (\<lambda>p. fst p \<noteq> k) m"

definition hm_retain :: "('k \<Rightarrow> 'v \<Rightarrow> bool) \<Rightarrow> ('k, 'v) hmap \<Rightarrow> ('k, 'v) hmap" where
  "hm_retain P m = filter (\<lambda>(k, v). P k v) m"

definition hm_update :: "'k \<Rightarrow> ('v \<Rightarrow> 'v) \<Rightarrow> ('k, 'v) hmap \<Rightarrow> ('k, 'v) hmap" where
  "hm_update k f m = map (\<lambda>(k', v). (k', if k' = k then f v else v)) m"

lemma hm_get_Nil [simp]: "hm_get [] k = None"
  by (simp add: hm_get_def)

lemma hm_ok_Nil [simp]: "hm_ok []"
  by (simp add: hm_ok_def)

lemma hm_contains_get: "hm_contains m k \<longleftrightarrow> hm_get m k \<noteq> None"
  by (force simp: hm_contains_def hm_get_def map_of_eq_None_iff)

lemma hm_get_in: "hm_get m k = Some v \<Longrightarrow> (k, v) \<in> set m"
  by (simp add: hm_get_def map_of_SomeD)

lemma hm_in_get: "hm_ok m \<Longrightarrow> (k, v) \<in> set m \<Longrightarrow> hm_get m k = Some v"
  by (simp add: hm_ok_def hm_get_def)

lemma hm_get_insert [simp, map_simps]: "hm_get (hm_insert k v m) k' = (if k' = k then Some v else hm_get m k')"
  by (simp add: hm_get_def hm_insert_def update_conv')

lemma hm_get_remove [simp, map_simps]: "hm_get (hm_remove k m) k' = (if k' = k then None else hm_get m k')"
  by (induction m) (auto simp: hm_get_def hm_remove_def)

lemma hm_get_update [simp, map_simps]:
  "hm_get (hm_update k f m) k' = (if k' = k then map_option f (hm_get m k') else hm_get m k')"
  by (induction m) (auto simp: hm_get_def hm_update_def)

lemma hm_get_retain: "hm_ok m \<Longrightarrow>
    hm_get (hm_retain P m) k =
      (case hm_get m k of None \<Rightarrow> None | Some v \<Rightarrow> if P k v then Some v else None)"
proof (induction m)
  case Nil
  then show ?case by (simp add: hm_retain_def)
next
  case (Cons p m)
  obtain k' v' where p: "p = (k', v')" by fastforce
  from Cons.prems have ok: "hm_ok m" and new: "k' \<notin> set (map fst m)"
    by (auto simp: hm_ok_def p)
  have none: "hm_get (hm_retain P m) k' = None"
    using new by (auto simp: hm_get_def hm_retain_def map_of_eq_None_iff)
  show ?case
    using Cons.IH [OF ok] none by (auto simp: hm_get_def hm_retain_def p)
qed

lemma hm_keys_retain: "set (map fst (hm_retain P m)) \<subseteq> set (map fst m)"
  by (auto simp: hm_retain_def)

lemma hm_ok_insert [simp]: "hm_ok m \<Longrightarrow> hm_ok (hm_insert k v m)"
  by (simp add: hm_ok_def hm_insert_def distinct_update)

lemma hm_ok_remove [simp]: "hm_ok m \<Longrightarrow> hm_ok (hm_remove k m)"
  by (simp add: hm_ok_def hm_remove_def distinct_map_filter)

lemma hm_ok_retain [simp]: "hm_ok m \<Longrightarrow> hm_ok (hm_retain P m)"
  by (simp add: hm_ok_def hm_retain_def distinct_map_filter)

lemma hm_keys_update [simp]: "map fst (hm_update k f m) = map fst m"
  by (induction m) (auto simp: hm_update_def)

lemma hm_ok_update [simp]: "hm_ok m \<Longrightarrow> hm_ok (hm_update k f m)"
  by (simp add: hm_ok_def)

lemma hm_length_update [simp, len_simps]: "length (hm_update k f m) = length m"
  by (simp add: hm_update_def)

lemma hm_length_insert [len_simps]:
  "length (hm_insert k v m) = (if hm_contains m k then length m else Suc (length m))"
  by (induction m) (auto simp: hm_insert_def hm_contains_def)

lemma hm_length_retain: "length (hm_retain P m) \<le> length m"
  by (simp add: hm_retain_def)

lemma hm_length_remove [len_simps]: "length (hm_remove k m) \<le> length m"
  by (simp add: hm_remove_def)

lemma hm_length_remove_less: "hm_contains m k \<Longrightarrow> length (hm_remove k m) < length m"
  by (induction m) (auto simp: hm_remove_def hm_contains_def le_imp_less_Suc)

lemma hm_length_remove_eq: "hm_ok m \<Longrightarrow> hm_contains m k \<Longrightarrow> Suc (length (hm_remove k m)) = length m"
proof (induction m)
  case Nil
  then show ?case by (simp add: hm_contains_def)
next
  case (Cons p m)
  show ?case
  proof (cases "fst p = k")
    case True
    with Cons.prems have "\<forall>q \<in> set m. fst q \<noteq> k"
      by (auto simp: hm_ok_def image_iff)
    with True show ?thesis by (simp add: hm_remove_def)
  next
    case False
    with Cons show ?thesis
      by (auto simp: hm_ok_def hm_contains_def hm_remove_def)
  qed
qed

lemma hm_insert_fresh: "\<not> hm_contains m k \<Longrightarrow> hm_insert k v m = m @ [(k, v)]"
  by (induction m) (auto simp: hm_insert_def hm_contains_def)

lemma hm_set_insert: "hm_ok m \<Longrightarrow> set (hm_insert k v m) = insert (k, v) {p \<in> set m. fst p \<noteq> k}"
  by (induction m) (force simp: hm_insert_def hm_ok_def)+

lemma hm_set_remove: "set (hm_remove k m) = {p \<in> set m. fst p \<noteq> k}"
  by (auto simp: hm_remove_def)

lemma hm_set_retain: "set (hm_retain P m) = {p \<in> set m. P (fst p) (snd p)}"
  by (auto simp: hm_retain_def)

lemma hm_values_update:
  assumes "\<And>v. (k, v) \<in> set m \<Longrightarrow> P (f v)" and "\<And>k' v. (k', v) \<in> set m \<Longrightarrow> P v"
    and "(k', v) \<in> set (hm_update k f m)"
  shows "P v"
  using assms by (auto simp: hm_update_def split: if_splits)

text \<open>Mapping a function over the values keeps the keys; a weighted sum over the values bounds sizes.\<close>

definition hm_map :: "('k \<Rightarrow> 'v \<Rightarrow> 'w) \<Rightarrow> ('k, 'v) hmap \<Rightarrow> ('k, 'w) hmap" where
  "hm_map f m = map (\<lambda>(k, v). (k, f k v)) m"

definition hm_sum :: "('v \<Rightarrow> nat) \<Rightarrow> ('k, 'v) hmap \<Rightarrow> nat" where
  "hm_sum w m = sum_list (map (w \<circ> snd) m)"

lemma hm_keys_map [simp]: "map fst (hm_map f m) = map fst m"
  by (induction m) (auto simp: hm_map_def)

lemma hm_ok_map [simp]: "hm_ok (hm_map f m) \<longleftrightarrow> hm_ok m"
  by (simp add: hm_ok_def)

lemma hm_length_map [simp, len_simps]: "length (hm_map f m) = length m"
  by (simp add: hm_map_def)

lemma hm_get_map [simp, map_simps]: "hm_get (hm_map f m) k = map_option (f k) (hm_get m k)"
  by (induction m) (auto simp: hm_get_def hm_map_def)

lemma hm_update_as_map: "hm_update k f m = hm_map (\<lambda>k' v. if k' = k then f v else v) m"
  by (simp add: hm_update_def hm_map_def)

lemma hm_remove_absent: "hm_get m k = None \<Longrightarrow> hm_remove k m = m"
  by (induction m) (auto simp: hm_get_def hm_remove_def split: if_splits)

lemma hm_update_absent: "hm_get m k = None \<Longrightarrow> hm_update k f m = m"
  by (induction m) (auto simp: hm_update_def hm_get_def split: if_splits)

lemma hm_sum_Nil [simp]: "hm_sum w [] = 0"
  by (simp add: hm_sum_def)

lemma hm_sum_remove: "hm_ok m \<Longrightarrow> hm_get m k = Some v \<Longrightarrow> hm_sum w m = hm_sum w (hm_remove k m) + w v"
proof (induction m)
  case Nil
  then show ?case by simp
next
  case (Cons p m)
  show ?case
  proof (cases "fst p = k")
    case True
    with Cons.prems have "hm_get m k = None" "snd p = v"
      by (auto simp: hm_ok_def hm_get_def map_of_eq_None_iff image_iff)
    then show ?thesis using True hm_remove_absent [of m k] by (simp add: hm_sum_def hm_remove_def)
  next
    case False
    with Cons show ?thesis by (cases p) (auto simp: hm_ok_def hm_get_def hm_remove_def hm_sum_def)
  qed
qed

lemma hm_sum_insert: "hm_ok m \<Longrightarrow> hm_sum w (hm_insert k v m) = hm_sum w (hm_remove k m) + w v"
proof (induction m)
  case Nil
  then show ?case by (simp add: hm_sum_def hm_insert_def hm_remove_def)
next
  case (Cons p m)
  then show ?case
    using hm_remove_absent [of m k]
    by (cases p) (auto simp: hm_ok_def hm_sum_def hm_insert_def hm_remove_def hm_get_def map_of_eq_None_iff)
qed

lemma hm_remove_insert [simp]: "hm_remove k (hm_insert k v m) = hm_remove k m"
  by (induction m) (auto simp: hm_insert_def hm_remove_def)

lemma hm_sum_filter: "hm_sum w (filter P m) \<le> hm_sum w m"
  by (induction m) (auto simp: hm_sum_def)

lemma hm_sum_remove_le: "hm_sum w (hm_remove k m) \<le> hm_sum w m"
  by (simp add: hm_remove_def hm_sum_filter)

lemma hm_sum_retain_le: "hm_sum w (hm_retain P m) \<le> hm_sum w m"
  by (simp add: hm_retain_def hm_sum_filter)

lemma hm_sum_map_le: "(\<And>k v. (k, v) \<in> set m \<Longrightarrow> w (f k v) \<le> w v) \<Longrightarrow> hm_sum w (hm_map f m) \<le> hm_sum w m"
  by (induction m) (force simp: hm_sum_def hm_map_def intro: add_mono)+

lemma hm_sum_member: "(k, v) \<in> set m \<Longrightarrow> w v \<le> hm_sum w m"
  by (induction m) (auto simp: hm_sum_def)

section \<open>HashSet: a list without repetitions in iteration order\<close>

definition hs_insert :: "'a \<Rightarrow> 'a list \<Rightarrow> 'a list" where
  "hs_insert x xs = (if x \<in> set xs then xs else xs @ [x])"

definition hs_remove :: "'a \<Rightarrow> 'a list \<Rightarrow> 'a list" where
  "hs_remove x xs = filter (\<lambda>y. y \<noteq> x) xs"

lemma set_hs_insert [simp]: "set (hs_insert x xs) = insert x (set xs)"
  by (auto simp: hs_insert_def)

lemma set_hs_remove [simp]: "set (hs_remove x xs) = set xs - {x}"
  by (auto simp: hs_remove_def)

lemma distinct_hs_insert [simp]: "distinct xs \<Longrightarrow> distinct (hs_insert x xs)"
  by (simp add: hs_insert_def)

lemma distinct_hs_remove [simp]: "distinct xs \<Longrightarrow> distinct (hs_remove x xs)"
  by (simp add: hs_remove_def)

section \<open>BTreeMap: an association list sorted by key\<close>

type_synonym ('k, 'v) btmap = "('k \<times> 'v) list"

definition bt_ok :: "('k::linorder, 'v) btmap \<Rightarrow> bool" where
  "bt_ok m \<longleftrightarrow> sorted_wrt (<) (map fst m)"

fun bt_insert :: "'k::linorder \<Rightarrow> 'v \<Rightarrow> ('k, 'v) btmap \<Rightarrow> ('k, 'v) btmap" where
  "bt_insert k v [] = [(k, v)]"
| "bt_insert k v (p # m) =
     (if k < fst p then (k, v) # p # m
      else if fst p < k then p # bt_insert k v m
      else (k, v) # m)"

definition bt_get :: "('k, 'v) btmap \<Rightarrow> 'k \<Rightarrow> 'v option" where
  "bt_get m k = map_of m k"

definition bt_remove :: "'k \<Rightarrow> ('k, 'v) btmap \<Rightarrow> ('k, 'v) btmap" where
  "bt_remove k m = filter (\<lambda>p. fst p \<noteq> k) m"

lemma bt_ok_Nil [simp]: "bt_ok []"
  by (simp add: bt_ok_def)

lemma bt_ok_Cons: "bt_ok (p # m) \<longleftrightarrow> (\<forall>q \<in> set m. fst p < fst q) \<and> bt_ok m"
  by (simp add: bt_ok_def)

lemma bt_ok_distinct: "bt_ok m \<Longrightarrow> distinct (map fst m)"
  by (simp add: bt_ok_def strict_sorted_iff)

lemma bt_keys_insert [simp]: "fst ` set (bt_insert k v m) = insert k (fst ` set m)"
  by (induction m) auto

lemma bt_insert_mem: "p \<in> set (bt_insert k v m) \<Longrightarrow> p = (k, v) \<or> p \<in> set m"
  by (induction m) (auto split: if_splits)

lemma bt_ok_insert [simp]: "bt_ok m \<Longrightarrow> bt_ok (bt_insert k v m)"
proof (induction m)
  case Nil
  then show ?case by (simp add: bt_ok_def)
next
  case (Cons p m)
  have keys: "q \<in> set (bt_insert k v m) \<Longrightarrow> fst q = k \<or> fst q \<in> fst ` set m" for q
    using bt_keys_insert [of k v m] by (metis image_eqI insert_iff)
  from Cons show ?case by (force simp: bt_ok_Cons dest!: keys)
qed

lemma bt_get_insert [simp, map_simps]:
  "bt_ok m \<Longrightarrow> bt_get (bt_insert k v m) k' = (if k' = k then Some v else bt_get m k')"
proof (induction m)
  case Nil
  then show ?case by (simp add: bt_get_def)
next
  case (Cons p m)
  then have "k' < fst p \<Longrightarrow> map_of m k' = None"
    by (force simp: bt_ok_Cons map_of_eq_None_iff)
  with Cons show ?case
    by (cases p) (auto simp: bt_get_def bt_ok_Cons)
qed

lemma bt_get_remove [simp, map_simps]: "bt_get (bt_remove k m) k' = (if k' = k then None else bt_get m k')"
  by (induction m) (auto simp: bt_get_def bt_remove_def)

lemma bt_ok_remove [simp]: "bt_ok m \<Longrightarrow> bt_ok (bt_remove k m)"
  by (simp add: bt_ok_def bt_remove_def sorted_wrt_map sorted_wrt_filter)

lemma bt_remove_set [simp]: "set (bt_remove k m) = {p \<in> set m. fst p \<noteq> k}"
  by (auto simp: bt_remove_def)

lemma bt_get_in: "bt_get m k = Some v \<Longrightarrow> (k, v) \<in> set m"
  by (simp add: bt_get_def map_of_SomeD)

lemma bt_in_get: "bt_ok m \<Longrightarrow> (k, v) \<in> set m \<Longrightarrow> bt_get m k = Some v"
  by (simp add: bt_get_def bt_ok_distinct)

lemma bt_get_None: "bt_get m k = None \<longleftrightarrow> k \<notin> fst ` set m"
  by (simp add: bt_get_def map_of_eq_None_iff)

lemma bt_remove_less: "bt_get m k = Some v \<Longrightarrow> length (bt_remove k m) < length m"
  by (induction m) (auto simp: bt_get_def bt_remove_def le_imp_less_Suc split: if_splits)

lemma bt_length_insert [len_simps]: "length (bt_insert k v m) \<le> Suc (length m)"
  by (induction m) auto

lemma bt_insert_Cons_conv:
  "\<forall>q \<in> set m. k < fst q \<Longrightarrow> bt_insert k v m = (k, v) # m"
  by (cases m) auto

lemma bt_insert_mset:
  "k \<notin> fst ` set m \<Longrightarrow> mset (bt_insert k v m) = add_mset (k, v) (mset m)"
  by (induction m) auto

lemma bt_ok_last: "bt_ok m \<Longrightarrow> p \<in> set m \<Longrightarrow> fst p \<le> fst (last m)"
proof (induction m)
  case Nil
  then show ?case by simp
next
  case (Cons q m)
  then show ?case by (cases "m = []") (auto simp: bt_ok_Cons less_imp_le)
qed

lemma bt_ok_hd: "bt_ok m \<Longrightarrow> p \<in> set m \<Longrightarrow> fst (hd m) \<le> fst p"
  by (cases m) (auto simp: bt_ok_Cons less_imp_le)

lemma bt_ok_update [simp]: "bt_ok m \<Longrightarrow> bt_ok (hm_update k f m)"
  by (simp add: bt_ok_def)

lemma bt_get_update [simp, map_simps]:
  "bt_get (hm_update k f m) k' = (if k' = k then map_option f (bt_get m k') else bt_get m k')"
  using hm_get_update [of k f m k'] by (simp add: hm_get_def bt_get_def)

lemma bt_sum_insert: "bt_ok m \<Longrightarrow> bt_get m k = None \<Longrightarrow> hm_sum w (bt_insert k v m) = hm_sum w m + w v"
  by (induction m) (auto simp: hm_sum_def bt_get_def bt_ok_Cons split: if_splits)

lemma bt_sum_remove: "bt_ok m \<Longrightarrow> bt_get m k = Some v \<Longrightarrow> hm_sum w m = hm_sum w (bt_remove k m) + w v"
  using hm_sum_remove [of m k v w]
  by (simp add: bt_get_def hm_get_def bt_remove_def hm_remove_def hm_ok_def bt_ok_distinct)

lemma bt_sum_update:
  "bt_ok m \<Longrightarrow> bt_get m k = Some v \<Longrightarrow> hm_sum w (hm_update k f m) + w v = hm_sum w m + w (f v)"
proof (induction m)
  case Nil
  then show ?case by (simp add: bt_get_def)
next
  case (Cons p m)
  have cons: "hm_update k f (p # m) = (fst p, if fst p = k then f (snd p) else snd p) # hm_update k f m"
    "hm_sum w (q # qs) = w (snd q) + hm_sum w qs" for q and qs :: "('a \<times> 'b) list"
    by (simp_all add: hm_update_def hm_sum_def case_prod_beta)
  show ?case
  proof (cases "fst p = k")
    case True
    with Cons.prems have "k \<notin> fst ` set m" "snd p = v"
      by (cases p; force simp: bt_ok_Cons bt_get_def)+
    with True show ?thesis by (simp add: cons hm_update_absent hm_get_def map_of_eq_None_iff)
  next
    case False
    with Cons show ?thesis by (auto simp: cons bt_ok_Cons bt_get_def)
  qed
qed

section \<open>Interfaces\<close>

text \<open>
  The finite-map interface a component relies on, whichever standard map it uses: what a
  lookup returns after an insert or a remove, and that both keep the representation
  well-formed.
\<close>

locale kv_map =
  fixes get :: "'m \<Rightarrow> 'k \<Rightarrow> 'v option"
    and ins :: "'k \<Rightarrow> 'v \<Rightarrow> 'm \<Rightarrow> 'm"
    and del :: "'k \<Rightarrow> 'm \<Rightarrow> 'm"
    and ok :: "'m \<Rightarrow> bool"
  assumes get_ins: "ok m \<Longrightarrow> get (ins k v m) k' = (if k' = k then Some v else get m k')"
    and get_del: "ok m \<Longrightarrow> get (del k m) k' = (if k' = k then None else get m k')"
    and ok_ins: "ok m \<Longrightarrow> ok (ins k v m)"
    and ok_del: "ok m \<Longrightarrow> ok (del k m)"
begin

lemma get_ins_ins: "ok m \<Longrightarrow> get (ins k v (ins k w m)) = get (ins k v m)"
  by (rule ext) (simp add: get_ins ok_ins)

lemma get_del_ins: "ok m \<Longrightarrow> get m k = None \<Longrightarrow> get (del k (ins k v m)) = get m"
  by (rule ext) (simp add: get_ins get_del ok_ins)

lemma dom_ins: "ok m \<Longrightarrow> dom (get (ins k v m)) = insert k (dom (get m))"
  by (auto simp: get_ins split: if_splits)

lemma ok_fold_ins: "ok m \<Longrightarrow> ok (fold (\<lambda>(k, v). ins k v) kvs m)"
  by (induction kvs arbitrary: m) (auto simp: ok_ins)

lemma get_fold_ins_other:
  "ok m \<Longrightarrow> k \<notin> fst ` set kvs \<Longrightarrow> get (fold (\<lambda>(k, v). ins k v) kvs m) k = get m k"
proof (induction kvs arbitrary: m)
  case Nil
  then show ?case by simp
next
  case (Cons p kvs)
  then show ?case by (cases p) (auto simp: ok_ins get_ins)
qed

end

interpretation hm: kv_map hm_get hm_insert hm_remove hm_ok
  by unfold_locales auto

interpretation bt: kv_map bt_get bt_insert bt_remove bt_ok
  by unfold_locales auto

text \<open>
  An encoder and a decoder that fails on malformed input: decoding what was encoded gives the
  value back.
\<close>

locale roundtrip_codec =
  fixes enc :: "'a \<Rightarrow> 'b"
    and dec :: "'b \<Rightarrow> 'a option"
    and valid :: "'a \<Rightarrow> bool"
  assumes dec_enc: "valid x \<Longrightarrow> dec (enc x) = Some x"
begin

lemma enc_eq_iff: "valid x \<Longrightarrow> valid y \<Longrightarrow> enc x = enc y \<longleftrightarrow> x = y"
  by (metis dec_enc option.inject)

lemma enc_inj_on: "inj_on enc {x. valid x}"
  by (rule inj_onI) (simp add: enc_eq_iff)

lemma those_dec_map_enc: "\<forall>x \<in> set xs. valid x \<Longrightarrow> those (map (\<lambda>x. dec (enc x)) xs) = Some xs"
  by (induction xs) (auto simp: dec_enc)

end

text \<open>
  A component driven by a sequence of events, with an invariant that every event keeps: the
  invariant then holds along every run.
\<close>

locale step_machine =
  fixes step :: "'s \<Rightarrow> 'e \<Rightarrow> 's"
    and inv :: "'s \<Rightarrow> bool"
    and admissible :: "'e \<Rightarrow> bool"
  assumes step_inv: "inv s \<Longrightarrow> admissible e \<Longrightarrow> inv (step s e)"
begin

lemma run_inv: "inv s \<Longrightarrow> \<forall>e \<in> set es. admissible e \<Longrightarrow> inv (foldl step s es)"
  by (induction es arbitrary: s) (auto simp: step_inv)

lemma run_inv_take:
  "inv s \<Longrightarrow> \<forall>e \<in> set es. admissible e \<Longrightarrow> inv (foldl step s (take n es))"
  by (rule run_inv) (auto dest: in_set_takeD)

end

end
