(* ===== verification/Bit_Groups.thy ===== *)
theory Bit_Groups
  imports Mist_Prelude
begin

unbundle bit_operations_syntax

text \<open>
  Numbers as bit strings, most significant bit first. The base-32 and base-64 codecs of the
  program regroup the bits of a byte string; with \<open>nbits\<close> their loops become invariants of the
  form "bits in = bits out @ bits still in the accumulator".
\<close>

fun nbits :: "nat \<Rightarrow> nat \<Rightarrow> bool list" where
  "nbits 0 v = []"
| "nbits (Suc n) v = bit v n # nbits n v"

definition bits_of :: "nat \<Rightarrow> nat list \<Rightarrow> bool list" where
  "bits_of n vs = concat (map (nbits n) vs)"

lemma length_nbits [simp]: "length (nbits n v) = n"
  by (induction n) auto

lemma length_bits_of [simp]: "length (bits_of n vs) = n * length vs"
  by (induction vs) (auto simp: bits_of_def)

lemma bits_of_Nil [simp]: "bits_of n [] = []"
  by (simp add: bits_of_def)

lemma bits_of_append [simp]: "bits_of n (xs @ ys) = bits_of n xs @ bits_of n ys"
  by (simp add: bits_of_def)

lemma bits_of_Cons [simp]: "bits_of n (x # xs) = nbits n x @ bits_of n xs"
  by (simp add: bits_of_def)

lemma nbits_add: "nbits (m + n) v = nbits m (drop_bit n v) @ nbits n v"
  by (induction m) (auto simp: bit_drop_bit_eq add.commute)

lemma nbits_cong: "(\<And>i. i < n \<Longrightarrow> bit v i = bit w i) \<Longrightarrow> nbits n v = nbits n w"
  by (induction n) auto

lemma nbits_take_bit [simp]: "nbits n (take_bit n v) = nbits n v"
  by (rule nbits_cong) (simp add: bit_take_bit_iff)

lemma nbits_zero: "nbits n 0 = replicate n False"
  by (induction n) auto

lemma nbits_nth: "i < n \<Longrightarrow> bit v i = nbits n v ! (n - Suc i)"
proof (induction n)
  case 0
  then show ?case by simp
next
  case (Suc n)
  then show ?case by (cases "i = n") (auto simp: Suc_diff_le nth_Cons' )
qed

lemma nbits_inject:
  assumes "nbits n v = nbits n w"
  shows "take_bit n v = take_bit n w"
  by (rule bit_eqI) (auto simp: bit_take_bit_iff nbits_nth assms)

lemma nbits_inject_less: "nbits n v = nbits n w \<Longrightarrow> v < 2 ^ n \<Longrightarrow> w < 2 ^ n \<Longrightarrow> v = w"
  using nbits_inject [of n v w] by (simp add: take_bit_nat_eq_self)

lemma nbits_all_zero: "nbits n v = replicate n False \<Longrightarrow> v < 2 ^ n \<Longrightarrow> v = 0"
  using nbits_inject_less [of n v 0] by (simp add: nbits_zero)

lemma bits_of_inject:
  assumes "bits_of n xs = bits_of n ys" and "length xs = length ys"
    and "\<forall>x \<in> set xs. x < 2 ^ n" and "\<forall>y \<in> set ys. y < 2 ^ n"
  shows "xs = ys"
  using assms(2,1,3,4) by (induction xs ys rule: list_induct2) (auto dest: nbits_inject_less)

lemma nbits_push: "w < 2 ^ k \<Longrightarrow> nbits (n + k) (push_bit k v OR w) = nbits n v @ nbits k w"
proof -
  assume w: "w < 2 ^ k"
  have none: "\<not> bit w (k + i)" for i
  proof -
    have "bit w (k + i) = bit (take_bit k w) (k + i)"
      by (simp only: take_bit_nat_eq_self [OF w])
    then show ?thesis by (simp add: bit_take_bit_iff)
  qed
  have hi: "nbits n (drop_bit k (push_bit k v OR w)) = nbits n v"
  proof (rule nbits_cong)
    fix i
    show "bit (drop_bit k (push_bit k v OR w)) i = bit v i"
      by (simp only: bit_drop_bit_eq o_apply) (simp add: bit_or_iff bit_push_bit_iff none)
  qed
  have lo: "nbits k (push_bit k v OR w) = nbits k w"
    by (rule nbits_cong) (simp add: bit_or_iff bit_push_bit_iff)
  show ?thesis unfolding nbits_add hi lo ..
qed

lemma nbits_take_push:
  assumes "w < 2 ^ k" and "n + k \<le> l"
  shows "nbits (n + k) (take_bit l (push_bit k v) OR w) = nbits n v @ nbits k w"
proof -
  have "nbits (n + k) (take_bit l (push_bit k v) OR w) = nbits (n + k) (push_bit k v OR w)"
    using assms(2) by (intro nbits_cong) (simp add: bit_or_iff bit_take_bit_iff)
  then show ?thesis using assms(1) by (simp add: nbits_push)
qed

lemma nbits_and_mask: "nbits n (v AND (2 ^ n - 1)) = nbits n v"
  by (metis mask_eq_exp_minus_1 nbits_take_bit take_bit_eq_mask)

lemma and_mask_less: "v AND (2 ^ n - 1) < (2 ^ n :: nat)"
  by (metis mask_eq_exp_minus_1 take_bit_eq_mask take_bit_nat_less_exp)

lemma nbits_shift_left: "nbits (n + k) (push_bit k v) = nbits n v @ replicate k False"
  using nbits_push [of 0 k n v] by (simp add: nbits_zero)

text \<open>Two groupings of the same bits agree when the leftovers are shorter than a group.\<close>

lemma regroup:
  assumes "bits_of n xs @ rest = bits_of n ys @ pad" and "length rest < n" and "length pad < n"
    and "\<forall>x \<in> set xs. x < 2 ^ n" and "\<forall>y \<in> set ys. y < 2 ^ n"
  shows "xs = ys \<and> rest = pad"
proof -
  have "n * length xs + length rest = n * length ys + length pad"
    using arg_cong [OF assms(1), of length] by simp
  then have "length xs = length ys"
    using assms(2,3) by (metis add.commute div_mult_self2 div_less add_0 less_nat_zero_code mult.commute not_less_eq zero_less_iff_neq_zero)
  then have "bits_of n xs = bits_of n ys \<and> rest = pad"
    using assms(1) by (simp add: append_eq_append_conv)
  with \<open>length xs = length ys\<close> assms(4,5) show ?thesis
    using bits_of_inject by blast
qed

end
