(* ===== verification/Core_Types.thy ===== *)
theory Core_Types
  imports Mist_Prelude "HOL-Library.List_Lexorder" "HOL-Library.Char_ord"
begin

text \<open>
  The data every component shares: node identifiers, delivery methods and connection states
  (\<open>types.rs\<close>), errors (\<open>error.rs\<close>), signaling and overlay messages (\<open>signaling/message.rs\<close>,
  \<open>overlay/message.rs\<close>), send lanes and overlay actions (\<open>action.rs\<close>). A Rust \<open>String\<close> is the
  list of its UTF-8 bytes as characters, so \<open>length\<close> is \<open>str::len\<close> and the order is \<open>str::cmp\<close>.
\<close>

section \<open>Node identifiers, delivery methods, connection states\<close>

datatype node_id = NodeId (node_str: string)

instantiation node_id :: linorder
begin

definition less_eq_node_id :: "node_id \<Rightarrow> node_id \<Rightarrow> bool" where
  "less_eq_node_id a b \<longleftrightarrow> node_str a \<le> node_str b"

definition less_node_id :: "node_id \<Rightarrow> node_id \<Rightarrow> bool" where
  "less_node_id a b \<longleftrightarrow> node_str a < node_str b"

instance
  by standard (auto simp: less_eq_node_id_def less_node_id_def node_id.expand)

end

definition SERVER :: string where
  "SERVER = ''server''"

definition BROADCAST :: string where
  "BROADCAST = ''''"

definition server :: node_id where
  "server = NodeId SERVER"

definition broadcast :: node_id where
  "broadcast = NodeId BROADCAST"

definition is_server :: "node_id \<Rightarrow> bool" where
  "is_server n \<longleftrightarrow> node_str n = SERVER"

definition is_broadcast :: "node_id \<Rightarrow> bool" where
  "is_broadcast n \<longleftrightarrow> node_str n = []"

datatype delivery_method = ReliableOrdered | UnreliableOrdered | Unreliable | ReliableUnordered

definition DELIVERY_RELIABLE :: nat where "DELIVERY_RELIABLE = 0"
definition DELIVERY_UNRELIABLE_ORDERED :: nat where "DELIVERY_UNRELIABLE_ORDERED = 1"
definition DELIVERY_UNRELIABLE :: nat where "DELIVERY_UNRELIABLE = 2"
definition DELIVERY_RELIABLE_UNORDERED :: nat where "DELIVERY_RELIABLE_UNORDERED = 3"

definition from_u32 :: "nat \<Rightarrow> delivery_method" where
  "from_u32 v =
     (if v = DELIVERY_RELIABLE then ReliableOrdered
      else if v = DELIVERY_UNRELIABLE_ORDERED then UnreliableOrdered
      else if v = DELIVERY_RELIABLE_UNORDERED then ReliableUnordered
      else Unreliable)"

datatype connection_state = Disconnected | Connecting | Connected | Reconnecting | Failed

fun connection_state_str :: "connection_state \<Rightarrow> string" where
  "connection_state_str Disconnected = ''disconnected''"
| "connection_state_str Connecting = ''connecting''"
| "connection_state_str Connected = ''connected''"
| "connection_state_str Reconnecting = ''reconnecting''"
| "connection_state_str Failed = ''failed''"

section \<open>Errors\<close>

datatype mist_error =
    Internal string
  | Config string
  | Network string
  | Signaling string
  | Serialization string
  | NodeNotFound node_id
  | RouteNotFound node_id
  | MessageTooLarge nat nat
  | Other string

type_synonym 'a result = "mist_error + 'a"

section \<open>Signaling and overlay messages\<close>

datatype signaling_type =
  Offer | Answer | Candidate | Candidates | Request | Rejoin | CandidateAck | NegotiationAck

definition is_local_only :: "signaling_type \<Rightarrow> bool" where
  "is_local_only t \<longleftrightarrow> t = Rejoin"

record signaling_data =
  sender_id :: node_id
  receiver_id :: node_id
  room_id :: string
  sdata :: string
  signaling_type :: signaling_type

definition OVERLAY_MSG_HEARTBEAT :: nat where "OVERLAY_MSG_HEARTBEAT = 0"
definition OVERLAY_MSG_REQUEST_NODE_LIST :: nat where "OVERLAY_MSG_REQUEST_NODE_LIST = 1"
definition OVERLAY_MSG_NODE_LIST :: nat where "OVERLAY_MSG_NODE_LIST = 2"
definition OVERLAY_MSG_PING :: nat where "OVERLAY_MSG_PING = 3"
definition OVERLAY_MSG_PONG :: nat where "OVERLAY_MSG_PONG = 4"
definition OVERLAY_MSG_POSITION :: nat where "OVERLAY_MSG_POSITION = 5"

lemmas overlay_msg_defs =
  OVERLAY_MSG_HEARTBEAT_def OVERLAY_MSG_REQUEST_NODE_LIST_def OVERLAY_MSG_NODE_LIST_def
  OVERLAY_MSG_PING_def OVERLAY_MSG_PONG_def OVERLAY_MSG_POSITION_def

record overlay_message =
  message_type :: nat
  payload :: bytes

definition is_internal_control :: "overlay_message \<Rightarrow> bool" where
  "is_internal_control m \<longleftrightarrow>
     message_type m \<in> {OVERLAY_MSG_HEARTBEAT, OVERLAY_MSG_REQUEST_NODE_LIST,
       OVERLAY_MSG_NODE_LIST, OVERLAY_MSG_PING, OVERLAY_MSG_PONG, OVERLAY_MSG_POSITION}"

datatype message_content =
    Data signaling_data
  | Overlay overlay_message
  | Raw bytes

record overlay_envelope =
  env_from :: node_id
  env_to :: node_id
  msg_id :: nat
  env_seq :: nat
  hop_count :: nat
  content :: message_content

text \<open>
  \<open>OverlayEnvelope::new\<close> draws random 64-bit identifiers until one is not zero. The generator
  is outside the repository: the definitions take the sequence of values it produces, and the
  loop is a search that skips the zeros; \<open>None\<close> stands for a run that never ends.
\<close>

fun random_msg_id :: "nat list \<Rightarrow> nat option" where
  "random_msg_id [] = None"
| "random_msg_id (i # is) = (if i \<noteq> 0 then Some i else random_msg_id is)"

definition envelope_new :: "nat \<Rightarrow> node_id \<Rightarrow> node_id \<Rightarrow> nat \<Rightarrow> message_content \<Rightarrow> overlay_envelope" where
  "envelope_new rid from to hops c =
     \<lparr>env_from = from, env_to = to, msg_id = rid, env_seq = 0, hop_count = hops, content = c\<rparr>"

definition without_msg_id :: "node_id \<Rightarrow> node_id \<Rightarrow> nat \<Rightarrow> message_content \<Rightarrow> overlay_envelope" where
  "without_msg_id from to hops c =
     \<lparr>env_from = from, env_to = to, msg_id = 0, env_seq = 0, hop_count = hops, content = c\<rparr>"

definition with_seq :: "nat \<Rightarrow> overlay_envelope \<Rightarrow> overlay_envelope" where
  "with_seq s e = e\<lparr>env_seq := s\<rparr>"

section \<open>Lanes and actions\<close>

datatype send_lane = General | Control | Bulk

datatype overlay_action =
    SendMessage node_id bytes delivery_method send_lane
  | Connect node_id
  | Disconnect node_id
  | SuspectDisconnected node_id
  | ClearSuspect node_id
  | SendSignaling node_id overlay_envelope

lemma random_msg_id_nonzero: "random_msg_id is = Some i \<Longrightarrow> i \<noteq> 0 \<and> i \<in> set is"
  by (induction "is") (auto split: if_splits)

lemma random_msg_id_returns: "i \<in> set is \<Longrightarrow> i \<noteq> 0 \<Longrightarrow> \<exists>j. random_msg_id is = Some j"
  by (induction "is") auto

lemma is_broadcast_broadcast [simp]: "is_broadcast broadcast"
  by (simp add: is_broadcast_def broadcast_def BROADCAST_def)

lemma is_broadcast_iff: "is_broadcast n \<longleftrightarrow> n = broadcast"
  by (cases n) (simp add: is_broadcast_def broadcast_def BROADCAST_def)

lemma server_not_broadcast: "is_server n \<Longrightarrow> \<not> is_broadcast n"
  by (simp add: is_server_def is_broadcast_def SERVER_def)

end
