(* ===== verification/Storage_Cid.thy ===== *)
theory Storage_Cid
  imports Bit_Groups Core_Types
begin

unbundle bit_operations_syntax

text \<open>
  Content identifiers (\<open>storage/cid.rs\<close>) and the key rules of the metadata store
  (\<open>storage/meta.rs\<close>). SHA-256 and the unsigned-varint codec are crates outside the repository:
  \<open>sha256\<close>, \<open>varint\<close> and \<open>unvarint\<close> are arguments of the definitions that call them. Characters
  are bytes; the accumulators of the base-32 loops are kept at their machine width.
\<close>

section \<open>Definitions\<close>

definition byte_of :: "char \<Rightarrow> nat" where
  "byte_of c = of_char c"

definition char_of_byte :: "nat \<Rightarrow> char" where
  "char_of_byte n = char_of n"

definition str_bytes :: "string \<Rightarrow> bytes" where
  "str_bytes s = map (\<lambda>c. of_nat (byte_of c)) s"

definition MULTICODEC_RAW :: nat where "MULTICODEC_RAW = 0x55"
definition MULTICODEC_DAG_CBOR :: nat where "MULTICODEC_DAG_CBOR = 0x71"
definition CID_VERSION :: nat where "CID_VERSION = 0x01"
definition MULTIHASH_SHA2_256 :: nat where "MULTIHASH_SHA2_256 = 0x12"
definition MULTIHASH_SHA2_256_LEN :: u8 where "MULTIHASH_SHA2_256_LEN = 32"
definition MAX_CID_LEN :: nat where "MAX_CID_LEN = 128"

definition BASE32_ALPHABET :: string where
  "BASE32_ALPHABET = ''abcdefghijklmnopqrstuvwxyz234567''"

text \<open>The inner loop \<open>while bits_left >= 5\<close>, then the loop over the bytes and the final partial group.\<close>

fun base32_emit :: "nat \<Rightarrow> nat \<Rightarrow> nat list \<Rightarrow> nat \<times> nat list" where
  "base32_emit buffer bits_left out =
     (if bits_left \<ge> 5 then
        let bits_left = bits_left - 5;
            idx = drop_bit bits_left buffer AND 0x1F
        in base32_emit buffer bits_left (out @ [idx])
      else (bits_left, out))"

declare base32_emit.simps [simp del]

fun base32_loop :: "bytes \<Rightarrow> nat \<Rightarrow> nat \<Rightarrow> nat list \<Rightarrow> nat \<times> nat \<times> nat list" where
  "base32_loop [] buffer bits_left out = (buffer, bits_left, out)"
| "base32_loop (b # bs) buffer bits_left out =
     (let buffer = take_bit 64 (push_bit 8 buffer) OR unat b;
          (bits_left, out) = base32_emit buffer (bits_left + 8) out
      in base32_loop bs buffer bits_left out)"

definition base32_indices :: "bytes \<Rightarrow> nat list" where
  "base32_indices data =
     (let (buffer, bits_left, out) = base32_loop data 0 0 [] in
      if bits_left > 0 then out @ [push_bit (5 - bits_left) buffer AND 0x1F] else out)"

definition base32lower_encode :: "bytes \<Rightarrow> string" where
  "base32lower_encode data = map (\<lambda>idx. BASE32_ALPHABET ! idx) (base32_indices data)"

definition compute_cid :: "(bytes \<Rightarrow> bytes) \<Rightarrow> (nat \<Rightarrow> bytes) \<Rightarrow> bytes \<Rightarrow> nat \<Rightarrow> string" where
  "compute_cid sha256 varint data codec =
     (let hash = sha256 data;
          cid = varint CID_VERSION @ varint codec @ varint MULTIHASH_SHA2_256
                @ [MULTIHASH_SHA2_256_LEN] @ hash
      in CHR ''b'' # base32lower_encode cid)"

definition verify_cid :: "(bytes \<Rightarrow> bytes) \<Rightarrow> (nat \<Rightarrow> bytes) \<Rightarrow> string \<Rightarrow> bytes \<Rightarrow> nat \<Rightarrow> bool" where
  "verify_cid sha256 varint cid data expected_codec \<longleftrightarrow> compute_cid sha256 varint data expected_codec = cid"

definition is_base32lower :: "char \<Rightarrow> bool" where
  "is_base32lower c \<longleftrightarrow>
     (byte_of CHR ''a'' \<le> byte_of c \<and> byte_of c \<le> byte_of CHR ''z'') \<or>
     (byte_of CHR ''2'' \<le> byte_of c \<and> byte_of c \<le> byte_of CHR ''7'')"

definition is_valid_cid :: "string \<Rightarrow> bool" where
  "is_valid_cid cid =
     (if length cid < 2 \<or> length cid > MAX_CID_LEN then False
      else if cid ! 0 \<noteq> CHR ''b'' then False
      else list_all is_base32lower (drop 1 cid))"

definition base32_value :: "char \<Rightarrow> nat option" where
  "base32_value c =
     (if byte_of CHR ''a'' \<le> byte_of c \<and> byte_of c \<le> byte_of CHR ''z'' then Some (byte_of c - byte_of CHR ''a'')
      else if byte_of CHR ''2'' \<le> byte_of c \<and> byte_of c \<le> byte_of CHR ''7'' then Some (byte_of c - byte_of CHR ''2'' + 26)
      else None)"

fun base32_decode_loop :: "string \<Rightarrow> nat \<Rightarrow> nat \<Rightarrow> bytes \<Rightarrow> bytes option" where
  "base32_decode_loop [] buffer bits decoded = Some decoded"
| "base32_decode_loop (c # cs) buffer bits decoded =
     (case base32_value c of
        None \<Rightarrow> None
      | Some v \<Rightarrow>
          let buffer = take_bit 32 (push_bit 5 buffer) OR v;
              bits = bits + 5
          in if bits \<ge> 8 then
               base32_decode_loop cs buffer (bits - 8) (decoded @ [of_nat (drop_bit (bits - 8) buffer)])
             else base32_decode_loop cs buffer bits decoded)"

definition cid_codec :: "(bytes \<Rightarrow> (nat \<times> bytes) option) \<Rightarrow> string \<Rightarrow> nat option" where
  "cid_codec unvarint cid =
     (if \<not> is_valid_cid cid then None
      else
        case base32_decode_loop (drop 1 cid) 0 0 [] of
          None \<Rightarrow> None
        | Some decoded \<Rightarrow>
            if base32lower_encode decoded \<noteq> drop 1 cid then None
            else
              Option.bind (unvarint decoded) (\<lambda>(version, rest).
              Option.bind (unvarint rest) (\<lambda>(codec, rest).
              Option.bind (unvarint rest) (\<lambda>(hash, rest).
              Option.bind (unvarint rest) (\<lambda>(len, digest).
                if version = CID_VERSION \<and> hash = MULTIHASH_SHA2_256
                   \<and> len = unat MULTIHASH_SHA2_256_LEN \<and> length digest = unat MULTIHASH_SHA2_256_LEN
                then Some codec else None)))))"

definition MAX_META_KEY_BYTES :: nat where "MAX_META_KEY_BYTES = 512"
definition MAX_META_VALUE_BYTES :: nat where "MAX_META_VALUE_BYTES = 1048576"

definition validate_meta_key :: "(nat \<Rightarrow> string) \<Rightarrow> string \<Rightarrow> unit result" where
  "validate_meta_key show_nat key =
     (if key = [] then Inl (Internal ''meta key must not be empty'')
      else if length key > MAX_META_KEY_BYTES then
        Inl (Internal (''meta key exceeds '' @ show_nat MAX_META_KEY_BYTES @ '' bytes ('' @ show_nat (length key) @ '')''))
      else Inr ())"

definition validate_meta_value :: "(nat \<Rightarrow> string) \<Rightarrow> nat \<Rightarrow> unit result" where
  "validate_meta_value show_nat len =
     (if len > MAX_META_VALUE_BYTES then
        Inl (Internal (''meta value exceeds '' @ show_nat MAX_META_VALUE_BYTES @ '' bytes ('' @ show_nat len @ '')''))
      else Inr ())"

definition hex_digit :: "nat \<Rightarrow> char" where
  "hex_digit n = ''0123456789abcdef'' ! n"

definition encode_meta_key :: "string \<Rightarrow> string" where
  "encode_meta_key key =
     ''m_'' @ concat (map (\<lambda>c. [hex_digit (byte_of c div 16), hex_digit (byte_of c mod 16)]) key)"

section \<open>The base-32 codec\<close>

lemma base32_emit_spec:
  "\<exists>es. base32_emit buffer n out = (n mod 5, out @ es) \<and>
     bits_of 5 es @ nbits (n mod 5) buffer = nbits n buffer \<and> (\<forall>e \<in> set es. e < 32)"
proof (induction buffer n out rule: base32_emit.induct)
  case (1 buffer n out)
  show ?case
  proof (cases "5 \<le> n")
    case True
    let ?idx = "drop_bit (n - 5) buffer AND 31"
    from "1.IH" [OF True refl refl] obtain es where
      es: "base32_emit buffer (n - 5) (out @ [?idx]) = ((n - 5) mod 5, (out @ [?idx]) @ es)"
        "bits_of 5 es @ nbits ((n - 5) mod 5) buffer = nbits (n - 5) buffer" "\<forall>e \<in> set es. e < 32"
      by auto
    have idx: "nbits 5 ?idx = nbits 5 (drop_bit (n - 5) buffer)" "?idx < 32"
      using nbits_and_mask [of 5 "drop_bit (n - 5) buffer"] and_mask_less [of "drop_bit (n - 5) buffer" 5]
      by simp_all
    have "nbits n buffer = nbits 5 ?idx @ nbits (n - 5) buffer"
      using nbits_add [of 5 "n - 5" buffer] True unfolding idx(1) by simp
    with es idx(2) True show ?thesis
      by (intro exI [of _ "?idx # es"]) (simp add: base32_emit.simps [of buffer n] le_mod_geq Let_def)
  next
    case False
    then show ?thesis by (simp add: base32_emit.simps [of buffer n])
  qed
qed

lemma unat_byte_less: "unat (b :: u8) < 2 ^ 8"
  using unsigned_less [of b] by simp

lemma base32_loop_spec:
  assumes "n < 5" and "\<forall>e \<in> set out. e < 32"
  shows "\<exists>buffer' n' out'. base32_loop bs buffer n out = (buffer', n', out') \<and> n' < 5 \<and>
     (\<forall>e \<in> set out'. e < 32) \<and>
     bits_of 5 out' @ nbits n' buffer' = bits_of 5 out @ nbits n buffer @ bits_of 8 (map unat bs)"
  using assms
proof (induction bs arbitrary: buffer n out)
  case Nil
  then show ?case by simp
next
  case (Cons b bs)
  let ?buffer = "take_bit 64 (push_bit 8 buffer) OR unat b"
  obtain es where es: "base32_emit ?buffer (n + 8) out = ((n + 8) mod 5, out @ es)"
      "bits_of 5 es @ nbits ((n + 8) mod 5) ?buffer = nbits (n + 8) ?buffer" "\<forall>e \<in> set es. e < 32"
    using base32_emit_spec by blast
  have bits: "nbits (n + 8) ?buffer = nbits n buffer @ nbits 8 (unat b)"
    using Cons.prems(1) unat_byte_less by (intro nbits_take_push) simp_all
  have "(n + 8) mod 5 < 5" and "\<forall>e \<in> set (out @ es). e < 32"
    using Cons.prems(2) es(3) by auto
  from Cons.IH [OF this, of ?buffer] obtain buffer' n' out' where
    *: "base32_loop bs ?buffer ((n + 8) mod 5) (out @ es) = (buffer', n', out')" "n' < 5"
      "\<forall>e \<in> set out'. e < 32"
      "bits_of 5 out' @ nbits n' buffer' =
         bits_of 5 (out @ es) @ nbits ((n + 8) mod 5) ?buffer @ bits_of 8 (map unat bs)"
    by blast
  from *(4) have "bits_of 5 out' @ nbits n' buffer' = bits_of 5 out @ nbits n buffer @ bits_of 8 (map unat (b # bs))"
    using es(2) bits by simp
  with *(1-3) es(1) show ?case by simp
qed

lemma base32_indices_spec:
  "\<exists>k < 5. bits_of 5 (base32_indices data) = bits_of 8 (map unat data) @ replicate k False \<and>
     (\<forall>e \<in> set (base32_indices data). e < 32)"
proof -
  obtain buffer n out where l: "base32_loop data 0 0 [] = (buffer, n, out)" "n < 5"
      "\<forall>e \<in> set out. e < 32" "bits_of 5 out @ nbits n buffer = bits_of 8 (map unat data)"
    using base32_loop_spec [of 0 "[]" data 0] by auto
  show ?thesis
  proof (cases "n > 0")
    case True
    let ?idx = "push_bit (5 - n) buffer AND 31"
    have "nbits 5 ?idx = nbits (n + (5 - n)) (push_bit (5 - n) buffer)" and lt: "?idx < 32"
      using nbits_and_mask [of 5 "push_bit (5 - n) buffer"] and_mask_less [of "push_bit (5 - n) buffer" 5] l(2)
      by simp_all
    then have "nbits 5 ?idx = nbits n buffer @ replicate (5 - n) False"
      by (simp add: nbits_shift_left del: replicate.simps)
    then have "bits_of 5 (out @ [?idx]) = bits_of 8 (map unat data) @ replicate (5 - n) False"
      using l(4) by (metis append_assoc append_Nil2 bits_of_Cons bits_of_Nil bits_of_append)
    with True l lt show ?thesis
      by (intro exI [of _ "5 - n"]) (auto simp: base32_indices_def)
  next
    case False
    with l show ?thesis by (intro exI [of _ 0]) (simp add: base32_indices_def)
  qed
qed

lemma base32_value_alphabet: "i < 32 \<Longrightarrow> base32_value (BASE32_ALPHABET ! i) = Some i"
proof -
  have "\<forall>i \<in> set [0..<32]. base32_value (BASE32_ALPHABET ! i) = Some i" by code_simp
  then show "i < 32 \<Longrightarrow> base32_value (BASE32_ALPHABET ! i) = Some i" by simp
qed

lemma base32_alphabet_valid: "i < 32 \<Longrightarrow> is_base32lower (BASE32_ALPHABET ! i)"
proof -
  have "\<forall>i \<in> set [0..<32]. is_base32lower (BASE32_ALPHABET ! i)" by code_simp
  then show "i < 32 \<Longrightarrow> is_base32lower (BASE32_ALPHABET ! i)" by simp
qed

lemma nbits_byte_of_nat: "nbits 8 (unat (of_nat v :: u8)) = nbits 8 v"
  by (simp add: unsigned_of_nat)

lemma base32_decode_loop_spec:
  assumes "\<forall>v \<in> set vs. v < 32" and "bits < 8"
  shows "\<exists>decoded' rest. base32_decode_loop (map (\<lambda>i. BASE32_ALPHABET ! i) vs) buffer bits decoded = Some decoded' \<and>
    length rest < 8 \<and>
    bits_of 8 (map unat decoded') @ rest = bits_of 8 (map unat decoded) @ nbits bits buffer @ bits_of 5 vs"
  using assms
proof (induction vs arbitrary: buffer bits decoded)
  case Nil
  then show ?case by auto
next
  case (Cons v vs)
  let ?buffer = "take_bit 32 (push_bit 5 buffer) OR v"
  have v: "v < 32" using Cons.prems by simp
  have bits: "nbits (bits + 5) ?buffer = nbits bits buffer @ nbits 5 v"
    using v Cons.prems(2) by (intro nbits_take_push) simp_all
  show ?case
  proof (cases "8 \<le> bits + 5")
    case True
    let ?b = "of_nat (drop_bit (bits + 5 - 8) ?buffer) :: u8"
    have "nbits (bits + 5) ?buffer = nbits 8 (unat ?b) @ nbits (bits + 5 - 8) ?buffer"
      using nbits_add [of 8 "bits + 5 - 8" ?buffer] True unfolding nbits_byte_of_nat by (simp add: add.commute)
    moreover have "\<forall>v \<in> set vs. v < 32" and "bits + 5 - 8 < 8" using Cons.prems by auto
    from Cons.IH [OF this, of ?buffer "decoded @ [?b]"] obtain decoded' rest where
      "base32_decode_loop (map (\<lambda>i. BASE32_ALPHABET ! i) vs) ?buffer (bits + 5 - 8) (decoded @ [?b]) = Some decoded'"
      "length rest < 8"
      "bits_of 8 (map unat decoded') @ rest =
         bits_of 8 (map unat (decoded @ [?b])) @ nbits (bits + 5 - 8) ?buffer @ bits_of 5 vs"
      by blast
    ultimately show ?thesis
      using bits True v by (intro exI [of _ decoded'] exI [of _ rest]) (simp add: base32_value_alphabet Let_def)
  next
    case False
    then have "\<forall>v \<in> set vs. v < 32" and "bits + 5 < 8" using Cons.prems by auto
    from Cons.IH [OF this, of ?buffer decoded] obtain decoded' rest where
      "base32_decode_loop (map (\<lambda>i. BASE32_ALPHABET ! i) vs) ?buffer (bits + 5) decoded = Some decoded'"
      "length rest < 8"
      "bits_of 8 (map unat decoded') @ rest =
         bits_of 8 (map unat decoded) @ nbits (bits + 5) ?buffer @ bits_of 5 vs"
      by blast
    then show ?thesis
      using bits False v by (intro exI [of _ decoded'] exI [of _ rest]) (simp add: base32_value_alphabet Let_def)
  qed
qed

lemma base32_roundtrip: "base32_decode_loop (base32lower_encode data) 0 0 [] = Some data"
proof -
  obtain k where k: "k < 5" "bits_of 5 (base32_indices data) = bits_of 8 (map unat data) @ replicate k False"
      "\<forall>e \<in> set (base32_indices data). e < 32"
    using base32_indices_spec by blast
  obtain decoded rest where d: "base32_decode_loop (base32lower_encode data) 0 0 [] = Some decoded"
      "length rest < 8" "bits_of 8 (map unat decoded) @ rest = bits_of 5 (base32_indices data)"
    using base32_decode_loop_spec [OF k(3), of 0 0 "[]"] by (auto simp: base32lower_encode_def)
  have "map unat decoded = map unat data \<and> rest = replicate k False"
    using d(2,3) k(1,2) unat_byte_less by (intro regroup [of 8]) auto
  then have "decoded = data" by (metis inj_map_eq_map inj_on_def word_unat_eq_iff)
  with d(1) show ?thesis by simp
qed

lemma base32_encode_inject: "base32lower_encode a = base32lower_encode b \<Longrightarrow> a = b"
  by (metis base32_roundtrip option.inject)

lemma base32_encode_alphabet: "list_all is_base32lower (base32lower_encode data)"
  using base32_indices_spec [of data] base32_alphabet_valid
  by (auto simp: base32lower_encode_def list_all_iff)

lemma base32_encode_length:
  "\<exists>k < 5. 5 * length (base32lower_encode data) = 8 * length data + k"
proof -
  obtain k where k: "k < 5" "bits_of 5 (base32_indices data) = bits_of 8 (map unat data) @ replicate k False"
    using base32_indices_spec by blast
  from arg_cong [OF k(2), of length] k(1) show ?thesis
    by (auto simp: base32lower_encode_def)
qed

interpretation base32: roundtrip_codec base32lower_encode "\<lambda>s. base32_decode_loop s 0 0 []" "\<lambda>_. True"
  by unfold_locales (simp add: base32_roundtrip)

section \<open>Metadata keys\<close>

definition hex_pair :: "char \<Rightarrow> string" where
  "hex_pair c = [hex_digit (byte_of c div 16), hex_digit (byte_of c mod 16)]"

lemma hex_digit_inject: "m < 16 \<Longrightarrow> n < 16 \<Longrightarrow> hex_digit m = hex_digit n \<longleftrightarrow> m = n"
proof -
  have "\<forall>m \<in> set [0..<16]. \<forall>n \<in> set [0..<16]. hex_digit m = hex_digit n \<longleftrightarrow> m = n" by code_simp
  then show "m < 16 \<Longrightarrow> n < 16 \<Longrightarrow> hex_digit m = hex_digit n \<longleftrightarrow> m = n" by simp
qed

lemma byte_of_less: "byte_of c < 256"
  by (simp add: byte_of_def)

lemma byte_of_inject: "byte_of c = byte_of d \<longleftrightarrow> c = d"
  by (simp add: byte_of_def)

lemma hex_pair_inject: "hex_pair c = hex_pair d \<longleftrightarrow> c = d"
proof -
  have "byte_of c div 16 < 16" "byte_of d div 16 < 16"
    using byte_of_less [of c] byte_of_less [of d] by auto
  then have "hex_pair c = hex_pair d \<longleftrightarrow> byte_of c div 16 = byte_of d div 16 \<and> byte_of c mod 16 = byte_of d mod 16"
    by (simp add: hex_pair_def hex_digit_inject)
  also have "\<dots> \<longleftrightarrow> byte_of c = byte_of d" by (metis div_mult_mod_eq)
  finally show ?thesis by (simp add: byte_of_inject)
qed

lemma encode_meta_key_pairs: "encode_meta_key key = ''m_'' @ concat (map hex_pair key)"
proof -
  have "hex_pair = (\<lambda>c. [hex_digit (byte_of c div 16), hex_digit (byte_of c mod 16)])"
    by (rule ext) (simp add: hex_pair_def)
  then show ?thesis by (simp add: encode_meta_key_def)
qed

lemma length_hex_pair [simp]: "length (hex_pair c) = 2"
  by (simp add: hex_pair_def)

lemma concat_hex_pair_inject: "concat (map hex_pair k1) = concat (map hex_pair k2) \<Longrightarrow> k1 = k2"
proof (induction k1 arbitrary: k2)
  case Nil
  then show ?case by (cases k2) (simp_all add: hex_pair_def)
next
  case (Cons c k1)
  then obtain d k2' where k2: "k2 = d # k2'" by (cases k2) (auto simp: hex_pair_def)
  have "hex_pair c = hex_pair d \<and> concat (map hex_pair k1) = concat (map hex_pair k2')"
    using Cons.prems by (simp add: k2 append_eq_append_conv)
  with Cons.IH show ?case by (simp add: k2 hex_pair_inject)
qed

lemma hex_digit_safe: "n < 16 \<Longrightarrow> hex_digit n \<in> set ''0123456789abcdef''"
  unfolding hex_digit_def by (intro nth_mem) simp

section \<open>Properties\<close>

text \<open>
  The codec number is recovered from every identifier \<open>compute_cid\<close> makes, and the
  identifier passes the path-safety check, given the documented behaviour of the two crates:
  a SHA-256 digest has 32 bytes, a varint below 128 is one byte, and decoding reads back what was
  encoded and returns the rest.
\<close>

lemma cid_codec_compute_cid:
  assumes "\<And>d. length (sha256 d) = 32" and "\<And>n. n < 128 \<Longrightarrow> varint n = [of_nat n]"
    and "\<And>n rest. n < 2 ^ 64 \<Longrightarrow> unvarint (varint n @ rest) = Some (n, rest)" and "codec < 128"
  shows "is_valid_cid (compute_cid sha256 varint data codec)
    \<and> cid_codec unvarint (compute_cid sha256 varint data codec) = Some codec"
proof -
  let ?bytes = "varint CID_VERSION @ varint codec @ varint MULTIHASH_SHA2_256 @ [MULTIHASH_SHA2_256_LEN] @ sha256 data"
  have cid: "compute_cid sha256 varint data codec = CHR ''b'' # base32lower_encode ?bytes"
    by (simp add: compute_cid_def Let_def)
  have "length ?bytes = 36"
    using assms by (simp add: CID_VERSION_def MULTIHASH_SHA2_256_def)
  then have "length (base32lower_encode ?bytes) = 58"
    using base32_encode_length [of ?bytes] by auto
  then have valid: "is_valid_cid (compute_cid sha256 varint data codec)"
    by (simp add: cid is_valid_cid_def MAX_CID_LEN_def base32_encode_alphabet)
  have len: "unvarint (MULTIHASH_SHA2_256_LEN # sha256 data) = Some (32, sha256 data)"
    using assms(2) [of 32] assms(3) [of 32 "sha256 data"] by (simp add: MULTIHASH_SHA2_256_LEN_def)
  show ?thesis
    using valid len assms(1,4) assms(3) [of CID_VERSION] assms(3) [of codec] assms(3) [of MULTIHASH_SHA2_256]
    by (simp add: cid cid_codec_def base32_roundtrip CID_VERSION_def MULTIHASH_SHA2_256_def MULTIHASH_SHA2_256_LEN_def)
qed

definition demo_sha256 :: "bytes \<Rightarrow> bytes" where
  "demo_sha256 d = replicate 32 0"

text \<open>The unsigned LEB128 varint, used as a concrete instance of the two varint parameters.\<close>

fun demo_varint :: "nat \<Rightarrow> bytes" where
  "demo_varint n = (if n < 128 then [of_nat n] else of_nat (128 + n mod 128) # demo_varint (n div 128))"

fun demo_unvarint :: "bytes \<Rightarrow> (nat \<times> bytes) option" where
  "demo_unvarint [] = None"
| "demo_unvarint (b # bs) =
     (if unat b < 128 then Some (unat b, bs)
      else case demo_unvarint bs of None \<Rightarrow> None | Some (n, rest) \<Rightarrow> Some (unat b - 128 + 128 * n, rest))"

lemma demo_varint_roundtrip: "demo_unvarint (demo_varint n @ rest) = Some (n, rest)"
proof (induction n rule: demo_varint.induct)
  case (1 n)
  have b: "unat (of_nat k :: u8) = k" if "k < 256" for k
    using that by (simp add: unsigned_of_nat take_bit_nat_eq_self)
  show ?case
  proof (cases "n < 128")
    case True
    then show ?thesis by (simp add: b)
  next
    case False
    have "unat (of_nat (128 + n mod 128) :: u8) = 128 + n mod 128"
      by (rule b) (use mod_less_divisor [of 128 n] in linarith)
    with False "1.IH" show ?thesis
      by (simp add: demo_varint.simps [of n] del: demo_varint.simps)
  qed
qed

theorem cid_codec_compute_cid_witness:
  "is_valid_cid (compute_cid demo_sha256 demo_varint [1, 2, 3] MULTICODEC_RAW)
   \<and> cid_codec demo_unvarint (compute_cid demo_sha256 demo_varint [1, 2, 3] MULTICODEC_RAW) = Some MULTICODEC_RAW"
  by (rule cid_codec_compute_cid)
    (simp_all add: demo_sha256_def demo_varint_roundtrip MULTICODEC_RAW_def del: demo_varint.simps,
     simp add: demo_varint.simps)

text \<open>
  An identifier that passes \<open>is_valid_cid\<close> cannot leave the block directory when it is
  used as a file name: it holds no path separator, no dot and no drive colon, is not empty and
  has at most 128 characters.
\<close>

lemma valid_cid_is_safe_filename:
  assumes "is_valid_cid cid"
  shows "set cid \<inter> {CHR ''/'', CHR 0x5C, CHR ''.'', CHR '':''} = {} \<and> cid \<noteq> [] \<and> length cid \<le> 128"
proof -
  have unsafe: "\<not> is_base32lower c" if "c \<in> {CHR ''/'', CHR 0x5C, CHR ''.'', CHR '':''}" for c
    using that by (auto simp: is_base32lower_def byte_of_def)
  obtain c cs where cid: "cid = c # cs" using assms by (cases cid) (auto simp: is_valid_cid_def)
  with assms have "c = CHR ''b''" "list_all is_base32lower cs" "length cid \<le> 128"
    by (auto simp: is_valid_cid_def MAX_CID_LEN_def split: if_splits)
  with unsafe cid show ?thesis by (fastforce simp: list_all_iff)
qed

theorem valid_cid_is_safe_filename_witness:
  "set ''bafk2'' \<inter> {CHR ''/'', CHR 0x5C, CHR ''.'', CHR '':''} = {} \<and> ''bafk2'' \<noteq> [] \<and> length ''bafk2'' \<le> 128"
  by (rule valid_cid_is_safe_filename) code_simp

text \<open>
  File names of metadata keys: different keys get different names, and no name is a
  valid block identifier, so metadata and blocks never share a file.
\<close>

lemma meta_key_filenames:
  "(encode_meta_key k1 = encode_meta_key k2 \<longleftrightarrow> k1 = k2) \<and> \<not> is_valid_cid (encode_meta_key k1)
   \<and> set (encode_meta_key k1) \<subseteq> set ''m_0123456789abcdef''"
proof -
  have pair: "set (hex_pair c) \<subseteq> set ''0123456789abcdef''" for c
    using byte_of_less [of c] hex_digit_safe [of "byte_of c div 16"] hex_digit_safe [of "byte_of c mod 16"]
    by (simp add: hex_pair_def)
  have "(\<Union>c\<in>set k1. set (hex_pair c)) \<subseteq> set ''0123456789abcdef''"
    by (rule UN_least) (rule pair)
  moreover have "set ''m_'' \<union> set ''0123456789abcdef'' \<subseteq> set ''m_0123456789abcdef''" by code_simp
  ultimately have "set (encode_meta_key k1) \<subseteq> set ''m_0123456789abcdef''"
    unfolding encode_meta_key_pairs set_append set_concat set_map image_image by blast
  moreover have "\<not> is_valid_cid (encode_meta_key k1)"
    by (simp add: encode_meta_key_def is_valid_cid_def)
  ultimately show ?thesis
    using concat_hex_pair_inject by (auto simp: encode_meta_key_pairs)
qed

end
