(* ===== verification/Storage_Frames.thy ===== *)
theory Storage_Frames
  imports Storage_Cid
begin

text \<open>
  The wire frames of the block exchange (\<open>storage/protocol.rs\<close>, lines 752 to 971) and the send
  lane a message is put on (\<open>SendLane::classify\<close> of \<open>action.rs\<close>). A frame is a byte string; the
  16-bit chunk index and total are naturals written out as two big-endian bytes, so a value
  above \<open>u16::MAX\<close> would be truncated as the code's types do. \<open>str::from_utf8\<close> is the
  well-formedness test of the standard library.
\<close>

section \<open>Bytes and text\<close>

definition bytes_str :: "bytes \<Rightarrow> string" where
  "bytes_str bs = map (\<lambda>b. char_of_byte (unat b)) bs"

definition u8_between :: "nat \<Rightarrow> nat \<Rightarrow> u8 \<Rightarrow> bool" where
  "u8_between lo hi b \<longleftrightarrow> lo \<le> unat b \<and> unat b \<le> hi"

text \<open>Well-formed UTF-8: no overlong forms, no surrogates, nothing above U+10FFFF.\<close>

fun utf8_valid :: "bytes \<Rightarrow> bool" where
  "utf8_valid [] = True"
| "utf8_valid (b # bs) =
     (if unat b < 0x80 then utf8_valid bs
      else if u8_between 0xC2 0xDF b then
        (case bs of c1 # rest \<Rightarrow> u8_between 0x80 0xBF c1 \<and> utf8_valid rest | [] \<Rightarrow> False)
      else if u8_between 0xE0 0xEF b then
        (case bs of
           c1 # c2 # rest \<Rightarrow>
             u8_between (if b = 0xE0 then 0xA0 else 0x80) (if b = 0xED then 0x9F else 0xBF) c1
             \<and> u8_between 0x80 0xBF c2 \<and> utf8_valid rest
         | _ \<Rightarrow> False)
      else if u8_between 0xF0 0xF4 b then
        (case bs of
           c1 # c2 # c3 # rest \<Rightarrow>
             u8_between (if b = 0xF0 then 0x90 else 0x80) (if b = 0xF4 then 0x8F else 0xBF) c1
             \<and> u8_between 0x80 0xBF c2 \<and> u8_between 0x80 0xBF c3 \<and> utf8_valid rest
         | _ \<Rightarrow> False)
      else False)"

definition from_utf8 :: "bytes \<Rightarrow> string option" where
  "from_utf8 bs = (if utf8_valid bs then Some (bytes_str bs) else None)"

text \<open>\<open>slice.get(..n)\<close> and \<open>slice.get(i..j)\<close>: \<open>None\<close> out of range.\<close>

definition slice_to :: "nat \<Rightarrow> 'a list \<Rightarrow> 'a list option" where
  "slice_to n xs = (if n \<le> length xs then Some (take n xs) else None)"

definition slice_range :: "nat \<Rightarrow> nat \<Rightarrow> 'a list \<Rightarrow> 'a list option" where
  "slice_range i j xs = (if i \<le> j \<and> j \<le> length xs then Some (take (j - i) (drop i xs)) else None)"

definition u16_to_be_bytes :: "nat \<Rightarrow> bytes" where
  "u16_to_be_bytes n = [of_nat (n div 256), of_nat n]"

definition u16_from_be_bytes :: "u8 \<Rightarrow> u8 \<Rightarrow> nat" where
  "u16_from_be_bytes a b = unat a * 256 + unat b"

section \<open>Frames\<close>

definition MSG_WANT :: u8 where "MSG_WANT = 1"
definition MSG_HAVE :: u8 where "MSG_HAVE = 2"
definition MSG_QUERY :: u8 where "MSG_QUERY = 3"
definition MSG_HAVE_STATUS :: u8 where "MSG_HAVE_STATUS = 4"
definition MSG_HAVE_CHUNK :: u8 where "MSG_HAVE_CHUNK = 5"
definition HAVE_CHUNK_SIZE :: nat where "HAVE_CHUNK_SIZE = 16 * 1024"
definition MAX_WANT_BLOCK_BYTES :: nat where "MAX_WANT_BLOCK_BYTES = 8 * 1024 * 1024"
definition MAX_WANT_ASSEMBLY_BYTES :: nat where "MAX_WANT_ASSEMBLY_BYTES = 64 * 1024 * 1024"
definition MAX_WANT_CHUNKS :: nat where "MAX_WANT_CHUNKS = 8192"
definition MAX_WANT_ASSEMBLIES :: nat where "MAX_WANT_ASSEMBLIES = 256"
definition MAX_PENDING_WANTS :: nat where "MAX_PENDING_WANTS = 1024"
definition MAX_WANT_PEERS :: nat where "MAX_WANT_PEERS = 1024"

datatype storage_frame =
    Want string
  | Have string bytes
  | Query string
  | HaveStatus string
  | HaveChunk string nat nat bytes

definition parse_cid :: "bytes \<Rightarrow> string option" where
  "parse_cid bs =
     (if length bs > 255 then None
      else Option.bind (from_utf8 bs) (\<lambda>cid. if is_valid_cid cid then Some cid else None))"

definition classify_storage_frame :: "bytes \<Rightarrow> storage_frame option" where
  "classify_storage_frame raw =
     (case raw of
        [] \<Rightarrow> None
      | tag # rest \<Rightarrow>
          if tag = MSG_WANT then map_option Want (parse_cid rest)
          else if tag = MSG_QUERY then map_option Query (parse_cid rest)
          else if tag = MSG_HAVE_STATUS then map_option HaveStatus (parse_cid rest)
          else if tag = MSG_HAVE then
            (case rest of
               [] \<Rightarrow> None
             | cid_len # body \<Rightarrow>
                 Option.bind (Option.bind (slice_to (unat cid_len) body) parse_cid) (\<lambda>cid.
                 Some (Have cid (drop (unat cid_len) body))))
          else if tag = MSG_HAVE_CHUNK then
            Option.bind (slice_to 6 raw) (\<lambda>header.
              let cid_len = unat (header ! 1);
                  chunk_index = u16_from_be_bytes (header ! 2) (header ! 3);
                  chunk_total = u16_from_be_bytes (header ! 4) (header ! 5)
              in if chunk_total = 0 \<or> chunk_total > MAX_WANT_CHUNKS \<or> chunk_index \<ge> chunk_total then None
                 else
                   Option.bind (Option.bind (slice_range 6 (6 + cid_len) raw) parse_cid) (\<lambda>cid.
                   Some (HaveChunk cid chunk_index chunk_total (drop (6 + cid_len) raw))))
          else None)"

definition parse_have_message :: "bytes \<Rightarrow> (string \<times> bytes) option" where
  "parse_have_message raw =
     (case classify_storage_frame raw of Some (Have cid data) \<Rightarrow> Some (cid, data) | _ \<Rightarrow> None)"

definition build_have_message :: "string \<Rightarrow> bytes \<Rightarrow> bytes" where
  "build_have_message cid data =
     (let cb = str_bytes cid in MSG_HAVE # of_nat (length cb) # cb @ data)"

definition build_have_chunk_message :: "string \<Rightarrow> nat \<Rightarrow> nat \<Rightarrow> bytes \<Rightarrow> bytes" where
  "build_have_chunk_message cid chunk_index chunk_total data =
     (let cb = str_bytes cid in
      MSG_HAVE_CHUNK # of_nat (length cb) # u16_to_be_bytes chunk_index @ u16_to_be_bytes chunk_total @ cb @ data)"

definition parse_have_chunk_message :: "bytes \<Rightarrow> (string \<times> nat \<times> nat \<times> bytes) option" where
  "parse_have_chunk_message raw =
     (case classify_storage_frame raw of
        Some (HaveChunk cid chunk_index chunk_total data) \<Rightarrow> Some (cid, chunk_index, chunk_total, data)
      | _ \<Rightarrow> None)"

definition parse_want_message :: "bytes \<Rightarrow> string option" where
  "parse_want_message raw = (case classify_storage_frame raw of Some (Want cid) \<Rightarrow> Some cid | _ \<Rightarrow> None)"

definition build_want_message :: "string \<Rightarrow> bytes" where
  "build_want_message cid = MSG_WANT # str_bytes cid"

definition build_query_message :: "string \<Rightarrow> bytes" where
  "build_query_message cid = MSG_QUERY # str_bytes cid"

definition parse_query_message :: "bytes \<Rightarrow> string option" where
  "parse_query_message raw = (case classify_storage_frame raw of Some (Query cid) \<Rightarrow> Some cid | _ \<Rightarrow> None)"

definition build_have_status_message :: "string \<Rightarrow> bytes" where
  "build_have_status_message cid = MSG_HAVE_STATUS # str_bytes cid"

definition parse_have_status_message :: "bytes \<Rightarrow> string option" where
  "parse_have_status_message raw =
     (case classify_storage_frame raw of Some (HaveStatus cid) \<Rightarrow> Some cid | _ \<Rightarrow> None)"

definition HAVE_CHUNK_HEADER_LEN :: nat where "HAVE_CHUNK_HEADER_LEN = 6"
definition OVERLAY_ENVELOPE_SAFETY_MARGIN :: nat where "OVERLAY_ENVELOPE_SAFETY_MARGIN = 512"
definition MIN_CHUNK_SIZE :: nat where "MIN_CHUNK_SIZE = 1024"

definition chunk_size_for_limit :: "string \<Rightarrow> nat option \<Rightarrow> nat" where
  "chunk_size_for_limit cid limit =
     (case limit of
        None \<Rightarrow> HAVE_CHUNK_SIZE
      | Some limit \<Rightarrow>
          let overhead = HAVE_CHUNK_HEADER_LEN + length cid + OVERLAY_ENVELOPE_SAFETY_MARGIN in
          if overhead \<le> limit \<and> limit - overhead \<ge> MIN_CHUNK_SIZE
          then min (limit - overhead) HAVE_CHUNK_SIZE else HAVE_CHUNK_SIZE)"

definition div_ceil :: "nat \<Rightarrow> nat \<Rightarrow> nat" where
  "div_ceil a b = (if a mod b > 0 then a div b + 1 else a div b)"

definition have_chunk_count :: "nat \<Rightarrow> nat \<Rightarrow> nat option" where
  "have_chunk_count data_len chunk_size =
     (let chunk_count = div_ceil data_len chunk_size in
      if chunk_count > 65535 then None else Some chunk_count)"

text \<open>The payload of one chunk; \<open>&data[start..end]\<close> is in range for every index below the count.\<close>

definition build_have_payload :: "string \<Rightarrow> bytes \<Rightarrow> nat \<Rightarrow> nat \<Rightarrow> nat \<Rightarrow> bytes" where
  "build_have_payload cid data chunk_index total_chunks chunk_size =
     (if total_chunks \<le> 1 then build_have_message cid data
      else
        let start = chunk_index * chunk_size;
            e = min ((chunk_index + 1) * chunk_size) (length data)
        in build_have_chunk_message cid chunk_index total_chunks (take (e - start) (drop start data)))"

definition send_lane_classify :: "message_content \<Rightarrow> bool \<Rightarrow> send_lane" where
  "send_lane_classify cnt is_bcast =
     (case cnt of
        Raw data \<Rightarrow>
          (case classify_storage_frame data of
             Some (HaveChunk _ _ _ _) \<Rightarrow> if \<not> is_bcast then Bulk else General
           | None \<Rightarrow> General
           | Some _ \<Rightarrow> Control)
      | Overlay _ \<Rightarrow> Control
      | Data _ \<Rightarrow> Control)"

section \<open>Text and bytes\<close>

lemma unat_u8_less [simp]: "unat (b :: u8) < 256"
  using unsigned_less [of b] by simp

lemma bytes_str_bytes [simp]: "bytes_str (str_bytes s) = s"
proof -
  have "char_of_byte (unat (of_nat (byte_of c) :: u8)) = c" for c
    by (simp add: char_of_byte_def byte_of_def unsigned_of_nat take_bit_nat_eq_self)
  then show ?thesis by (simp add: bytes_str_def str_bytes_def comp_def)
qed

lemma str_bytes_str [simp]: "str_bytes (bytes_str bs) = bs"
proof -
  have "of_nat (byte_of (char_of_byte (unat b))) = b" for b :: u8
    by (simp add: char_of_byte_def byte_of_def)
  then show ?thesis by (simp add: bytes_str_def str_bytes_def comp_def)
qed

lemma length_str_bytes [simp]: "length (str_bytes s) = length s"
  by (simp add: str_bytes_def)

lemma ascii_utf8_valid: "\<forall>b \<in> set bs. unat b < 128 \<Longrightarrow> utf8_valid bs"
  by (induction bs) auto

lemma valid_cid_ascii:
  assumes "is_valid_cid cid" and "c \<in> set cid"
  shows "byte_of c < 128"
proof -
  have lower: "is_base32lower d \<Longrightarrow> byte_of d < 128" for d
    by (auto simp: is_base32lower_def byte_of_def)
  obtain d ds where cid: "cid = d # ds" using assms(1) by (cases cid) (auto simp: is_valid_cid_def)
  with assms(1) have "d = CHR ''b''" "list_all is_base32lower ds"
    by (auto simp: is_valid_cid_def split: if_splits)
  with assms(2) lower show ?thesis by (auto simp: cid list_all_iff byte_of_def)
qed

lemma valid_cid_length: "is_valid_cid cid \<Longrightarrow> length cid \<le> 128"
  by (auto simp: is_valid_cid_def MAX_CID_LEN_def split: if_splits)

lemma parse_cid_iff: "parse_cid bs = Some cid \<longleftrightarrow> is_valid_cid cid \<and> bs = str_bytes cid"
proof
  assume "parse_cid bs = Some cid"
  then show "is_valid_cid cid \<and> bs = str_bytes cid"
    by (auto simp: parse_cid_def from_utf8_def split: if_splits)
next
  assume cid: "is_valid_cid cid \<and> bs = str_bytes cid"
  have "utf8_valid (str_bytes cid)"
    using cid valid_cid_ascii
    by (intro ascii_utf8_valid) (fastforce simp: str_bytes_def unsigned_of_nat take_bit_nat_eq_self)
  with cid show "parse_cid bs = Some cid"
    using valid_cid_length [of cid] by (simp add: parse_cid_def from_utf8_def)
qed

lemma unat_of_nat_u8 [simp]: "n < 256 \<Longrightarrow> unat (of_nat n :: u8) = n"
  by (simp add: unsigned_of_nat take_bit_nat_eq_self)

lemma u16_roundtrip: "n < 65536 \<Longrightarrow>
    u16_from_be_bytes (of_nat (n div 256)) (of_nat n) = n"
proof -
  assume n: "n < 65536"
  have "unat (of_nat (n div 256) :: u8) = n div 256" using n by simp
  moreover have "unat (of_nat n :: u8) = n mod 256"
    by (simp add: unsigned_of_nat take_bit_eq_mod)
  ultimately show ?thesis by (simp add: u16_from_be_bytes_def)
qed

lemma u16_from_be_bytes_less: "u16_from_be_bytes a b < 65536"
  using unat_u8_less [of a] unat_u8_less [of b] unfolding u16_from_be_bytes_def by linarith

lemma u16_to_from: "u16_to_be_bytes (u16_from_be_bytes a b) = [a, b]"
proof -
  have ab: "unat a < 256" "unat b < 256" by simp_all
  then have "(unat a * 256 + unat b) div 256 = unat a" by simp
  moreover have "(of_nat (unat a * 256 + unat b) :: u8) = of_nat (unat a) * of_nat 256 + of_nat (unat b)"
    by (simp only: of_nat_add of_nat_mult)
  moreover have "w * 256 = 0" for w :: u8
  proof -
    have "(256 :: u8) = 0" by transfer simp
    then show ?thesis by (simp only: mult_zero_right)
  qed
  ultimately show ?thesis by (simp add: u16_to_be_bytes_def u16_from_be_bytes_def)
qed

section \<open>The frame codec\<close>

fun encode_frame :: "storage_frame \<Rightarrow> bytes" where
  "encode_frame (Want cid) = build_want_message cid"
| "encode_frame (Have cid data) = build_have_message cid data"
| "encode_frame (Query cid) = build_query_message cid"
| "encode_frame (HaveStatus cid) = build_have_status_message cid"
| "encode_frame (HaveChunk cid i n data) = build_have_chunk_message cid i n data"

fun frame_ok :: "storage_frame \<Rightarrow> bool" where
  "frame_ok (Want cid) = is_valid_cid cid"
| "frame_ok (Have cid data) = is_valid_cid cid"
| "frame_ok (Query cid) = is_valid_cid cid"
| "frame_ok (HaveStatus cid) = is_valid_cid cid"
| "frame_ok (HaveChunk cid i n data) \<longleftrightarrow> is_valid_cid cid \<and> i < n \<and> n \<le> MAX_WANT_CHUNKS"

lemmas msg_tag_defs = MSG_WANT_def MSG_HAVE_def MSG_QUERY_def MSG_HAVE_STATUS_def MSG_HAVE_CHUNK_def

lemmas build_defs = build_want_message_def build_have_message_def build_query_message_def
  build_have_status_message_def build_have_chunk_message_def

lemma parse_cid_str_bytes: "is_valid_cid cid \<Longrightarrow> parse_cid (str_bytes cid) = Some cid"
  by (simp add: parse_cid_iff)

lemma chunk_header:
  "slice_to 6 (t # l # a # b # c # d # rest) = Some [t, l, a, b, c, d]"
  "drop (6 + k) (t # l # a # b # c # d # rest) = drop k rest"
  "slice_range 6 (6 + k) (t # l # a # b # c # d # rest) = slice_to k rest"
  by (simp_all add: slice_to_def slice_range_def numeral_eq_Suc)

lemma slice_to_append [simp]: "n = length xs \<Longrightarrow> slice_to n (xs @ ys) = Some xs"
  by (simp add: slice_to_def)

lemma classify_encode:
  assumes "frame_ok f"
  shows "classify_storage_frame (encode_frame f) = Some f"
proof (cases f)
  case (Have cid data)
  with assms valid_cid_length [of cid] show ?thesis
    by (simp add: build_defs msg_tag_defs classify_storage_frame_def slice_to_def parse_cid_str_bytes)
next
  case (HaveChunk cid i n data)
  with assms valid_cid_length [of cid] show ?thesis
    by (simp add: build_defs msg_tag_defs classify_storage_frame_def chunk_header
        parse_cid_str_bytes u16_to_be_bytes_def u16_roundtrip MAX_WANT_CHUNKS_def Let_def)
qed (use assms in \<open>simp_all add: build_defs msg_tag_defs classify_storage_frame_def parse_cid_str_bytes\<close>)

lemma encode_classify_chunk:
  assumes "classify_storage_frame raw = Some f" and "hd raw = MSG_HAVE_CHUNK"
  shows "frame_ok f \<and> encode_frame f = raw"
proof -
  from assms obtain header where "slice_to 6 raw = Some header"
    by (cases raw) (auto simp: classify_storage_frame_def msg_tag_defs bind_eq_Some_conv)
  then have "6 \<le> length raw" by (simp add: slice_to_def split: if_splits)
  then obtain t l a b c d rest where raw: "raw = t # l # a # b # c # d # rest"
    by (auto simp: numeral_eq_Suc Suc_le_length_iff)
  let ?i = "u16_from_be_bytes a b" and ?n = "u16_from_be_bytes c d"
  from assms(2) have t: "t = MSG_HAVE_CHUNK" by (simp add: raw)
  from assms(1) obtain cid where "?i < ?n" "?n \<le> MAX_WANT_CHUNKS"
    and cid: "slice_to (unat l) rest = Some (str_bytes cid)" "is_valid_cid cid"
    and f: "f = HaveChunk cid ?i ?n (drop (unat l) rest)"
    by (auto simp: raw t classify_storage_frame_def msg_tag_defs chunk_header bind_eq_Some_conv
        parse_cid_iff Let_def not_le not_less split: if_splits)
  from cid(1) have rest: "take (unat l) rest = str_bytes cid" "unat l \<le> length rest"
    by (auto simp: slice_to_def split: if_splits)
  then have "length cid = unat l" by (metis length_str_bytes length_take min.absorb2)
  moreover have "str_bytes cid @ drop (unat l) rest = rest"
    using rest(1) by (metis append_take_drop_id)
  ultimately show ?thesis
    using cid(2) \<open>?i < ?n\<close> \<open>?n \<le> MAX_WANT_CHUNKS\<close>
    by (simp add: f raw t build_have_chunk_message_def Let_def u16_to_from)
qed

lemma encode_classify:
  assumes "classify_storage_frame raw = Some f"
  shows "frame_ok f \<and> encode_frame f = raw"
proof (cases "hd raw = MSG_HAVE_CHUNK")
  case True
  with assms show ?thesis by (rule encode_classify_chunk)
next
  case False
  obtain t rest where raw: "raw = t # rest" using assms by (cases raw) (auto simp: classify_storage_frame_def)
  show ?thesis
  proof (cases "t = MSG_HAVE")
    case True
    then obtain l body where rest: "rest = l # body"
      using assms by (cases rest) (auto simp: raw classify_storage_frame_def msg_tag_defs)
    with assms True obtain cid where "is_valid_cid cid" "f = Have cid (drop (unat l) body)"
      and body: "take (unat l) body = str_bytes cid" "unat l \<le> length body"
      by (auto simp: raw classify_storage_frame_def msg_tag_defs bind_eq_Some_conv parse_cid_iff
          slice_to_def split: if_splits)
    moreover have "length cid = unat l" using body by (metis length_str_bytes length_take min.absorb2)
    moreover have "str_bytes cid @ drop (unat l) body = body"
      using body(1) by (metis append_take_drop_id)
    ultimately show ?thesis by (simp add: raw rest True build_defs Let_def)
  next
    case False
    with assms \<open>hd raw \<noteq> MSG_HAVE_CHUNK\<close> show ?thesis
      by (auto simp: raw classify_storage_frame_def build_defs parse_cid_iff split: if_splits)
  qed
qed

interpretation storage_wire: roundtrip_codec encode_frame classify_storage_frame frame_ok
  by unfold_locales (rule classify_encode)

section \<open>Splitting a block into chunks\<close>

lemma concat_chunks: "concat (map (\<lambda>i. take cs (drop (i * cs) data)) [0..<n]) = take (n * cs) data"
  by (induction n) (simp_all add: take_add [symmetric] add.commute)

lemma div_ceil_le_iff: "0 < b \<Longrightarrow> div_ceil a b \<le> n \<longleftrightarrow> a \<le> n * b"
proof
  assume b: "0 < b" and le: "div_ceil a b \<le> n"
  have eq: "a div b * b + a mod b = a" by (rule div_mult_mod_eq)
  have "a \<le> div_ceil a b * b"
  proof (cases "a mod b = 0")
    case True
    with eq show ?thesis by (simp add: div_ceil_def)
  next
    case False
    then have "div_ceil a b * b = a div b * b + b" by (simp add: div_ceil_def)
    with eq mod_less_divisor [OF b, of a] show ?thesis by linarith
  qed
  also have "\<dots> \<le> n * b" using le by simp
  finally show "a \<le> n * b" .
next
  assume b: "0 < b" and le: "a \<le> n * b"
  have "a div b \<le> n" using div_le_mono [OF le, of b] b by simp
  moreover have "a div b \<noteq> n" if "0 < a mod b"
  proof
    assume "a div b = n"
    then have "n * b + a mod b = a" using div_mult_mod_eq [of a b] by simp
    with le that show False by simp
  qed
  ultimately show "div_ceil a b \<le> n" by (auto simp: div_ceil_def)
qed

lemma payload_slice:
  "take (min ((i + 1) * cs) (length data) - i * cs) (drop (i * cs) data) = take cs (drop (i * cs) data)"
proof (cases "(i + 1) * cs \<le> length data")
  case True
  then show ?thesis by (simp add: min_absorb1)
next
  case False
  then have "length (drop (i * cs) data) \<le> cs" by simp
  with False show ?thesis by (simp add: min_absorb2)
qed

text \<open>The parts of a block, and what the receiver makes of each payload.\<close>

definition block_parts :: "nat \<Rightarrow> nat \<Rightarrow> bytes \<Rightarrow> bytes list" where
  "block_parts chunk_size n data = map (\<lambda>i. take chunk_size (drop (i * chunk_size) data)) [0..<n]"

lemma length_block_parts [simp]: "length (block_parts chunk_size n data) = n"
  by (simp add: block_parts_def)

lemma concat_block_parts:
  assumes "0 < chunk_size" and "have_chunk_count (length data) chunk_size = Some n"
  shows "concat (block_parts chunk_size n data) = data"
proof -
  have "length data \<le> n * chunk_size"
    using assms div_ceil_le_iff [of chunk_size "length data" n] by (simp add: have_chunk_count_def Let_def split: if_splits)
  then show ?thesis by (simp add: block_parts_def concat_chunks)
qed

lemma classify_chunk_payload:
  assumes "is_valid_cid cid" and "1 < n" and "n \<le> MAX_WANT_CHUNKS" and "i < n"
  shows "classify_storage_frame (build_have_payload cid data i n chunk_size) = Some (HaveChunk cid i n (block_parts chunk_size n data ! i))"
  using assms classify_encode [of "HaveChunk cid i n (block_parts chunk_size n data ! i)"]
  by (simp add: build_have_payload_def Let_def block_parts_def payload_slice [simplified])

lemma classify_whole_payload:
  assumes "is_valid_cid cid" and "n \<le> 1"
  shows "classify_storage_frame (build_have_payload cid data i n chunk_size) = Some (Have cid data)"
  using assms classify_encode [of "Have cid data"] by (simp add: build_have_payload_def)

section \<open>Properties\<close>

text \<open>
  Property C17. The wire format is canonical: a byte string is classified as the frame \<open>f\<close> exactly if
  \<open>f\<close> is well formed (a valid identifier, a chunk index below a total of at most 8192) and the
  bytes are what the sender's builder makes of \<open>f\<close>. So every frame a peer builds is read back
  unchanged, different frames never share an encoding, and every other byte string is left to
  the application.
\<close>

theorem storage_frame_canonical:
  "classify_storage_frame raw = Some f \<longleftrightarrow> frame_ok f \<and> encode_frame f = raw"
  using storage_wire.dec_enc encode_classify by blast

text \<open>
  Chunking loses nothing: the chunk payloads a sender builds for a block are parsed by the
  receiver as the chunks \<open>0, \<dots>, n - 1\<close> of the same identifier, none is longer than the chunk size,
  and put together in index order they are the block.
\<close>

lemma chunk_payloads_reassemble:
  assumes "is_valid_cid cid" and "0 < chunk_size" and "have_chunk_count (length data) chunk_size = Some n"
    and "1 < n" and "n \<le> MAX_WANT_CHUNKS"
  shows "\<exists>parts. length parts = n \<and> concat parts = data \<and> (\<forall>part \<in> set parts. length part \<le> chunk_size) \<and>
      (\<forall>i < n. parse_have_chunk_message (build_have_payload cid data i n chunk_size) = Some (cid, i, n, parts ! i))"
proof (intro exI [of _ "block_parts chunk_size n data"] conjI allI impI)
  show "concat (block_parts chunk_size n data) = data" by (rule concat_block_parts [OF assms(2,3)])
  fix i assume "i < n"
  with classify_chunk_payload [OF assms(1,4,5)]
  show "parse_have_chunk_message (build_have_payload cid data i n chunk_size) = Some (cid, i, n, block_parts chunk_size n data ! i)"
    by (simp add: parse_have_chunk_message_def)
qed (auto simp: block_parts_def)

theorem chunk_payloads_reassemble_witness:
  "\<exists>parts. length parts = 3 \<and> concat parts = [1, 2, 3, 4, 5] \<and> (\<forall>part \<in> set parts. length part \<le> 2) \<and>
      (\<forall>i < 3. parse_have_chunk_message (build_have_payload ''bafk2'' [1, 2, 3, 4, 5] i 3 2)
        = Some (''bafk2'', i, 3, parts ! i))"
  by (rule chunk_payloads_reassemble)
    (code_simp, simp_all add: have_chunk_count_def div_ceil_def MAX_WANT_CHUNKS_def)

text \<open>
  A block within the receiver's size bound always goes through: with a plausible message
  ceiling the sender's chunk count stays within the receiver's limit, and every payload leaves at
  least 512 bytes below the ceiling for the overlay envelope.
\<close>

lemma chunk_size_fits_limit:
  assumes "HAVE_CHUNK_HEADER_LEN + length cid + OVERLAY_ENVELOPE_SAFETY_MARGIN + MIN_CHUNK_SIZE \<le> limit"
    and "length data \<le> MAX_WANT_BLOCK_BYTES" and "cs = chunk_size_for_limit cid (Some limit)"
  shows "\<exists>n \<le> MAX_WANT_CHUNKS. have_chunk_count (length data) cs = Some n \<and>
      (\<forall>i. length (build_have_payload cid data i n cs) + OVERLAY_ENVELOPE_SAFETY_MARGIN \<le> limit)"
proof -
  define n where "n = div_ceil (length data) cs"
  have cs: "MIN_CHUNK_SIZE \<le> cs" "6 + length cid + 512 + cs \<le> limit"
    using assms(1,3) by (auto simp: chunk_size_for_limit_def Let_def HAVE_CHUNK_HEADER_LEN_def
        OVERLAY_ENVELOPE_SAFETY_MARGIN_def MIN_CHUNK_SIZE_def HAVE_CHUNK_SIZE_def)
  then have pos: "0 < cs" by (simp add: MIN_CHUNK_SIZE_def)
  have "length data \<le> 8192 * cs"
    using assms(2) cs(1) by (simp add: MAX_WANT_BLOCK_BYTES_def MIN_CHUNK_SIZE_def)
  then have n: "n \<le> 8192" unfolding n_def by (simp add: div_ceil_le_iff [OF pos])
  have len: "length (build_have_payload cid data i n cs) \<le> 6 + length cid + cs" for i
  proof (cases "n \<le> 1")
    case True
    then have "length data \<le> 1 * cs" unfolding n_def by (simp only: div_ceil_le_iff [OF pos])
    with True show ?thesis by (simp add: build_have_payload_def build_have_message_def Let_def)
  next
    case False
    then show ?thesis
      by (simp add: build_have_payload_def build_have_chunk_message_def Let_def u16_to_be_bytes_def)
  qed
  have "length (build_have_payload cid data i n cs) + 512 \<le> limit" for i
    using cs(2) len [of i] by linarith
  with n show ?thesis
    by (intro exI [of _ n])
      (simp add: have_chunk_count_def n_def [symmetric] MAX_WANT_CHUNKS_def OVERLAY_ENVELOPE_SAFETY_MARGIN_def)
qed

theorem chunk_size_fits_limit_witness:
  "\<exists>n \<le> MAX_WANT_CHUNKS. have_chunk_count (length ([1, 2, 3] :: bytes)) (chunk_size_for_limit ''bafk2'' (Some 2000)) = Some n \<and>
      (\<forall>i. length (build_have_payload ''bafk2'' [1, 2, 3] i n (chunk_size_for_limit ''bafk2'' (Some 2000)))
        + OVERLAY_ENVELOPE_SAFETY_MARGIN \<le> 2000)"
  by (rule chunk_size_fits_limit) (simp_all add: HAVE_CHUNK_HEADER_LEN_def OVERLAY_ENVELOPE_SAFETY_MARGIN_def
      MIN_CHUNK_SIZE_def MAX_WANT_BLOCK_BYTES_def)

text \<open>
  Lanes separate traffic: of the raw messages exactly the well-formed unicast chunks go
  on the bulk lane, and exactly the other well-formed storage frames on the control lane; bytes
  that are no storage frame, the application's own, never enter either.
\<close>

lemma send_lane_separation:
  "(send_lane_classify (Raw raw) is_bcast = Bulk \<longleftrightarrow>
      \<not> is_bcast \<and> (\<exists>cid i n data. frame_ok (HaveChunk cid i n data) \<and> raw = build_have_chunk_message cid i n data))
   \<and> (send_lane_classify (Raw raw) is_bcast = Control \<longleftrightarrow>
      (\<exists>f. frame_ok f \<and> raw = encode_frame f) \<and>
      \<not> (\<exists>cid i n data. frame_ok (HaveChunk cid i n data) \<and> raw = build_have_chunk_message cid i n data))"
proof -
  have chunk: "(\<exists>cid i n data. frame_ok (HaveChunk cid i n data) \<and> raw = build_have_chunk_message cid i n data)
      \<longleftrightarrow> (\<exists>cid i n data. classify_storage_frame raw = Some (HaveChunk cid i n data))"
    using encode_classify [of raw] classify_encode by (metis encode_frame.simps(5))
  have any: "(\<exists>f. frame_ok f \<and> raw = encode_frame f) \<longleftrightarrow> classify_storage_frame raw \<noteq> None"
    using encode_classify [of raw] classify_encode by (metis option.exhaust option.distinct(1))
  show ?thesis
    unfolding chunk any
    by (auto simp: send_lane_classify_def split: option.splits storage_frame.splits)
qed

end
