(* ===== verification/Storage_Registry.thy ===== *)
theory Storage_Registry
  imports Storage_Frames
begin

text \<open>
  The registry of outstanding block requests (\<open>storage/protocol.rs\<close>, lines 28 to 750) and its
  admission counters (\<open>storage/telemetry.rs\<close>).

  Every operation holds the registry's lock for its whole body, so it is one step on the state.
  A \<open>oneshot\<close> sender is represented by the number of its attempt and a flag that says whether
  its receiver was dropped; what is sent through it is returned as a list of \<open>want_signal\<close>s.
  A \<open>watch\<close> sender is represented by its current value (and, where the code asks for it, by its
  number of receivers). \<open>Instant::now()\<close> is an argument. Log lines, and the snapshot that only
  feeds them, are left out.
\<close>

section \<open>Counters\<close>

record storage_counters =
  accepted_chunks :: nat
  accepted_bytes :: nat
  duplicate_chunks :: nat
  duplicate_bytes :: nat
  rejected_chunks :: nat
  blocks_completed :: nat
  have_status_received :: nat

definition counters_zero :: storage_counters where
  "counters_zero = \<lparr>accepted_chunks = 0, accepted_bytes = 0, duplicate_chunks = 0, duplicate_bytes = 0,
     rejected_chunks = 0, blocks_completed = 0, have_status_received = 0\<rparr>"

definition count_accepted :: "nat \<Rightarrow> storage_counters \<Rightarrow> storage_counters" where
  "count_accepted n c = c\<lparr>accepted_chunks := wrap64 (accepted_chunks c + 1), accepted_bytes := wrap64 (accepted_bytes c + n)\<rparr>"

definition count_duplicate :: "nat \<Rightarrow> storage_counters \<Rightarrow> storage_counters" where
  "count_duplicate n c = c\<lparr>duplicate_chunks := wrap64 (duplicate_chunks c + 1), duplicate_bytes := wrap64 (duplicate_bytes c + n)\<rparr>"

definition count_rejected :: "storage_counters \<Rightarrow> storage_counters" where
  "count_rejected c = c\<lparr>rejected_chunks := wrap64 (rejected_chunks c + 1)\<rparr>"

definition count_completed :: "storage_counters \<Rightarrow> storage_counters" where
  "count_completed c = c\<lparr>blocks_completed := wrap64 (blocks_completed c + 1)\<rparr>"

section \<open>State\<close>

record chunk_progress =
  cp_received :: nat
  cp_accepted :: nat
  cp_last_accepted :: "instant option"

record pending_want =
  want_id :: nat
  want_paths :: "string set"
  want_resets :: nat
  want_progress :: chunk_progress
  want_peers :: "node_id list"
  tx_closed :: bool
  byte_limit :: "nat option"

record chunk_assembly =
  total_chunks :: nat
  received_chunks :: nat
  asm_bytes :: nat
  asm_chunks :: "bytes option list"

type_synonym asm_key = "string \<times> node_id \<times> string"

record want_state =
  pending :: "(string, pending_want list) hmap"
  assemblies :: "(asm_key, chunk_assembly) hmap"
  next_attempt :: nat
  sender_progress :: "(node_id, nat) hmap"
  sender_activity :: "(node_id, instant) hmap"
  any_progress :: nat
  query_paths :: "(string \<times> node_id, nat \<times> nat) hmap"

datatype want_signal =
    Deliver nat bytes
  | Overflow nat nat

definition want_state_default :: want_state where
  "want_state_default = \<lparr>pending = [], assemblies = [], next_attempt = 0, sender_progress = [],
     sender_activity = [], any_progress = 0, query_paths = []\<rparr>"

definition chunk_progress_default :: chunk_progress where
  "chunk_progress_default = \<lparr>cp_received = 0, cp_accepted = 0, cp_last_accepted = None\<rparr>"

section \<open>WantState\<close>

definition on_path :: "node_id \<Rightarrow> string \<Rightarrow> pending_want \<Rightarrow> bool" where
  "on_path sender room want \<longleftrightarrow> sender \<in> set (want_peers want) \<and> room \<in> want_paths want"

definition wants_of :: "string \<Rightarrow> want_state \<Rightarrow> pending_want list" where
  "wants_of cid st = (case hm_get (pending st) cid of None \<Rightarrow> [] | Some wants \<Rightarrow> wants)"

definition accepts :: "string \<Rightarrow> node_id \<Rightarrow> string \<Rightarrow> want_state \<Rightarrow> bool" where
  "accepts cid sender room st \<longleftrightarrow>
     list_ex (\<lambda>want. \<not> tx_closed want \<and> on_path sender room want) (wants_of cid st)"

definition all_wants :: "want_state \<Rightarrow> pending_want list" where
  "all_wants st = concat (map snd (pending st))"

definition prune :: "want_state \<Rightarrow> want_state" where
  "prune st =
     (let st = st\<lparr>query_paths := hm_retain (\<lambda>_ (_, receivers). receivers > 0) (query_paths st)\<rparr>;
          st = st\<lparr>pending := hm_retain (\<lambda>_ wants. wants \<noteq> [])
                 (hm_map (\<lambda>_. filter (\<lambda>want. \<not> tx_closed want)) (pending st))\<rparr>;
          st = st\<lparr>assemblies := hm_retain (\<lambda>(cid, sender, room) _.
                 list_ex (on_path sender room) (wants_of cid st)) (assemblies st)\<rparr>
      in if sender_progress st \<noteq> [] then
           let senders = set (concat (map want_peers (all_wants st))) in
           st\<lparr>sender_progress := hm_retain (\<lambda>sender _. sender \<in> senders) (sender_progress st),
              sender_activity := hm_retain (\<lambda>sender _. sender \<in> senders) (sender_activity st)\<rparr>
         else st)"

definition note_progress :: "instant \<Rightarrow> bool \<Rightarrow> chunk_progress \<Rightarrow> chunk_progress" where
  "note_progress now is_accepted p =
     (if is_accepted then p\<lparr>cp_accepted := wrap64 (cp_accepted p + 1), cp_last_accepted := Some now\<rparr>
      else p\<lparr>cp_received := wrap64 (cp_received p + 1)\<rparr>)"

definition observe :: "instant \<Rightarrow> string \<Rightarrow> node_id \<Rightarrow> string \<Rightarrow> bool \<Rightarrow> want_state \<Rightarrow> want_state" where
  "observe now cid sender room is_accepted st =
     st\<lparr>pending := hm_update cid (map (\<lambda>want.
          if on_path sender room want
          then want\<lparr>want_progress := note_progress now is_accepted (want_progress want)\<rparr> else want)) (pending st)\<rparr>"

definition advance_progress :: "instant \<Rightarrow> node_id \<Rightarrow> want_state \<Rightarrow> want_state" where
  "advance_progress now sender st =
     st\<lparr>sender_activity := hm_insert sender now (sender_activity st),
        any_progress := wrap64 (any_progress st + 1),
        sender_progress := hm_insert sender
          (wrap64 ((case hm_get (sender_progress st) sender of None \<Rightarrow> 0 | Some n \<Rightarrow> n) + 1)) (sender_progress st)\<rparr>"

definition over_limit :: "nat \<Rightarrow> pending_want \<Rightarrow> bool" where
  "over_limit n want \<longleftrightarrow> (case byte_limit want of None \<Rightarrow> False | Some limit \<Rightarrow> n > limit)"

text \<open>The index loop of \<open>enforce_byte_limits\<close>: removes the offending wants and keeps the order of the rest.\<close>

fun enforce_loop :: "node_id \<Rightarrow> string \<Rightarrow> nat \<Rightarrow> pending_want list \<Rightarrow> want_signal list \<times> pending_want list" where
  "enforce_loop sender room n [] = ([], [])"
| "enforce_loop sender room n (want # wants) =
     (let (out, kept) = enforce_loop sender room n wants in
      if on_path sender room want \<and> over_limit n want
      then (Overflow (want_id want) n # out, kept) else (out, want # kept))"

definition enforce_byte_limits ::
  "string \<Rightarrow> node_id \<Rightarrow> string \<Rightarrow> nat \<Rightarrow> want_state \<Rightarrow> want_signal list \<times> want_state" where
  "enforce_byte_limits cid sender room n st =
     (case hm_get (pending st) cid of
        None \<Rightarrow> ([], prune st)
      | Some wants \<Rightarrow>
          let (out, kept) = enforce_loop sender room n wants in
          (out, prune (st\<lparr>pending := hm_update cid (\<lambda>_. kept) (pending st)\<rparr>)))"

definition fulfill_state :: "string \<Rightarrow> node_id \<Rightarrow> string \<Rightarrow> bytes \<Rightarrow> want_state \<Rightarrow> want_signal list \<times> want_state" where
  "fulfill_state cid sender room data st =
     (case hm_get (pending st) cid of
        None \<Rightarrow> ([], st)
      | Some wants \<Rightarrow>
          let st = st\<lparr>pending := hm_remove cid (pending st)\<rparr>;
              (authorized, remaining) = partition (on_path sender room) wants;
              st = (if remaining \<noteq> [] then st\<lparr>pending := hm_insert cid remaining (pending st)\<rparr> else st);
              out = map (\<lambda>want. Deliver (want_id want) data) (filter (\<lambda>want. \<not> tx_closed want) authorized)
          in (out, prune st))"

section \<open>WantRegistry\<close>

record notifier =
  notifier_id :: nat
  notifier_closed :: bool

record want_registry =
  reg_state :: want_state
  reg_counters :: storage_counters
  peer_cache :: "(string, node_id list) hmap"
  peer_notifiers :: "(string, notifier list) hmap"
  room_peer_notifiers :: "(string \<times> string, notifier list) hmap"

definition registry_new :: want_registry where
  "registry_new = \<lparr>reg_state = want_state_default, reg_counters = counters_zero, peer_cache = [],
     peer_notifiers = [], room_peer_notifiers = []\<rparr>"

fun update_first :: "('a \<Rightarrow> bool) \<Rightarrow> ('a \<Rightarrow> 'a) \<Rightarrow> 'a list \<Rightarrow> 'a list" where
  "update_first P f [] = []"
| "update_first P f (x # xs) = (if P x then f x # xs else x # update_first P f xs)"

text \<open>\<open>pending.values_mut().flatten().find(|w| w.id == id)\<close>, updated in place.\<close>

fun update_want :: "nat \<Rightarrow> (pending_want \<Rightarrow> pending_want) \<Rightarrow> (string, pending_want list) hmap \<Rightarrow> (string, pending_want list) hmap" where
  "update_want i f [] = []"
| "update_want i f ((cid, wants) # m) =
     (if list_ex (\<lambda>want. want_id want = i) wants then (cid, update_first (\<lambda>want. want_id want = i) f wants) # m
      else (cid, wants) # update_want i f m)"

definition find_want :: "nat \<Rightarrow> want_state \<Rightarrow> pending_want option" where
  "find_want i st = find (\<lambda>want. want_id want = i) (all_wants st)"

definition want_admitted :: "string \<Rightarrow> node_id list \<Rightarrow> want_state \<Rightarrow> bool" where
  "want_admitted cid peers st \<longleftrightarrow> \<not> (length cid > 255 \<or> peers = [] \<or> length peers > MAX_WANT_PEERS
     \<or> list_ex (\<lambda>peer. length (node_str peer) > 256) peers \<or> length (all_wants st) \<ge> MAX_PENDING_WANTS)"

definition register_attempt_for_peers :: "string \<Rightarrow> node_id list \<Rightarrow> bool \<Rightarrow> want_state \<Rightarrow> nat \<times> want_state" where
  "register_attempt_for_peers cid peers is_local st =
     (let st = prune st;
          st = st\<lparr>next_attempt := wrap64 (next_attempt st + 1)\<rparr>;
          i = next_attempt st
      in if \<not> want_admitted cid peers st then (i, st)
         else
           let want = \<lparr>want_id = i, want_paths = (if is_local then {''''} else {}), want_resets = 0,
                 want_progress = chunk_progress_default, want_peers = remdups_adj (sort peers),
                 tx_closed = False, byte_limit = None\<rparr>
           in (i, st\<lparr>pending := hm_insert cid (wants_of cid st @ [want]) (pending st)\<rparr>))"

definition register_for_peers :: "string \<Rightarrow> node_id list \<Rightarrow> want_state \<Rightarrow> nat \<times> want_state" where
  "register_for_peers cid peers st = register_attempt_for_peers cid peers True st"

definition register_from :: "string \<Rightarrow> node_id \<Rightarrow> want_state \<Rightarrow> nat \<times> want_state" where
  "register_from cid sender st = register_for_peers cid [sender] st"

definition register_local :: "string \<Rightarrow> want_state \<Rightarrow> nat \<times> want_state" where
  "register_local cid st = register_from cid (NodeId '''') st"

definition register_attempt :: "string \<Rightarrow> node_id \<Rightarrow> want_state \<Rightarrow> nat \<times> want_state" where
  "register_attempt cid sender st = register_attempt_for_peers cid [sender] False st"

definition register_bounded_attempt :: "string \<Rightarrow> node_id \<Rightarrow> nat \<Rightarrow> want_state \<Rightarrow> nat \<times> want_state" where
  "register_bounded_attempt cid sender max_bytes st =
     (let (i, st) = register_attempt cid sender st in
      (i, st\<lparr>pending := update_want i (\<lambda>want. want\<lparr>byte_limit := Some (min max_bytes MAX_WANT_BLOCK_BYTES)\<rparr>) (pending st)\<rparr>))"

definition track_path :: "nat \<Rightarrow> string \<Rightarrow> want_state \<Rightarrow> bool \<times> want_state" where
  "track_path attempt room st =
     (case find_want attempt st of
        None \<Rightarrow> (False, st)
      | Some want \<Rightarrow>
          (room \<notin> want_paths want,
           st\<lparr>pending := update_want attempt (\<lambda>want. want\<lparr>want_paths := insert room (want_paths want)\<rparr>) (pending st)\<rparr>))"

definition untrack_path :: "nat \<Rightarrow> string \<Rightarrow> want_state \<Rightarrow> want_state" where
  "untrack_path attempt room st =
     prune (st\<lparr>pending := update_want attempt (\<lambda>want. want\<lparr>want_paths := want_paths want - {room}\<rparr>) (pending st)\<rparr>)"

definition attempt_paths :: "nat \<Rightarrow> want_state \<Rightarrow> string list" where
  "attempt_paths attempt st =
     (case find_want attempt st of None \<Rightarrow> [] | Some want \<Rightarrow> sorted_list_of_set (want_paths want))"

definition sender_last_accepted :: "node_id \<Rightarrow> want_state \<Rightarrow> instant option" where
  "sender_last_accepted sender st = hm_get (sender_activity st) sender"

definition fulfill_data_in ::
  "instant \<Rightarrow> string \<Rightarrow> string \<Rightarrow> node_id \<Rightarrow> bytes \<Rightarrow> want_state \<times> storage_counters
   \<Rightarrow> want_signal list \<times> want_state \<times> storage_counters" where
  "fulfill_data_in now room cid sender data = (\<lambda>(st, counters).
     let st = prune st;
         st = observe now cid sender room False st;
         (overflows, st) = enforce_byte_limits cid sender room (length data) st
     in if length data \<le> MAX_WANT_BLOCK_BYTES \<and> accepts cid sender room st then
          let counters = count_completed (count_accepted (length data) counters);
              st = observe now cid sender room True st;
              st = advance_progress now sender st;
              (delivered, st) = fulfill_state cid sender room data st
          in (overflows @ delivered, st, counters)
        else (overflows, st, count_rejected counters))"

text \<open>The part of \<open>fulfill_chunk_data_in\<close> after every check has passed: store the chunk, and complete.\<close>

definition new_assembly :: "nat \<Rightarrow> chunk_assembly" where
  "new_assembly chunk_total =
     \<lparr>total_chunks = chunk_total, received_chunks = 0, asm_bytes = 0, asm_chunks = replicate chunk_total None\<rparr>"

definition add_chunk :: "nat \<Rightarrow> bytes \<Rightarrow> chunk_assembly \<Rightarrow> chunk_assembly" where
  "add_chunk chunk_index data entry =
     entry\<lparr>asm_bytes := asm_bytes entry + length data,
           asm_chunks := (asm_chunks entry)[chunk_index := Some data],
           received_chunks := received_chunks entry + 1\<rparr>"

definition assembly_of :: "asm_key \<Rightarrow> nat \<Rightarrow> want_state \<Rightarrow> chunk_assembly" where
  "assembly_of key chunk_total st =
     (case hm_get (assemblies st) key of Some entry \<Rightarrow> entry | None \<Rightarrow> new_assembly chunk_total)"

definition store_chunk ::
  "instant \<Rightarrow> string \<Rightarrow> string \<Rightarrow> node_id \<Rightarrow> nat \<Rightarrow> nat \<Rightarrow> bytes \<Rightarrow> want_state \<times> storage_counters
   \<Rightarrow> want_signal list \<times> want_state \<times> storage_counters" where
  "store_chunk now room cid sender chunk_index chunk_total data = (\<lambda>(st, counters).
     let key = (cid, sender, room);
         counters = count_accepted (length data) counters;
         entry = add_chunk chunk_index data (assembly_of key chunk_total st);
         st = st\<lparr>assemblies := hm_insert key entry (assemblies st)\<rparr>;
         st = observe now cid sender room True st;
         st = advance_progress now sender st
     in if received_chunks entry = total_chunks entry then
          let counters = count_completed counters;
              full = concat (map the (asm_chunks entry));
              st = st\<lparr>assemblies := hm_remove key (assemblies st)\<rparr>;
              (delivered, st) = fulfill_state cid sender room full st
          in (delivered, st, counters)
        else ([], st, counters))"

definition assembly_total :: "want_state \<Rightarrow> nat" where
  "assembly_total st = hm_sum asm_bytes (assemblies st)"

definition fulfill_chunk_data_in ::
  "instant \<Rightarrow> string \<Rightarrow> string \<Rightarrow> node_id \<Rightarrow> nat \<Rightarrow> nat \<Rightarrow> bytes \<Rightarrow> want_state \<times> storage_counters
   \<Rightarrow> want_signal list \<times> want_state \<times> storage_counters" where
  "fulfill_chunk_data_in now room cid sender chunk_index chunk_total data = (\<lambda>(st, counters).
     let st = prune st;
         st = observe now cid sender room False st;
         key = (cid, sender, room)
     in if chunk_total = 0 \<or> chunk_total > MAX_WANT_CHUNKS \<or> chunk_index \<ge> chunk_total then
          ([], st, count_rejected counters)
        else if \<not> accepts cid sender room st then ([], st, count_rejected counters)
        else if case hm_get (assemblies st) key of None \<Rightarrow> False | Some entry \<Rightarrow> total_chunks entry \<noteq> chunk_total then
          ([], st, count_rejected counters)
        else if case hm_get (assemblies st) key of None \<Rightarrow> False | Some entry \<Rightarrow> asm_chunks entry ! chunk_index \<noteq> None then
          ([], st, count_duplicate (length data) counters)
        else
          let n = saturating_add64 (case hm_get (assemblies st) key of None \<Rightarrow> 0 | Some entry \<Rightarrow> asm_bytes entry) (length data);
              (overflows, st) = enforce_byte_limits cid sender room n st
          in if \<not> accepts cid sender room st \<or> n > MAX_WANT_BLOCK_BYTES then (overflows, st, count_rejected counters)
             else if \<not> hm_contains (assemblies st) key \<and> length (assemblies st) \<ge> MAX_WANT_ASSEMBLIES then
               (overflows, st, count_rejected counters)
             else if assembly_total st + length data > MAX_WANT_ASSEMBLY_BYTES then
               (overflows, st, count_rejected counters)
             else
               let (delivered, st, counters) =
                     store_chunk now room cid sender chunk_index chunk_total data (st, counters)
               in (overflows @ delivered, st, counters))"

definition fulfill_in ::
  "instant \<Rightarrow> string \<Rightarrow> string \<Rightarrow> node_id \<Rightarrow> bytes \<Rightarrow> want_registry \<Rightarrow> want_signal list \<times> want_registry" where
  "fulfill_in now room cid sender data r =
     (let (out, st, counters) = fulfill_data_in now room cid sender data (reg_state r, reg_counters r) in
      (out, r\<lparr>reg_state := st, reg_counters := counters\<rparr>))"

definition fulfill_chunk_in ::
  "instant \<Rightarrow> string \<Rightarrow> string \<Rightarrow> node_id \<Rightarrow> nat \<Rightarrow> nat \<Rightarrow> bytes \<Rightarrow> want_registry \<Rightarrow> want_signal list \<times> want_registry" where
  "fulfill_chunk_in now room cid sender chunk_index chunk_total data r =
     (let (out, st, counters) =
            fulfill_chunk_data_in now room cid sender chunk_index chunk_total data (reg_state r, reg_counters r) in
      (out, r\<lparr>reg_state := st, reg_counters := counters\<rparr>))"

definition prune_notifiers :: "('k, notifier list) hmap \<Rightarrow> ('k, notifier list) hmap" where
  "prune_notifiers m =
     hm_retain (\<lambda>_ senders. senders \<noteq> []) (hm_map (\<lambda>_. filter (\<lambda>n. \<not> notifier_closed n)) m)"

definition cancel_closed :: "want_registry \<Rightarrow> want_registry" where
  "cancel_closed r = r\<lparr>reg_state := prune (reg_state r), peer_notifiers := prune_notifiers (peer_notifiers r),
     room_peer_notifiers := prune_notifiers (room_peer_notifiers r)\<rparr>"

definition outstanding_senders :: "want_state \<Rightarrow> node_id set \<times> want_state" where
  "outstanding_senders st =
     (let st = prune st in (set (concat (map want_peers (all_wants st))), st))"

text \<open>\<open>None\<close> is the closed receiver of an unreferenced sender.\<close>

definition progress_subscribe :: "node_id \<Rightarrow> want_state \<Rightarrow> nat option \<times> want_state" where
  "progress_subscribe sender st =
     (let st = prune st in
      if \<not> list_ex (\<lambda>want. sender \<in> set (want_peers want)) (all_wants st) then (None, st)
      else case hm_get (sender_progress st) sender of
             Some n \<Rightarrow> (Some n, st)
           | None \<Rightarrow> (Some 0, st\<lparr>sender_progress := hm_insert sender 0 (sender_progress st)\<rparr>))"

definition query_path_resets :: "string \<Rightarrow> node_id \<Rightarrow> want_state \<Rightarrow> nat \<times> want_state" where
  "query_path_resets room peer st =
     (let st = prune st;
          (counter, receivers) = (case hm_get (query_paths st) (room, peer) of None \<Rightarrow> (0, 0) | Some q \<Rightarrow> q)
      in (counter, st\<lparr>query_paths := hm_insert (room, peer) (counter, receivers + 1) (query_paths st)\<rparr>))"

definition reset_path :: "node_id option \<Rightarrow> string \<Rightarrow> want_state \<Rightarrow> want_state" where
  "reset_path sender room st =
     (let hit = (\<lambda>peer. case sender of None \<Rightarrow> True | Some s \<Rightarrow> s = peer);
          st = prune st;
          st = st\<lparr>query_paths := hm_map (\<lambda>(path, peer) (counter, receivers).
                 (if path = room \<and> hit peer then wrap64 (counter + 1) else counter, receivers)) (query_paths st)\<rparr>;
          st = st\<lparr>assemblies := hm_retain (\<lambda>(_, source, path) _.
                 path \<noteq> room \<or> (case sender of None \<Rightarrow> False | Some s \<Rightarrow> source \<noteq> s)) (assemblies st)\<rparr>
      in st\<lparr>pending := hm_map (\<lambda>_. map (\<lambda>want.
              if (case sender of None \<Rightarrow> True | Some s \<Rightarrow> s \<in> set (want_peers want)) \<and> room \<in> want_paths want
              then want\<lparr>want_resets := wrap64 (want_resets want + 1)\<rparr> else want)) (pending st)\<rparr>)"

definition sender_reset :: "node_id \<Rightarrow> string \<Rightarrow> want_state \<Rightarrow> want_state" where
  "sender_reset sender room st = reset_path (Some sender) room st"

definition room_reset :: "string \<Rightarrow> want_state \<Rightarrow> want_state" where
  "room_reset room st = reset_path None room st"

definition cancel_state :: "string \<Rightarrow> want_state \<Rightarrow> want_state" where
  "cancel_state cid st =
     prune (st\<lparr>pending := hm_remove cid (pending st),
               assemblies := hm_retain (\<lambda>(key, _, _) _. key \<noteq> cid) (assemblies st)\<rparr>)"

definition cancel :: "string \<Rightarrow> want_registry \<Rightarrow> want_registry" where
  "cancel cid r = r\<lparr>reg_state := cancel_state cid (reg_state r), peer_notifiers := hm_remove cid (peer_notifiers r),
     room_peer_notifiers := hm_retain (\<lambda>(_, key) _. key \<noteq> cid) (room_peer_notifiers r)\<rparr>"

text \<open>A notifier is named by the number of its channel, which the caller chooses.\<close>

definition register_peer_notifier :: "nat \<Rightarrow> string \<Rightarrow> want_registry \<Rightarrow> want_registry" where
  "register_peer_notifier nid cid r =
     (let r = cancel_closed r;
          senders = (case hm_get (peer_notifiers r) cid of None \<Rightarrow> [] | Some l \<Rightarrow> l)
      in r\<lparr>peer_notifiers := hm_insert cid (senders @ [\<lparr>notifier_id = nid, notifier_closed = False\<rparr>]) (peer_notifiers r)\<rparr>)"

definition register_peer_notifier_in :: "nat \<Rightarrow> string \<Rightarrow> string \<Rightarrow> want_registry \<Rightarrow> want_registry" where
  "register_peer_notifier_in nid room cid r =
     (let r = cancel_closed r;
          senders = (case hm_get (room_peer_notifiers r) (room, cid) of None \<Rightarrow> [] | Some l \<Rightarrow> l)
      in if hm_sum length (room_peer_notifiers r) < MAX_PENDING_WANTS then
           r\<lparr>room_peer_notifiers :=
             hm_insert (room, cid) (senders @ [\<lparr>notifier_id = nid, notifier_closed = False\<rparr>]) (room_peer_notifiers r)\<rparr>
         else r)"

text \<open>The notified channels are returned.\<close>

definition register_peer :: "string \<Rightarrow> node_id \<Rightarrow> want_registry \<Rightarrow> nat list \<times> want_registry" where
  "register_peer cid peer r =
     (let counters = (reg_counters r)\<lparr>have_status_received := wrap64 (have_status_received (reg_counters r) + 1)\<rparr>;
          peers = (case hm_get (peer_cache r) cid of None \<Rightarrow> [] | Some l \<Rightarrow> l);
          r = r\<lparr>reg_counters := counters,
                peer_cache := hm_insert cid (if peer \<notin> set peers then peers @ [peer] else peers) (peer_cache r)\<rparr>
      in case hm_get (peer_notifiers r) cid of
           None \<Rightarrow> ([], r)
         | Some senders \<Rightarrow> (map notifier_id senders, r\<lparr>peer_notifiers := hm_remove cid (peer_notifiers r)\<rparr>))"

definition register_peer_in ::
  "string \<Rightarrow> string \<Rightarrow> node_id \<Rightarrow> want_registry \<Rightarrow> (nat \<times> node_id) list \<times> nat list \<times> want_registry" where
  "register_peer_in room cid peer r =
     (case hm_get (room_peer_notifiers r) (room, cid) of
        None \<Rightarrow> ([], register_peer cid peer r)
      | Some senders \<Rightarrow>
          (map (\<lambda>n. (notifier_id n, peer)) senders,
           register_peer cid peer (r\<lparr>room_peer_notifiers := hm_remove (room, cid) (room_peer_notifiers r)\<rparr>)))"

definition get_peers :: "string \<Rightarrow> want_registry \<Rightarrow> node_id list" where
  "get_peers cid r = (case hm_get (peer_cache r) cid of None \<Rightarrow> [] | Some l \<Rightarrow> l)"

text \<open>The caller drops the receiver of an attempt: from now on its sender reports \<open>is_closed\<close>.\<close>

definition drop_receiver :: "nat \<Rightarrow> want_state \<Rightarrow> want_state" where
  "drop_receiver attempt st =
     st\<lparr>pending := hm_map (\<lambda>_. map (\<lambda>want.
          if want_id want = attempt then want\<lparr>tx_closed := True\<rparr> else want)) (pending st)\<rparr>"

section \<open>Invariant\<close>

definition asm_ok :: "chunk_assembly \<Rightarrow> bool" where
  "asm_ok a \<longleftrightarrow> total_chunks a \<le> MAX_WANT_CHUNKS \<and> length (asm_chunks a) = total_chunks a
     \<and> received_chunks a = length (filter (\<lambda>c. c \<noteq> None) (asm_chunks a)) \<and> received_chunks a < total_chunks a
     \<and> asm_bytes a = sum_list (map (length \<circ> the) (filter (\<lambda>c. c \<noteq> None) (asm_chunks a)))
     \<and> asm_bytes a \<le> MAX_WANT_BLOCK_BYTES"

definition asms_ok :: "(asm_key, chunk_assembly) hmap \<Rightarrow> bool" where
  "asms_ok m \<longleftrightarrow> hm_ok m \<and> (\<forall>a \<in> snd ` set m. asm_ok a) \<and> length m \<le> MAX_WANT_ASSEMBLIES
     \<and> hm_sum asm_bytes m \<le> MAX_WANT_ASSEMBLY_BYTES"

definition wants_ok :: "(string, pending_want list) hmap \<Rightarrow> bool" where
  "wants_ok m \<longleftrightarrow> hm_ok m \<and> hm_sum length m \<le> MAX_PENDING_WANTS"

definition ws_ok :: "want_state \<Rightarrow> bool" where
  "ws_ok st \<longleftrightarrow> wants_ok (pending st) \<and> asms_ok (assemblies st)"

lemma asms_ok_retain: "asms_ok m \<Longrightarrow> asms_ok (hm_retain P m)"
  using hm_sum_retain_le [of asm_bytes P m] hm_length_retain [of P m]
  by (auto simp: asms_ok_def hm_set_retain)

lemma asms_ok_remove: "asms_ok m \<Longrightarrow> asms_ok (hm_remove k m)"
  using hm_sum_remove_le [of asm_bytes k m] hm_length_remove [of k m]
  by (auto simp: asms_ok_def hm_set_remove)

lemma asms_ok_get: "asms_ok m \<Longrightarrow> hm_get m k = Some a \<Longrightarrow> asm_ok a"
  by (force simp: asms_ok_def dest: hm_get_in)

lemma wants_ok_retain: "wants_ok m \<Longrightarrow> wants_ok (hm_retain P m)"
  using hm_sum_retain_le [of length P m] by (simp add: wants_ok_def)

lemma wants_ok_remove: "wants_ok m \<Longrightarrow> wants_ok (hm_remove k m)"
  using hm_sum_remove_le [of length k m] by (simp add: wants_ok_def)

lemma wants_ok_map: "wants_ok m \<Longrightarrow> (\<And>k v. length (f k v) \<le> length v) \<Longrightarrow> wants_ok (hm_map f m)"
  using hm_sum_map_le [of m length f] by (simp add: wants_ok_def)

lemma all_wants_length: "length (all_wants st) = hm_sum length (pending st)"
  by (simp add: all_wants_def hm_sum_def length_concat)

text \<open>How each step acts on the two maps the invariant speaks about.\<close>

lemma prune_pending:
  "pending (prune st) = hm_retain (\<lambda>_ wants. wants \<noteq> []) (hm_map (\<lambda>_. filter (\<lambda>want. \<not> tx_closed want)) (pending st))"
  by (simp add: prune_def Let_def)

lemma prune_assemblies:
  "assemblies (prune st) =
     hm_retain (\<lambda>(cid, sender, room) _. list_ex (on_path sender room) (wants_of cid (prune st))) (assemblies st)"
proof -
  have "wants_of cid (prune st) = (case hm_get (hm_retain (\<lambda>_ wants. wants \<noteq> [])
      (hm_map (\<lambda>_. filter (\<lambda>want. \<not> tx_closed want)) (pending st))) cid of None \<Rightarrow> [] | Some w \<Rightarrow> w)" for cid
    by (simp add: wants_of_def prune_pending)
  then show ?thesis by (simp add: prune_def Let_def wants_of_def)
qed

lemma prune_wants_of: "hm_ok (pending st) \<Longrightarrow> wants_of cid (prune st) = filter (\<lambda>want. \<not> tx_closed want) (wants_of cid st)"
  by (auto simp: wants_of_def prune_pending hm_get_retain split: option.splits)

lemma prune_ok [simp]: "ws_ok st \<Longrightarrow> ws_ok (prune st)"
  unfolding ws_ok_def prune_assemblies prune_pending
  by (auto intro!: asms_ok_retain wants_ok_retain wants_ok_map)

lemma observe_fields [simp]:
  "assemblies (observe now cid sender room b st) = assemblies st"
  "query_paths (observe now cid sender room b st) = query_paths st"
  by (simp_all add: observe_def)

lemma observe_ok [simp]: "ws_ok st \<Longrightarrow> ws_ok (observe now cid sender room b st)"
  by (auto simp: ws_ok_def observe_def hm_update_as_map intro!: wants_ok_map)

lemma advance_progress_fields [simp]:
  "assemblies (advance_progress now sender st) = assemblies st"
  "pending (advance_progress now sender st) = pending st"
  by (simp_all add: advance_progress_def)

lemma advance_progress_ok [simp]: "ws_ok st \<Longrightarrow> ws_ok (advance_progress now sender st)"
  by (simp add: ws_ok_def)

lemma enforce_loop_filter:
  "snd (enforce_loop sender room n wants) = filter (\<lambda>want. \<not> (on_path sender room want \<and> over_limit n want)) wants
   \<and> fst (enforce_loop sender room n wants) =
       map (\<lambda>want. Overflow (want_id want) n) (filter (\<lambda>want. on_path sender room want \<and> over_limit n want) wants)"
  by (induction wants) (auto simp: Let_def case_prod_beta)

lemma hm_update_const:
  "hm_ok m \<Longrightarrow> hm_get m k = Some v \<Longrightarrow> hm_update k (\<lambda>_. f v) m = hm_update k f m"
  using hm_in_get [of m k] by (fastforce simp: hm_update_def)

definition keep_within :: "node_id \<Rightarrow> string \<Rightarrow> nat \<Rightarrow> pending_want \<Rightarrow> bool" where
  "keep_within sender room n want \<longleftrightarrow> \<not> (on_path sender room want \<and> over_limit n want)"

lemma enforce_state:
  "hm_ok (pending st) \<Longrightarrow> snd (enforce_byte_limits cid sender room n st) =
     prune (st\<lparr>pending := hm_update cid (filter (keep_within sender room n)) (pending st)\<rparr>)"
  using hm_update_const [of "pending st" cid _ "filter (keep_within sender room n)"]
  by (auto simp: enforce_byte_limits_def hm_update_absent case_prod_beta enforce_loop_filter
      keep_within_def [abs_def] split: option.splits)

lemma enforce_ok [simp]: "ws_ok st \<Longrightarrow> ws_ok (snd (enforce_byte_limits cid sender room n st))"
proof -
  assume ok: "ws_ok st"
  then have "hm_ok (pending st)" by (simp add: ws_ok_def wants_ok_def)
  moreover have "ws_ok (st\<lparr>pending := hm_update cid (filter (keep_within sender room n)) (pending st)\<rparr>)"
    using ok by (auto simp: ws_ok_def hm_update_as_map intro!: wants_ok_map)
  ultimately show ?thesis by (simp add: enforce_state prune_ok)
qed

lemma fulfill_ok [simp]:
  assumes "ws_ok st"
  shows "ws_ok (snd (fulfill_state cid sender room data st))"
proof (cases "hm_get (pending st) cid")
  case None
  with assms show ?thesis by (simp add: fulfill_state_def)
next
  case (Some wants)
  let ?rest = "filter (\<lambda>want. \<not> on_path sender room want) wants"
  let ?m = "hm_remove cid (pending st)"
  have "wants_ok (hm_insert cid ?rest ?m)"
  proof -
    have ok: "hm_ok (pending st)" "hm_sum length (pending st) \<le> MAX_PENDING_WANTS"
      using assms by (simp_all add: ws_ok_def wants_ok_def)
    have "hm_remove cid ?m = ?m" by (rule hm_remove_absent) simp
    then have "hm_sum length (hm_insert cid ?rest ?m) = hm_sum length ?m + length ?rest"
      using ok(1) by (simp add: hm_sum_insert)
    also have "\<dots> \<le> hm_sum length ?m + length wants" by simp
    also have "\<dots> = hm_sum length (pending st)" using hm_sum_remove [OF ok(1) Some] by simp
    finally show ?thesis using ok by (simp add: wants_ok_def)
  qed
  then have "ws_ok (st\<lparr>pending := hm_insert cid ?rest ?m\<rparr>)" "ws_ok (st\<lparr>pending := ?m\<rparr>)"
    using assms by (simp_all add: ws_ok_def wants_ok_remove)
  with Some show ?thesis
    by (simp add: fulfill_state_def Let_def comp_def)
qed

lemma fulfill_data_ok: "ws_ok st \<Longrightarrow> ws_ok (fst (snd (fulfill_data_in now room cid sender data (st, c))))"
  by (auto simp: fulfill_data_in_def Let_def case_prod_beta)

section \<open>Assembling chunks\<close>

lemma filled_update:
  "i < length xs \<Longrightarrow> xs ! i = None \<Longrightarrow>
     length (filter (\<lambda>c. c \<noteq> None) (xs[i := Some d])) = Suc (length (filter (\<lambda>c. c \<noteq> None) xs))
     \<and> sum_list (map (length \<circ> the) (filter (\<lambda>c. c \<noteq> None) (xs[i := Some d])))
         = sum_list (map (length \<circ> the) (filter (\<lambda>c. c \<noteq> None) xs)) + length d"
  by (induction xs arbitrary: i) (auto split: nat.splits)

lemma new_assembly_ok: "0 < n \<Longrightarrow> n \<le> MAX_WANT_CHUNKS \<Longrightarrow> asm_ok (new_assembly n)"
  by (simp add: asm_ok_def new_assembly_def)

lemma add_chunk_ok:
  assumes "asm_ok a" and "i < total_chunks a" and "asm_chunks a ! i = None"
    and "asm_bytes a + length d \<le> MAX_WANT_BLOCK_BYTES" and "received_chunks (add_chunk i d a) \<noteq> total_chunks (add_chunk i d a)"
  shows "asm_ok (add_chunk i d a)"
  using assms filled_update [of i "asm_chunks a" d] by (auto simp: asm_ok_def add_chunk_def)

text \<open>What the checks of \<open>fulfill_chunk_data_in\<close> establish before a chunk is stored.\<close>

definition chunk_fits :: "asm_key \<Rightarrow> nat \<Rightarrow> nat \<Rightarrow> bytes \<Rightarrow> want_state \<Rightarrow> bool" where
  "chunk_fits key i n data st \<longleftrightarrow>
     i < n \<and> n \<le> MAX_WANT_CHUNKS \<and> total_chunks (assembly_of key n st) = n
     \<and> asm_chunks (assembly_of key n st) ! i = None
     \<and> asm_bytes (assembly_of key n st) + length data \<le> MAX_WANT_BLOCK_BYTES
     \<and> (hm_contains (assemblies st) key \<or> length (assemblies st) < MAX_WANT_ASSEMBLIES)
     \<and> assembly_total st + length data \<le> MAX_WANT_ASSEMBLY_BYTES"

lemma assembly_of_ok: "ws_ok st \<Longrightarrow> 0 < n \<Longrightarrow> n \<le> MAX_WANT_CHUNKS \<Longrightarrow> asm_ok (assembly_of key n st)"
  by (auto simp: assembly_of_def ws_ok_def new_assembly_ok asms_ok_get split: option.splits)

lemma sum_add_chunk:
  assumes "hm_ok (assemblies st)"
  shows "hm_sum asm_bytes (hm_insert key (add_chunk i data (assembly_of key n st)) (assemblies st))
    = hm_sum asm_bytes (assemblies st) + length data"
  using hm_sum_remove [OF assms, of key] hm_remove_absent [of "assemblies st" key] assms
  by (cases "hm_get (assemblies st) key") (simp_all add: hm_sum_insert add_chunk_def assembly_of_def new_assembly_def)

lemma insert_assembly_ok:
  assumes "ws_ok st" and "chunk_fits key i n data st"
    and "received_chunks (add_chunk i data (assembly_of key n st)) \<noteq> total_chunks (add_chunk i data (assembly_of key n st))"
  shows "asms_ok (hm_insert key (add_chunk i data (assembly_of key n st)) (assemblies st))"
proof -
  let ?a = "assembly_of key n st" and ?m = "assemblies st"
  have m: "asms_ok ?m" "hm_ok ?m" using assms(1) by (simp_all add: ws_ok_def asms_ok_def)
  have "asm_ok (add_chunk i data ?a)"
    using assms by (intro add_chunk_ok assembly_of_ok) (auto simp: chunk_fits_def)
  moreover have "length (hm_insert key (add_chunk i data ?a) ?m) \<le> MAX_WANT_ASSEMBLIES"
    using assms(2) m(1) by (auto simp: chunk_fits_def asms_ok_def hm_length_insert)
  moreover have "hm_sum asm_bytes (hm_insert key (add_chunk i data ?a) ?m) = hm_sum asm_bytes ?m + length data"
    using m(2) by (rule sum_add_chunk)
  ultimately show ?thesis
    using m assms(2) by (auto simp: asms_ok_def hm_set_insert chunk_fits_def assembly_total_def)
qed

lemma store_chunk_ok:
  assumes "ws_ok st" and "chunk_fits (cid, sender, room) i n data st"
  shows "ws_ok (fst (snd (store_chunk now room cid sender i n data (st, c))))"
proof -
  let ?key = "(cid, sender, room)"
  let ?e = "add_chunk i data (assembly_of ?key n st)"
  show ?thesis
  proof (cases "received_chunks ?e = total_chunks ?e")
    case True
    define st' where "st' = (advance_progress now sender (observe now cid sender room True
        (st\<lparr>assemblies := hm_insert ?key ?e (assemblies st)\<rparr>)))\<lparr>assemblies := hm_remove ?key (hm_insert ?key ?e (assemblies st))\<rparr>"
    have "ws_ok (observe now cid sender room True (st\<lparr>assemblies := hm_remove ?key (assemblies st)\<rparr>))"
      using assms(1) by (intro observe_ok) (simp add: ws_ok_def asms_ok_remove)
    then have "ws_ok st'"
      by (simp add: st'_def ws_ok_def observe_def)
    then show ?thesis
      using True fulfill_ok [of st'] by (simp add: store_chunk_def Let_def case_prod_beta st'_def)
  next
    case False
    then have "ws_ok (st\<lparr>assemblies := hm_insert ?key ?e (assemblies st)\<rparr>)"
      using assms insert_assembly_ok [of st ?key i n data] by (simp add: ws_ok_def)
    with False show ?thesis by (simp add: store_chunk_def Let_def)
  qed
qed

lemma saturating_within: "saturating_add64 a b \<le> MAX_WANT_BLOCK_BYTES \<Longrightarrow> saturating_add64 a b = a + b"
  by (auto simp: saturating_add64_def MAX_WANT_BLOCK_BYTES_def u64_max_def min_def split: if_splits)

lemma enforce_assembly_subset:
  assumes "ws_ok st" and "hm_get (assemblies (snd (enforce_byte_limits cid sender room n st))) key = Some e"
  shows "hm_get (assemblies st) key = Some e"
proof -
  have ok: "hm_ok (pending st)" "hm_ok (assemblies st)"
    using assms(1) by (simp_all add: ws_ok_def wants_ok_def asms_ok_def)
  show ?thesis
    using assms(2) unfolding enforce_state [OF ok(1)] prune_assemblies
    by (simp add: hm_get_retain ok split: option.splits if_splits)
qed

text \<open>The three outcomes of a chunk arrival, with the states the checks were made on.\<close>

lemma chunk_arrival_cases:
  fixes st :: want_state and now :: instant and cid room :: string and sender :: node_id
    and data :: bytes and i tot :: nat and c :: storage_counters
  assumes "ws_ok st"
  defines "st1 \<equiv> observe now cid sender room False (prune st)"
  defines "n \<equiv> saturating_add64 (case hm_get (assemblies st1) (cid, sender, room) of None \<Rightarrow> 0 | Some e \<Rightarrow> asm_bytes e) (length data)"
  defines "st2 \<equiv> snd (enforce_byte_limits cid sender room n st1)"
  defines "ov \<equiv> fst (enforce_byte_limits cid sender room n st1)"
  obtains
      (rejected) d where "fulfill_chunk_data_in now room cid sender i tot data (st, c) = ([], st1, d)"
        "blocks_completed d = blocks_completed c"
    | (limited) "fulfill_chunk_data_in now room cid sender i tot data (st, c) = (ov, st2, count_rejected c)"
    | (stored) "chunk_fits (cid, sender, room) i tot data st2" "accepts cid sender room st2"
        "fulfill_chunk_data_in now room cid sender i tot data (st, c) =
           (ov @ fst (store_chunk now room cid sender i tot data (st2, c)),
            snd (store_chunk now room cid sender i tot data (st2, c)))"
proof -
  let ?key = "(cid, sender, room)"
  let ?r = "fulfill_chunk_data_in now room cid sender i tot data (st, c)"
  let ?bad = "tot = 0 \<or> tot > MAX_WANT_CHUNKS \<or> i \<ge> tot \<or> \<not> accepts cid sender room st1"
  let ?contra = "case hm_get (assemblies st1) ?key of None \<Rightarrow> False | Some e \<Rightarrow> total_chunks e \<noteq> tot"
  let ?dup = "case hm_get (assemblies st1) ?key of None \<Rightarrow> False | Some e \<Rightarrow> asm_chunks e ! i \<noteq> None"
  let ?full = "\<not> accepts cid sender room st2 \<or> n > MAX_WANT_BLOCK_BYTES
    \<or> (\<not> hm_contains (assemblies st2) ?key \<and> length (assemblies st2) \<ge> MAX_WANT_ASSEMBLIES)
    \<or> assembly_total st2 + length data > MAX_WANT_ASSEMBLY_BYTES"
  have ok1: "ws_ok st1" using assms(1) by (simp add: st1_def)
  have r: "?r = (if ?bad \<or> ?contra then ([], st1, count_rejected c)
      else if ?dup then ([], st1, count_duplicate (length data) c)
      else if ?full then (ov, st2, count_rejected c)
      else (ov @ fst (store_chunk now room cid sender i tot data (st2, c)),
            snd (store_chunk now room cid sender i tot data (st2, c))))"
    by (simp add: fulfill_chunk_data_in_def Let_def case_prod_beta st1_def n_def st2_def ov_def)
  consider "?bad \<or> ?contra \<or> ?dup" | "\<not> (?bad \<or> ?contra \<or> ?dup)" "?full" | "\<not> (?bad \<or> ?contra \<or> ?dup)" "\<not> ?full"
    by blast
  then show thesis
  proof cases
    case 1
    then show ?thesis
      using rejected [of "if ?bad \<or> ?contra then count_rejected c else count_duplicate (length data) c"] r
      by (simp add: count_rejected_def count_duplicate_def split: if_splits)
  next
    case 2
    then show ?thesis using limited r by simp
  next
    case 3
    have sub: "hm_get (assemblies st2) ?key = Some e \<Longrightarrow> hm_get (assemblies st1) ?key = Some e" for e
      using ok1 unfolding st2_def by (rule enforce_assembly_subset)
    have n: "n = (case hm_get (assemblies st1) ?key of None \<Rightarrow> 0 | Some e \<Rightarrow> asm_bytes e) + length data"
      using 3 saturating_within unfolding n_def by (simp add: not_less)
    have "chunk_fits ?key i tot data st2"
      using 3 sub n
      by (cases "hm_get (assemblies st2) ?key")
        (auto simp: chunk_fits_def assembly_of_def new_assembly_def not_le not_less split: option.splits)
    moreover have "?r = (ov @ fst (store_chunk now room cid sender i tot data (st2, c)),
        snd (store_chunk now room cid sender i tot data (st2, c)))"
      unfolding r using 3 by - ((subst if_not_P, blast)+, rule refl)
    ultimately show ?thesis using 3 stored by blast
  qed
qed

lemma fulfill_chunk_ok:
  assumes "ws_ok st"
  shows "ws_ok (fst (snd (fulfill_chunk_data_in now room cid sender i n data (st, c))))"
  using assms
  by (cases rule: chunk_arrival_cases [OF assms, where now = now and cid = cid and sender = sender and room = room and data = data and i = i and tot = n and c = c])
    (auto simp: store_chunk_ok)

section \<open>Who listens on a path\<close>

text \<open>
  The open requests that a sender in a room may complete, as numbers and byte limits. Every
  step of an arrival is characterised by what it does to this list.
\<close>

definition listeners :: "string \<Rightarrow> node_id \<Rightarrow> string \<Rightarrow> want_state \<Rightarrow> (nat \<times> nat option) list" where
  "listeners cid sender room st =
     map (\<lambda>want. (want_id want, byte_limit want))
       (filter (\<lambda>want. \<not> tx_closed want \<and> on_path sender room want) (wants_of cid st))"

definition within :: "nat \<Rightarrow> nat \<times> nat option \<Rightarrow> bool" where
  "within n l \<longleftrightarrow> (case snd l of None \<Rightarrow> True | Some limit \<Rightarrow> n \<le> limit)"

definition deliveries :: "bytes \<Rightarrow> (nat \<times> nat option) list \<Rightarrow> want_signal list" where
  "deliveries data ls = map (\<lambda>l. Deliver (fst l) data) ls"

definition overflows :: "nat \<Rightarrow> (nat \<times> nat option) list \<Rightarrow> want_signal list" where
  "overflows n ls = map (\<lambda>l. Overflow (fst l) n) (filter (\<lambda>l. \<not> within n l) ls)"

lemma within_over_limit: "within n (want_id want, byte_limit want) \<longleftrightarrow> \<not> over_limit n want"
  by (auto simp: within_def over_limit_def split: option.splits)

lemma accepts_listeners: "accepts cid sender room st \<longleftrightarrow> listeners cid sender room st \<noteq> []"
  by (auto simp: accepts_def listeners_def list_ex_iff filter_empty_conv)

lemma listeners_cong: "pending st = pending st' \<Longrightarrow> listeners cid sender room st = listeners cid sender room st'"
  by (simp add: listeners_def wants_of_def)

lemma listeners_assemblies [simp]:
  "listeners cid sender room (st\<lparr>assemblies := m\<rparr>) = listeners cid sender room st"
  by (rule listeners_cong) simp

lemma listeners_advance [simp]:
  "listeners cid sender room (advance_progress now s st) = listeners cid sender room st"
  by (rule listeners_cong) simp

lemma listeners_prune: "hm_ok (pending st) \<Longrightarrow> listeners cid sender room (prune st) = listeners cid sender room st"
  by (simp add: listeners_def prune_wants_of filter_filter conj_commute)

lemma map_filter_transform:
  "(\<And>x. P (f x) = P x) \<Longrightarrow> (\<And>x. g (f x) = g x) \<Longrightarrow> map g (filter P (map f xs)) = map g (filter P xs)"
  by (induction xs) auto

lemma observe_wants_of:
  "wants_of cid' (observe now cid sender room b st) =
     (if cid' = cid then map (\<lambda>want. if on_path sender room want
          then want\<lparr>want_progress := note_progress now b (want_progress want)\<rparr> else want) (wants_of cid' st)
      else wants_of cid' st)"
  by (auto simp: wants_of_def observe_def split: option.splits)

lemma listeners_observe [simp]:
  "listeners cid' s r (observe now cid sender room b st) = listeners cid' s r st"
proof -
  have "on_path s' r' (want\<lparr>want_progress := p\<rparr>) = on_path s' r' want" for s' r' want p
    by (simp add: on_path_def)
  then show ?thesis
    by (simp add: listeners_def observe_wants_of) (rule impI, rule map_filter_transform, simp_all)
qed

lemma enforce_wants_of:
  "hm_ok (pending st) \<Longrightarrow> wants_of cid' (snd (enforce_byte_limits cid sender room n st)) =
     filter (\<lambda>want. \<not> tx_closed want) (if cid' = cid then filter (keep_within sender room n) (wants_of cid' st) else wants_of cid' st)"
  by (auto simp: enforce_state prune_wants_of) (auto simp: wants_of_def split: option.splits)

lemma listeners_enforce:
  assumes "hm_ok (pending st)"
  shows "listeners cid sender room (snd (enforce_byte_limits cid sender room n st)) =
     filter (within n) (listeners cid sender room st)"
proof -
  have *: "map g (filter P (filter Q (filter R xs))) = filter S (map g (filter P xs))"
    if "\<And>x. P x \<Longrightarrow> S (g x) \<longleftrightarrow> Q x \<and> R x" for g :: "pending_want \<Rightarrow> nat \<times> nat option" and P Q R S xs
    using that by (induction xs) auto
  show ?thesis
    unfolding listeners_def enforce_wants_of [OF assms] if_P [OF refl]
    by (rule *) (simp add: within_over_limit keep_within_def)
qed

lemma overflows_wants:
  "\<forall>want \<in> set wants. \<not> tx_closed want \<Longrightarrow>
   map (\<lambda>want. Overflow (want_id want) n) (filter (\<lambda>want. on_path sender room want \<and> over_limit n want) wants) =
   overflows n (map (\<lambda>want. (want_id want, byte_limit want)) (filter (\<lambda>want. \<not> tx_closed want \<and> on_path sender room want) wants))"
  by (induction wants) (auto simp: overflows_def within_over_limit)

lemma enforce_signals:
  assumes "\<forall>want \<in> set (wants_of cid st). \<not> tx_closed want"
  shows "fst (enforce_byte_limits cid sender room n st) = overflows n (listeners cid sender room st)"
proof -
  have "fst (enforce_byte_limits cid sender room n st) = fst (enforce_loop sender room n (wants_of cid st))"
    by (simp add: enforce_byte_limits_def wants_of_def case_prod_beta split: option.splits)
  also have "\<dots> = map (\<lambda>want. Overflow (want_id want) n)
      (filter (\<lambda>want. on_path sender room want \<and> over_limit n want) (wants_of cid st))"
    by (simp add: enforce_loop_filter)
  also have "\<dots> = overflows n (listeners cid sender room st)"
    unfolding listeners_def by (rule overflows_wants [OF assms])
  finally show ?thesis .
qed

lemma fulfill_signals: "fst (fulfill_state cid sender room data st) = deliveries data (listeners cid sender room st)"
  by (auto simp: fulfill_state_def listeners_def wants_of_def deliveries_def Let_def case_prod_beta comp_def
      filter_filter conj_commute split: option.splits)

lemma observe_prune_open:
  "hm_ok (pending st) \<Longrightarrow> \<forall>want \<in> set (wants_of cid (observe now cid sender room b (prune st))). \<not> tx_closed want"
  by (auto simp: observe_wants_of prune_wants_of)

section \<open>Chunks in any order\<close>

definition filled :: "bytes list \<Rightarrow> nat set \<Rightarrow> bytes option list" where
  "filled parts S = map (\<lambda>i. if i \<in> S then Some (parts ! i) else None) [0..<length parts]"

lemma length_filled [simp]: "length (filled parts S) = length parts"
  by (simp add: filled_def)

lemma filled_nth [simp]: "i < length parts \<Longrightarrow> filled parts S ! i = (if i \<in> S then Some (parts ! i) else None)"
  by (simp add: filled_def)

lemma filled_update_insert: "i < length parts \<Longrightarrow> (filled parts S)[i := Some (parts ! i)] = filled parts (insert i S)"
  by (rule nth_equalityI) (auto simp: nth_list_update)

lemma filled_all: "{..<length parts} \<subseteq> S \<Longrightarrow> map the (filled parts S) = parts"
  by (rule nth_equalityI) auto

lemma filled_count: "S \<subseteq> {..<length parts} \<Longrightarrow>
    length (filter (\<lambda>c. c \<noteq> None) (filled parts S)) = card S"
proof -
  assume S: "S \<subseteq> {..<length parts}"
  have "{i. i < length (filled parts S) \<and> filled parts S ! i \<noteq> None} = S"
    using S by (auto split: if_splits)
  then show ?thesis by (simp add: length_filter_conv_card)
qed

lemma filled_bytes: "S \<subseteq> {..<length parts} \<Longrightarrow>
    sum_list (map (length \<circ> the) (filter (\<lambda>c. c \<noteq> None) (filled parts S))) = (\<Sum>i\<in>S. length (parts ! i))"
proof -
  assume S: "S \<subseteq> {..<length parts}"
  have "sum_list (map (length \<circ> the) (filter (\<lambda>c. c \<noteq> None) (map (\<lambda>i. if i \<in> S then Some (parts ! i) else None) xs)))
      = sum_list (map (\<lambda>i. length (parts ! i)) (filter (\<lambda>i. i \<in> S) xs))" for xs
    by (induction xs) auto
  then have "sum_list (map (length \<circ> the) (filter (\<lambda>c. c \<noteq> None) (filled parts S)))
      = sum_list (map (\<lambda>i. length (parts ! i)) (filter (\<lambda>i. i \<in> S) [0..<length parts]))"
    by (simp add: filled_def)
  also have "\<dots> = (\<Sum>i\<in>set (filter (\<lambda>i. i \<in> S) [0..<length parts]). length (parts ! i))"
    by (rule sum_list_distinct_conv_sum_set) simp
  also have "set (filter (\<lambda>i. i \<in> S) [0..<length parts]) = S" using S by auto
  finally show ?thesis .
qed

lemma length_concat_parts: "length (concat parts) = (\<Sum>i<length parts. length (parts ! i))"
  by (simp add: length_concat sum_list_sum_nth atLeast0LessThan)

text \<open>An assembly that holds exactly the chunks \<open>S\<close>, on a path with listeners, with room for the others.\<close>

definition assembling :: "asm_key \<Rightarrow> bytes list \<Rightarrow> (nat \<times> nat option) list \<Rightarrow> nat set \<Rightarrow> want_state \<Rightarrow> bool" where
  "assembling key parts ls S st \<longleftrightarrow>
     (case key of (cid, sender, room) \<Rightarrow> listeners cid sender room st = ls) \<and> ls \<noteq> []
     \<and> ws_ok st \<and> S \<subset> {..<length parts}
     \<and> total_chunks (assembly_of key (length parts) st) = length parts
     \<and> asm_chunks (assembly_of key (length parts) st) = filled parts S
     \<and> (hm_contains (assemblies st) key \<or> length (assemblies st) < MAX_WANT_ASSEMBLIES)
     \<and> assembly_total st + (\<Sum>i\<in>{..<length parts} - S. length (parts ! i)) \<le> MAX_WANT_ASSEMBLY_BYTES"

lemma assembling_counts:
  assumes "assembling key parts ls S st" and "length parts \<le> MAX_WANT_CHUNKS"
  shows "received_chunks (assembly_of key (length parts) st) = card S
    \<and> asm_bytes (assembly_of key (length parts) st) = (\<Sum>i\<in>S. length (parts ! i))"
proof -
  have "0 < length parts" using assms(1) by (auto simp: assembling_def)
  then have "asm_ok (assembly_of key (length parts) st)"
    using assms by (intro assembly_of_ok) (auto simp: assembling_def)
  moreover have "S \<subseteq> {..<length parts}" using assms(1) by (auto simp: assembling_def)
  ultimately show ?thesis
    using assms(1) filled_count [of S parts] filled_bytes [of S parts]
    unfolding asm_ok_def assembling_def by metis
qed

lemma assembling_prune_like:
  assumes "assembling (cid, sender, room) parts ls S st" and "ws_ok st'"
    and "listeners cid sender room st' = ls" and "hm_get (assemblies st') (cid, sender, room) = hm_get (assemblies st) (cid, sender, room)"
    and "length (assemblies st') \<le> length (assemblies st)" and "assembly_total st' \<le> assembly_total st"
  shows "assembling (cid, sender, room) parts ls S st'"
  using assms by (auto simp: assembling_def assembly_of_def hm_contains_get)

lemma prune_keeps_assembly:
  assumes "hm_ok (assemblies st)" and "listeners cid sender room (prune st) \<noteq> []"
  shows "hm_get (assemblies (prune st)) (cid, sender, room) = hm_get (assemblies st) (cid, sender, room)"
proof -
  have "list_ex (on_path sender room) (wants_of cid (prune st))"
    using assms(2) by (auto simp: listeners_def list_ex_iff filter_empty_conv)
  then show ?thesis
    unfolding prune_assemblies using assms(1) by (simp add: hm_get_retain split: option.splits)
qed

lemma prune_assemblies_le:
  "length (assemblies (prune st)) \<le> length (assemblies st) \<and> assembly_total (prune st) \<le> assembly_total st"
  unfolding assembly_total_def prune_assemblies by (simp add: hm_length_retain hm_sum_retain_le)

lemma assembling_observe_prune:
  assumes "assembling (cid, sender, room) parts ls S st"
  shows "assembling (cid, sender, room) parts ls S (observe now cid sender room b (prune st))"
proof -
  have ok: "ws_ok st" "hm_ok (pending st)" "hm_ok (assemblies st)" "listeners cid sender room st = ls" "ls \<noteq> []"
    using assms by (auto simp: assembling_def ws_ok_def wants_ok_def asms_ok_def)
  show ?thesis
    using assms ok prune_assemblies_le [of st] prune_keeps_assembly [of st cid sender room]
    by (intro assembling_prune_like [OF assms]) (simp_all add: listeners_prune assembly_total_def)
qed

lemma assembling_enforce:
  assumes "assembling (cid, sender, room) parts ls S st" and "\<forall>l \<in> set ls. within n l"
  shows "assembling (cid, sender, room) parts ls S (snd (enforce_byte_limits cid sender room n st))"
proof -
  let ?st = "st\<lparr>pending := hm_update cid (filter (keep_within sender room n)) (pending st)\<rparr>"
  have ok: "ws_ok st" "hm_ok (pending st)" "hm_ok (assemblies st)" "listeners cid sender room st = ls" "ls \<noteq> []"
    using assms by (auto simp: assembling_def ws_ok_def wants_ok_def asms_ok_def)
  have e: "snd (enforce_byte_limits cid sender room n st) = prune ?st" using ok(2) by (rule enforce_state)
  have ls: "listeners cid sender room (prune ?st) = ls"
    using listeners_enforce [OF ok(2), of cid sender room n] assms(2) ok(4) by (simp add: e filter_id_conv)
  have "ws_ok (prune ?st)" using enforce_ok [OF ok(1), of cid sender room n] by (simp add: e)
  then show ?thesis
    using prune_assemblies_le [of ?st] prune_keeps_assembly [of ?st cid sender room] ls ok
    unfolding e by (intro assembling_prune_like [OF assms(1)]) (simp_all add: assembly_total_def)
qed

lemma assembling_fits:
  assumes "assembling (cid, sender, room) parts ls S st" and "length parts \<le> MAX_WANT_CHUNKS"
    and "length (concat parts) \<le> MAX_WANT_BLOCK_BYTES" and "i < length parts" and "i \<notin> S"
  shows "chunk_fits (cid, sender, room) i (length parts) (parts ! i) st"
    and "(\<Sum>i\<in>S. length (parts ! i)) + length (parts ! i) \<le> length (concat parts)"
proof -
  have fin: "finite S" "S \<subseteq> {..<length parts}" using assms(1) by (auto simp: assembling_def intro: finite_subset)
  have "(\<Sum>i\<in>insert i S. length (parts ! i)) \<le> (\<Sum>i<length parts. length (parts ! i))"
    using fin assms(4) by (intro sum_mono2) auto
  then show le: "(\<Sum>i\<in>S. length (parts ! i)) + length (parts ! i) \<le> length (concat parts)"
    using fin assms(5) by (simp add: length_concat_parts add.commute)
  have "length (parts ! i) \<le> (\<Sum>i\<in>{..<length parts} - S. length (parts ! i))"
    using assms(4,5) by (intro member_le_sum) auto
  then show "chunk_fits (cid, sender, room) i (length parts) (parts ! i) st"
    using assms le assembling_counts [OF assms(1,2)] by (simp add: chunk_fits_def assembling_def)
qed

lemma assembling_store:
  fixes now :: instant and c :: storage_counters
  assumes "assembling (cid, sender, room) parts ls S st" and "length parts \<le> MAX_WANT_CHUNKS"
    and "length (concat parts) \<le> MAX_WANT_BLOCK_BYTES" and "i < length parts" and "i \<notin> S"
  defines "r \<equiv> store_chunk now room cid sender i (length parts) (parts ! i) (st, c)"
  shows "insert i S = {..<length parts} \<Longrightarrow> fst r = deliveries (concat parts) ls"
    and "insert i S \<noteq> {..<length parts} \<Longrightarrow> fst r = [] \<and> assembling (cid, sender, room) parts ls (insert i S) (fst (snd r))"
proof -
  let ?key = "(cid, sender, room)" and ?n = "length parts"
  let ?e = "add_chunk i (parts ! i) (assembly_of ?key ?n st)"
  let ?st = "advance_progress now sender (observe now cid sender room True (st\<lparr>assemblies := hm_insert ?key ?e (assemblies st)\<rparr>))"
  have S: "S \<subset> {..<?n}" "finite S" "listeners cid sender room st = ls" "ws_ok st"
    using assms(1) by (auto simp: assembling_def intro: finite_subset)
  have e: "received_chunks ?e = card (insert i S)" "total_chunks ?e = ?n" "asm_chunks ?e = filled parts (insert i S)"
    using assms(1,4,5) assembling_counts [OF assms(1,2)] S(2)
    by (simp_all add: add_chunk_def assembling_def filled_update_insert)
  have sub: "insert i S \<subseteq> {..<?n}" using S(1) assms(4) by auto
  have full: "card (insert i S) = ?n \<longleftrightarrow> insert i S = {..<?n}"
    using sub card_subset_eq [OF _ sub] by auto
  show "fst r = deliveries (concat parts) ls" if "insert i S = {..<?n}"
    using that full e S(3) filled_all [of parts "{..<?n}"]
    by (simp add: r_def store_chunk_def Let_def case_prod_beta fulfill_signals)
  show "fst r = [] \<and> assembling ?key parts ls (insert i S) (fst (snd r))" if part: "insert i S \<noteq> {..<?n}"
  proof -
    have r: "fst r = []" "fst (snd r) = ?st"
      using part full e(1,2) by (simp_all add: r_def store_chunk_def Let_def)
    have "ws_ok (fst (snd r))"
      unfolding r_def using S(4) assembling_fits(1) [OF assms(1-5)] by (rule store_chunk_ok)
    moreover have "assembly_total ?st = assembly_total st + length (parts ! i)"
      using S(4) sum_add_chunk [of st] by (simp add: assembly_total_def ws_ok_def asms_ok_def)
    moreover have "(\<Sum>i\<in>{..<?n} - S. length (parts ! i)) = length (parts ! i) + (\<Sum>i\<in>{..<?n} - insert i S. length (parts ! i))"
    proof -
      have split: "{..<?n} - S = insert i ({..<?n} - insert i S)" using assms(4,5) by auto
      show ?thesis by (subst split) (rule sum.insert, simp_all)
    qed
    ultimately show ?thesis
      using assms(1) sub part e unfolding r
      by (auto simp: assembling_def assembly_of_def hm_contains_get)
  qed
qed

lemma assembling_arrival_eq:
  assumes "assembling (cid, sender, room) parts ls S st" and "length parts \<le> MAX_WANT_CHUNKS"
    and "length (concat parts) \<le> MAX_WANT_BLOCK_BYTES" and "i < length parts" and "i \<notin> S"
    and "\<forall>l \<in> set ls. within (length (concat parts)) l"
  obtains st2 where "assembling (cid, sender, room) parts ls S st2"
    "fulfill_chunk_data_in now room cid sender i (length parts) (parts ! i) (st, c) =
       store_chunk now room cid sender i (length parts) (parts ! i) (st2, c)"
proof -
  let ?key = "(cid, sender, room)" and ?n = "length parts"
  define st1 where "st1 = observe now cid sender room False (prune st)"
  define m where "m = saturating_add64 (case hm_get (assemblies st1) ?key of None \<Rightarrow> 0 | Some e \<Rightarrow> asm_bytes e) (length (parts ! i))"
  define st2 where "st2 = snd (enforce_byte_limits cid sender room m st1)"
  have a1: "assembling ?key parts ls S st1"
    using assms(1) unfolding st1_def by (rule assembling_observe_prune)
  have "(case hm_get (assemblies st1) ?key of None \<Rightarrow> 0 | Some e \<Rightarrow> asm_bytes e) = asm_bytes (assembly_of ?key ?n st1)"
    by (simp add: assembly_of_def new_assembly_def split: option.splits)
  then have m: "m = (\<Sum>i\<in>S. length (parts ! i)) + length (parts ! i)" "m \<le> length (concat parts)"
    using assembling_counts [OF a1 assms(2)] assembling_fits(2) [OF a1 assms(2-5)] assms(3)
    by (simp_all add: m_def saturating_add64_def u64_max_def MAX_WANT_BLOCK_BYTES_def)
  have small: "\<forall>l \<in> set ls. within m l"
    using assms(6) m(2) by (auto simp: within_def split: option.splits)
  have a2: "assembling ?key parts ls S st2"
    unfolding st2_def using a1 small by (rule assembling_enforce)
  have fits2: "chunk_fits ?key i ?n (parts ! i) st2" by (rule assembling_fits(1) [OF a2 assms(2-5)])
  have acc: "accepts cid sender room st1" "accepts cid sender room st2" "listeners cid sender room st1 = ls"
    using a1 a2 by (simp_all add: assembling_def accepts_listeners)
  have "hm_ok (pending st)" using assms(1) by (simp add: assembling_def ws_ok_def wants_ok_def)
  then have "fst (enforce_byte_limits cid sender room m st1) = overflows m ls"
    using enforce_signals [of cid st1 sender room m] observe_prune_open acc(3) by (simp add: st1_def)
  then have ov: "fst (enforce_byte_limits cid sender room m st1) = []"
    using small by (simp add: overflows_def)
  have entry: "(case hm_get (assemblies st1) ?key of None \<Rightarrow> False | Some e \<Rightarrow> total_chunks e \<noteq> ?n) = False"
      "(case hm_get (assemblies st1) ?key of None \<Rightarrow> False | Some e \<Rightarrow> asm_chunks e ! i \<noteq> None) = False"
    using a1 assms(4,5) by (auto simp: assembling_def assembly_of_def split: option.splits)
  have header: "(?n = 0 \<or> ?n > MAX_WANT_CHUNKS \<or> i \<ge> ?n) = False" "(\<not> accepts cid sender room st1) = False"
    using assms(2,4) acc(1) by auto
  have limits: "(\<not> accepts cid sender room st2 \<or> m > MAX_WANT_BLOCK_BYTES) = False"
      "(\<not> hm_contains (assemblies st2) ?key \<and> length (assemblies st2) \<ge> MAX_WANT_ASSEMBLIES) = False"
      "(assembly_total st2 + length (parts ! i) > MAX_WANT_ASSEMBLY_BYTES) = False"
    using fits2 acc(2) m(2) assms(3) by (auto simp: chunk_fits_def)
  have "fulfill_chunk_data_in now room cid sender i ?n (parts ! i) (st, c) =
      store_chunk now room cid sender i ?n (parts ! i) (st2, c)"
    unfolding fulfill_chunk_data_in_def prod.case Let_def case_prod_beta fst_conv snd_conv
    unfolding st1_def [symmetric]
    unfolding m_def [symmetric]
    unfolding st2_def [symmetric]
    unfolding entry header limits if_False ov
    by simp
  with a2 show thesis by (rule that)
qed

fun chunk_run ::
  "string \<Rightarrow> string \<Rightarrow> node_id \<Rightarrow> nat \<Rightarrow> (instant \<times> nat \<times> bytes) list \<Rightarrow> want_state \<times> storage_counters
   \<Rightarrow> want_signal list \<times> want_state \<times> storage_counters" where
  "chunk_run room cid sender n [] s = ([], s)"
| "chunk_run room cid sender n ((now, i, data) # arrivals) s =
     (let (out, s) = fulfill_chunk_data_in now room cid sender i n data s;
          (out', s) = chunk_run room cid sender n arrivals s
      in (out @ out', s))"

lemma chunk_run_delivers:
  assumes "assembling (cid, sender, room) parts ls S st" and "length parts \<le> MAX_WANT_CHUNKS"
    and "length (concat parts) \<le> MAX_WANT_BLOCK_BYTES" and "\<forall>l \<in> set ls. within (length (concat parts)) l"
    and "distinct (map snd order)" and "snd ` set order = {..<length parts} - S"
  shows "fst (chunk_run room cid sender (length parts) (map (\<lambda>(now, i). (now, i, parts ! i)) order) (st, c))
    = deliveries (concat parts) ls"
  using assms(1,5,6)
proof (induction order arbitrary: S st c)
  case Nil
  then show ?case by (auto simp: assembling_def)
next
  case (Cons p order)
  obtain now i where p: "p = (now, i)" by fastforce
  let ?n = "length parts"
  have i: "i < ?n" "i \<notin> S" using Cons.prems(3) by (auto simp: p)
  obtain st2 where st2: "assembling (cid, sender, room) parts ls S st2"
    and arrival: "fulfill_chunk_data_in now room cid sender i ?n (parts ! i) (st, c) =
       store_chunk now room cid sender i ?n (parts ! i) (st2, c)"
    using assembling_arrival_eq [OF Cons.prems(1) assms(2,3) i assms(4)] .
  have rest: "snd ` set order = {..<?n} - insert i S"
    using Cons.prems(2,3) by (auto simp: p)
  show ?case
  proof (cases "insert i S = {..<?n}")
    case True
    with rest have "order = []" by auto
    then show ?thesis
      using assembling_store(1) [OF st2 assms(2,3) i True] by (simp add: p arrival case_prod_beta)
  next
    case False
    obtain st3 c3 where r: "store_chunk now room cid sender i ?n (parts ! i) (st2, c) = ([], st3, c3)"
      and st3: "assembling (cid, sender, room) parts ls (insert i S) st3"
      using assembling_store(2) [OF st2 assms(2,3) i False, of now c]
      by (cases "store_chunk now room cid sender i ?n (parts ! i) (st2, c)") auto
    show ?thesis
      using Cons.IH [OF st3 _ rest, of c3] Cons.prems(2) by (simp add: p arrival r case_prod_beta)
  qed
qed

section \<open>Runs of the registry\<close>

lemma assembling_start:
  assumes "ws_ok st" and "listeners cid sender room st \<noteq> []" and "hm_get (assemblies st) (cid, sender, room) = None"
    and "0 < length parts" and "length (assemblies st) < MAX_WANT_ASSEMBLIES"
    and "assembly_total st + length (concat parts) \<le> MAX_WANT_ASSEMBLY_BYTES"
  shows "assembling (cid, sender, room) parts (listeners cid sender room st) {} st"
proof -
  have "filled parts {} = replicate (length parts) None" by (rule nth_equalityI) auto
  with assms show ?thesis by (auto simp: assembling_def assembly_of_def new_assembly_def length_concat_parts)
qed

lemma update_first_length [simp]: "length (update_first P f xs) = length xs"
  by (induction xs) auto

lemma update_want_ok: "wants_ok m \<Longrightarrow> wants_ok (update_want i f m)"
proof -
  have "map fst (update_want i f m) = map fst m \<and> hm_sum length (update_want i f m) = hm_sum length m"
    by (induction i f m rule: update_want.induct) (auto simp: hm_sum_def)
  then show "wants_ok m \<Longrightarrow> wants_ok (update_want i f m)" by (simp add: wants_ok_def hm_ok_def)
qed

lemma register_attempt_ok: "ws_ok st \<Longrightarrow> ws_ok (snd (register_attempt_for_peers cid peers is_local st))"
proof -
  assume ok: "ws_ok st"
  define st1 where "st1 = (prune st)\<lparr>next_attempt := wrap64 (next_attempt (prune st) + 1)\<rparr>"
  have ok1: "ws_ok st1" "hm_ok (pending st1)"
    using prune_ok [OF ok] by (simp_all add: st1_def ws_ok_def wants_ok_def)
  have "wants_ok (hm_insert cid (wants_of cid st1 @ [w]) (pending st1))" if "want_admitted cid peers st1" for w
  proof -
    have "hm_sum length (pending st1) < MAX_PENDING_WANTS"
      using that by (simp add: want_admitted_def all_wants_length)
    then show ?thesis
      using hm_sum_remove [OF ok1(2), of cid] hm_remove_absent [of "pending st1" cid] ok1(2)
      by (cases "hm_get (pending st1) cid") (simp_all add: wants_ok_def hm_sum_insert wants_of_def)
  qed
  then show ?thesis
    using ok1 unfolding register_attempt_for_peers_def Let_def st1_def [symmetric]
    by (simp add: ws_ok_def)
qed

lemma reset_path_ok: "ws_ok st \<Longrightarrow> ws_ok (reset_path sender room st)"
  using prune_ok [of st] by (auto simp: reset_path_def Let_def ws_ok_def intro!: asms_ok_retain wants_ok_map)

lemma cancel_state_ok: "ws_ok st \<Longrightarrow> ws_ok (cancel_state cid st)"
  unfolding cancel_state_def by (rule prune_ok) (simp add: ws_ok_def wants_ok_remove asms_ok_retain)

lemma track_path_ok: "ws_ok st \<Longrightarrow> ws_ok (snd (track_path attempt room st))"
  by (simp add: track_path_def ws_ok_def update_want_ok split: option.splits)

lemma untrack_path_ok: "ws_ok st \<Longrightarrow> ws_ok (untrack_path attempt room st)"
  unfolding untrack_path_def by (rule prune_ok) (simp add: ws_ok_def update_want_ok)

lemma register_bounded_ok: "ws_ok st \<Longrightarrow> ws_ok (snd (register_bounded_attempt cid sender n st))"
  using register_attempt_ok [of st cid "[sender]" False]
  by (simp add: register_bounded_attempt_def register_attempt_def case_prod_beta ws_ok_def update_want_ok)

lemma subscriptions_ok:
  "ws_ok st \<Longrightarrow> ws_ok (snd (progress_subscribe sender st))"
  "ws_ok st \<Longrightarrow> ws_ok (snd (query_path_resets room peer st))"
  using prune_ok [of st]
  by (auto simp: progress_subscribe_def query_path_resets_def Let_def ws_ok_def case_prod_beta split: option.splits)

lemma drop_receiver_ok: "ws_ok st \<Longrightarrow> ws_ok (drop_receiver attempt st)"
  by (auto simp: drop_receiver_def ws_ok_def intro!: wants_ok_map)

datatype want_event =
    RegisterWant string "node_id list" bool
  | RegisterBounded string node_id nat
  | TrackPath nat string
  | UntrackPath nat string
  | HaveArrives instant string string node_id bytes
  | ChunkArrives instant string string node_id nat nat bytes
  | ResetPath "node_id option" string
  | CancelWant string
  | ReceiverDropped nat
  | SubscribeProgress node_id
  | SubscribeQuery string node_id
  | PruneClosed

fun want_step :: "want_state \<times> storage_counters \<Rightarrow> want_event \<Rightarrow> want_state \<times> storage_counters" where
  "want_step (st, c) (RegisterWant cid peers is_local) = (snd (register_attempt_for_peers cid peers is_local st), c)"
| "want_step (st, c) (RegisterBounded cid sender n) = (snd (register_bounded_attempt cid sender n st), c)"
| "want_step (st, c) (TrackPath attempt room) = (snd (track_path attempt room st), c)"
| "want_step (st, c) (UntrackPath attempt room) = (untrack_path attempt room st, c)"
| "want_step s (HaveArrives now room cid sender data) = snd (fulfill_data_in now room cid sender data s)"
| "want_step s (ChunkArrives now room cid sender i n data) = snd (fulfill_chunk_data_in now room cid sender i n data s)"
| "want_step (st, c) (ResetPath sender room) = (reset_path sender room st, c)"
| "want_step (st, c) (CancelWant cid) = (cancel_state cid st, c)"
| "want_step (st, c) (ReceiverDropped attempt) = (drop_receiver attempt st, c)"
| "want_step (st, c) (SubscribeProgress sender) = (snd (progress_subscribe sender st), c)"
| "want_step (st, c) (SubscribeQuery room peer) = (snd (query_path_resets room peer st), c)"
| "want_step (st, c) PruneClosed = (prune st, c)"

interpretation want_machine: step_machine want_step "\<lambda>s. ws_ok (fst s)" "\<lambda>_. True"
proof unfold_locales
  fix s :: "want_state \<times> storage_counters" and e
  assume "ws_ok (fst s)"
  then show "ws_ok (fst (want_step s e))"
    by (cases s; cases e)
      (simp_all add: register_attempt_ok register_bounded_ok track_path_ok untrack_path_ok fulfill_data_ok
        fulfill_chunk_ok reset_path_ok cancel_state_ok drop_receiver_ok subscriptions_ok)
qed

lemmas registry_eval = register_attempt_def register_local_def register_from_def register_for_peers_def
  register_attempt_for_peers_def want_state_default_def prune_def hm_retain_def hm_map_def
  wrap64_def want_admitted_def all_wants_def MAX_WANT_PEERS_def MAX_PENDING_WANTS_def wants_of_def hm_insert_def

section \<open>Properties\<close>

text \<open>
  Property C3. A block arrives complete whatever the order of its chunks: when all chunks of a block
  come in, each once, in any order, from a sender and room that open requests listen on, and the
  block is within the limits of the registry and of the requests, then nothing is handed out
  before the last chunk, and with it exactly the listening requests each receive exactly the block.
\<close>

theorem chunks_in_any_order_deliver:
  assumes "ws_ok st" and "listeners cid sender room st \<noteq> []" and "hm_get (assemblies st) (cid, sender, room) = None"
    and "0 < length parts" and "length parts \<le> MAX_WANT_CHUNKS" and "length (concat parts) \<le> MAX_WANT_BLOCK_BYTES"
    and "\<forall>l \<in> set (listeners cid sender room st). within (length (concat parts)) l"
    and "length (assemblies st) < MAX_WANT_ASSEMBLIES" and "assembly_total st + length (concat parts) \<le> MAX_WANT_ASSEMBLY_BYTES"
    and "distinct (map snd order)" and "snd ` set order = {..<length parts}"
  shows "fst (chunk_run room cid sender (length parts) (map (\<lambda>(now, i). (now, i, parts ! i)) order) (st, c))
    = deliveries (concat parts) (listeners cid sender room st)"
  by (rule chunk_run_delivers [OF assembling_start]) (use assms in simp_all)

theorem chunks_in_any_order_deliver_witness:
  "fst (chunk_run ''r'' ''bafk2'' (NodeId ''p'') 3 [(5, 2, [7]), (6, 0, [1, 2]), (9, 1, [3])]
      (snd (track_path 1 ''r'' (snd (register_attempt ''bafk2'' (NodeId ''p'') want_state_default))), counters_zero))
   = [Deliver 1 [1, 2, 3, 7]]"
proof -
  define st where "st = snd (track_path 1 ''r'' (snd (register_attempt ''bafk2'' (NodeId ''p'') want_state_default)))"
  have ls: "listeners ''bafk2'' (NodeId ''p'') ''r'' st = [(1, None)]"
    by (simp add: st_def track_path_def find_want_def listeners_def on_path_def hm_get_def registry_eval)
  have st: "assemblies st = []" by (simp add: st_def track_path_def find_want_def registry_eval)
  have "ws_ok st"
    unfolding st_def register_attempt_def
    by (intro track_path_ok register_attempt_ok)
      (simp add: ws_ok_def wants_ok_def asms_ok_def want_state_default_def)
  then have "fst (chunk_run ''r'' ''bafk2'' (NodeId ''p'') (length [[1 :: u8, 2], [3], [7]])
      (map (\<lambda>(now, i). (now, i, [[1, 2], [3], [7]] ! i)) [(5, 2), (6, 0), (9, 1)]) (st, counters_zero))
    = deliveries (concat [[1, 2], [3], [7]]) (listeners ''bafk2'' (NodeId ''p'') ''r'' st)"
    by (rule chunks_in_any_order_deliver)
      (auto simp: ls st within_def assembly_total_def MAX_WANT_CHUNKS_def MAX_WANT_BLOCK_BYTES_def
        MAX_WANT_ASSEMBLIES_def MAX_WANT_ASSEMBLY_BYTES_def)
  then show ?thesis
    unfolding st_def [symmetric] ls by (simp add: deliveries_def numeral_3_eq_3 del: chunk_run.simps)
qed

text \<open>
  Property C4. Memory of the registry is bounded in every run: whatever peers send and callers do,
  there are at most 256 assemblies of at most 8 MiB and 8192 chunks each, at most 64 MiB in all,
  and at most 1024 pending requests; every assembly's counters agree with the chunks it holds.
\<close>

theorem want_registry_bounded: "ws_ok (fst (foldl want_step (want_state_default, counters_zero) events))"
  by (rule want_machine.run_inv) (simp_all add: ws_ok_def wants_ok_def asms_ok_def want_state_default_def)

text \<open>
  What a complete block message does, exactly: requests that listen on this sender and
  room with a smaller byte limit are told of the overflow, the other listeners receive the bytes,
  nobody else receives anything, and an oversized block completes no request.
\<close>

lemma have_message_exact:
  assumes "ws_ok st"
  shows "fst (fulfill_data_in now room cid sender data (st, c)) =
    overflows (length data) (listeners cid sender room st) @
    (if length data \<le> MAX_WANT_BLOCK_BYTES
     then deliveries data (filter (within (length data)) (listeners cid sender room st)) else [])"
proof -
  define st1 where "st1 = observe now cid sender room False (prune st)"
  have ok: "hm_ok (pending st)" "hm_ok (pending st1)"
    using assms observe_ok [OF prune_ok [OF assms], of now cid sender room False]
    by (simp_all add: st1_def ws_ok_def wants_ok_def)
  have "fst (enforce_byte_limits cid sender room (length data) st1) = overflows (length data) (listeners cid sender room st)"
    using enforce_signals [of cid st1 sender room] observe_prune_open [OF ok(1)] listeners_prune [OF ok(1)]
    by (simp add: st1_def)
  moreover have "listeners cid sender room (snd (enforce_byte_limits cid sender room (length data) st1)) =
      filter (within (length data)) (listeners cid sender room st)"
    using listeners_enforce [OF ok(2)] listeners_prune [OF ok(1)] by (simp add: st1_def)
  ultimately show ?thesis
    unfolding fulfill_data_in_def prod.case Let_def case_prod_beta fst_conv snd_conv st1_def [symmetric]
    by (auto simp: accepts_listeners fulfill_signals deliveries_def)
qed

theorem have_message_exact_witness:
  "fst (fulfill_data_in 3 [] ''bafk2'' (NodeId []) [1, 2] (snd (register_local ''bafk2'' want_state_default), counters_zero))
   = [Deliver 1 [1, 2]]"
proof -
  have "ws_ok (snd (register_local ''bafk2'' want_state_default))"
    unfolding register_local_def register_from_def register_for_peers_def
    by (intro register_attempt_ok) (simp add: ws_ok_def wants_ok_def asms_ok_def want_state_default_def)
  moreover have "listeners ''bafk2'' (NodeId []) [] (snd (register_local ''bafk2'' want_state_default)) = [(1, None)]"
    by (simp add: listeners_def on_path_def hm_get_def registry_eval)
  ultimately show ?thesis
    using have_message_exact [of "snd (register_local ''bafk2'' want_state_default)" 3 "[]" "''bafk2''" "NodeId []" "[1, 2]" counters_zero]
    by (simp add: overflows_def within_def deliveries_def MAX_WANT_BLOCK_BYTES_def)
qed

text \<open>
  Tearing down a path drops exactly the partial data of that path (of one sender in the
  room, or of the whole room) and keeps every open request, so that it can be replayed.
\<close>

lemma path_reset_isolated:
  assumes "ws_ok st" and "listeners cid s r st \<noteq> []"
  shows "hm_get (assemblies (reset_path sender room st)) (cid, s, r) =
      (if r = room \<and> (sender = None \<or> sender = Some s) then None else hm_get (assemblies st) (cid, s, r))
    \<and> listeners cid' s' r' (reset_path sender room st) = listeners cid' s' r' st"
proof -
  have ok: "hm_ok (pending st)" "hm_ok (assemblies st)" "hm_ok (assemblies (prune st))"
    using assms(1) prune_ok [OF assms(1)] by (simp_all add: ws_ok_def wants_ok_def asms_ok_def)
  have "hm_get (assemblies (prune st)) (cid, s, r) = hm_get (assemblies st) (cid, s, r)"
    using prune_keeps_assembly [OF ok(2)] assms(2) listeners_prune [OF ok(1)] by simp
  moreover have "hm_get (assemblies (reset_path sender room st)) (cid, s, r) =
      (case hm_get (assemblies (prune st)) (cid, s, r) of
         None \<Rightarrow> None
       | Some e \<Rightarrow> if r \<noteq> room \<or> (case sender of None \<Rightarrow> False | Some x \<Rightarrow> s \<noteq> x) then Some e else None)"
    using ok(3) by (auto simp: reset_path_def Let_def hm_get_retain split: option.splits)
  ultimately have get: "hm_get (assemblies (reset_path sender room st)) (cid, s, r) =
      (if r = room \<and> (sender = None \<or> sender = Some s) then None else hm_get (assemblies st) (cid, s, r))"
    by (auto split: option.splits)
  define bump where "bump = (\<lambda>want :: pending_want. if (case sender of None \<Rightarrow> True | Some x \<Rightarrow> x \<in> set (want_peers want)) \<and> room \<in> want_paths want
      then want\<lparr>want_resets := wrap64 (want_resets want + 1)\<rparr> else want)"
  have same: "(\<not> tx_closed (bump w) \<and> on_path s' r' (bump w)) = (\<not> tx_closed w \<and> on_path s' r' w)"
      "(want_id (bump w), byte_limit (bump w)) = (want_id w, byte_limit w)" for w
    by (simp_all add: bump_def on_path_def)
  have "wants_of cid' (reset_path sender room st) = map bump (wants_of cid' (prune st))"
    by (simp add: reset_path_def Let_def wants_of_def bump_def split: option.splits)
  then have "listeners cid' s' r' (reset_path sender room st) = listeners cid' s' r' (prune st)"
    unfolding listeners_def using same by (simp only: map_filter_transform)
  with get show ?thesis by (simp add: listeners_prune [OF ok(1)])
qed

text \<open>A registry with one open request whose path holds one of two chunks.\<close>

definition half_assembled :: want_state where
  "half_assembled = want_state_default\<lparr>
     pending := [(''bafk2'', [\<lparr>want_id = 1, want_paths = {''r''}, want_resets = 0, want_progress = chunk_progress_default,
       want_peers = [NodeId ''p''], tx_closed = False, byte_limit = None\<rparr>])],
     assemblies := [((''bafk2'', NodeId ''p'', ''r''),
       \<lparr>total_chunks = 2, received_chunks = 1, asm_bytes = 1, asm_chunks = [Some [9], None]\<rparr>)]\<rparr>"

lemma half_assembled_facts:
  "ws_ok half_assembled" "listeners ''bafk2'' (NodeId ''p'') ''r'' half_assembled = [(1, None)]"
  "hm_get (assemblies half_assembled) (''bafk2'', NodeId ''p'', ''r'') =
     Some \<lparr>total_chunks = 2, received_chunks = 1, asm_bytes = 1, asm_chunks = [Some [9], None]\<rparr>"
  by (simp_all add: half_assembled_def want_state_default_def ws_ok_def wants_ok_def asms_ok_def asm_ok_def hm_ok_def
      hm_sum_def MAX_PENDING_WANTS_def MAX_WANT_CHUNKS_def MAX_WANT_BLOCK_BYTES_def MAX_WANT_ASSEMBLIES_def
      MAX_WANT_ASSEMBLY_BYTES_def listeners_def wants_of_def hm_get_def on_path_def)

theorem path_reset_isolated_witness:
  "hm_get (assemblies (reset_path (Some (NodeId ''p'')) ''r'' half_assembled)) (''bafk2'', NodeId ''p'', ''r'') = None
   \<and> listeners ''bafk2'' (NodeId ''p'') ''r'' (reset_path (Some (NodeId ''p'')) ''r'' half_assembled) = [(1, None)]"
  using path_reset_isolated [of half_assembled "''bafk2''" "NodeId ''p''" "''r''" "Some (NodeId ''p'')" "''r''"
      "''bafk2''" "NodeId ''p''" "''r''"] half_assembled_facts
  by simp

text \<open>
  Contradictory or repeated chunks do no harm: a chunk whose total contradicts the
  assembly in progress on its path, or whose index is already filled, is dropped; the assembly and
  the listeners stay as they are and nobody is notified.
\<close>

lemma conflicting_chunk_ignored:
  assumes "ws_ok st" and "listeners cid sender room st \<noteq> []" and "hm_get (assemblies st) (cid, sender, room) = Some e"
    and "n \<noteq> total_chunks e \<or> asm_chunks e ! i \<noteq> None"
  shows "fst (fulfill_chunk_data_in now room cid sender i n data (st, c)) = []
    \<and> hm_get (assemblies (fst (snd (fulfill_chunk_data_in now room cid sender i n data (st, c))))) (cid, sender, room) = Some e
    \<and> listeners cid' s r (fst (snd (fulfill_chunk_data_in now room cid sender i n data (st, c)))) = listeners cid' s r st"
proof -
  define st1 where "st1 = observe now cid sender room False (prune st)"
  have ok: "hm_ok (pending st)" "hm_ok (assemblies st)"
    using assms(1) by (simp_all add: ws_ok_def wants_ok_def asms_ok_def)
  have e: "hm_get (assemblies st1) (cid, sender, room) = Some e"
    using prune_keeps_assembly [OF ok(2)] assms(2,3) listeners_prune [OF ok(1)] by (simp add: st1_def)
  have ls: "listeners cid' s r st1 = listeners cid' s r st" for cid' s r
    by (simp add: st1_def listeners_prune [OF ok(1)])
  have "fst (fulfill_chunk_data_in now room cid sender i n data (st, c)) = []
      \<and> fst (snd (fulfill_chunk_data_in now room cid sender i n data (st, c))) = st1"
    unfolding fulfill_chunk_data_in_def prod.case Let_def case_prod_beta fst_conv snd_conv st1_def [symmetric] e option.case
    using assms(4) by auto
  then show ?thesis by (simp add: e ls)
qed

lemma conflicting_chunk_ignored_witness:
  "fst (fulfill_chunk_data_in 4 ''r'' ''bafk2'' (NodeId ''p'') 0 2 [8] (half_assembled, counters_zero)) = []"
  using conflicting_chunk_ignored [of half_assembled "''bafk2''" "NodeId ''p''" "''r''" _ 2 0 4 "[8]" counters_zero]
    half_assembled_facts by simp

end
