(* ===== verification/Storage_Manager.thy ===== *)
theory Storage_Manager
  imports Storage_Cid
begin

text \<open>
  Which blocks a node keeps: the usage accounting and eviction choice of \<open>storage/types.rs\<close>, the pin
  registry of \<open>storage/pin.rs\<close> and the admission of block requests of \<open>storage/responder.rs\<close>. The
  clock and the usage are \<open>u64\<close> counters of operations and bytes and are taken as unbounded. Positions,
  the f64 score of a block and the decay roll are parameters; the JSON text of the registry is too.
\<close>

section \<open>StorageManager\<close>

definition CHUNK_SIZE :: nat where "CHUNK_SIZE = 1024 * 1024"

record file_manifest =
  fm_name :: string
  fm_size :: nat
  fm_chunks :: "string list"

record 'p block_meta =
  bm_last_accessed :: nat
  bm_size :: nat
  bm_position :: "'p option"

record 'p storage_manager =
  max_capacity_bytes :: nat
  current_usage :: nat
  blocks_meta :: "(string, 'p block_meta) hmap"
  lru_index :: "(nat, string) btmap"
  clock :: nat
  pinned :: "string set"

definition manager_new :: "nat \<Rightarrow> 'p storage_manager" where
  "manager_new capacity =
     \<lparr>max_capacity_bytes = capacity, current_usage = 0, blocks_meta = [], lru_index = [], clock = 0, pinned = {}\<rparr>"

definition set_pinned :: "string set \<Rightarrow> 'p storage_manager \<Rightarrow> 'p storage_manager" where
  "set_pinned cids m = m\<lparr>pinned := cids\<rparr>"

definition track_block :: "string \<Rightarrow> nat \<Rightarrow> 'p option \<Rightarrow> 'p storage_manager \<Rightarrow> bool \<times> 'p storage_manager" where
  "track_block cid len position m =
     (let m = m\<lparr>clock := clock m + 1\<rparr> in
      case hm_get (blocks_meta m) cid of
        Some meta \<Rightarrow>
          (False, m\<lparr>lru_index := bt_insert (clock m) cid (bt_remove (bm_last_accessed meta) (lru_index m)),
                    blocks_meta := hm_update cid (\<lambda>meta. meta\<lparr>bm_last_accessed := clock m,
                      bm_position := (if position \<noteq> None then position else bm_position meta)\<rparr>) (blocks_meta m)\<rparr>)
      | None \<Rightarrow>
          (True, m\<lparr>blocks_meta := hm_insert cid \<lparr>bm_last_accessed = clock m, bm_size = len, bm_position = position\<rparr> (blocks_meta m),
                   lru_index := bt_insert (clock m) cid (lru_index m),
                   current_usage := current_usage m + len\<rparr>))"

definition manager_touch :: "string \<Rightarrow> 'p storage_manager \<Rightarrow> 'p storage_manager" where
  "manager_touch cid m =
     (case hm_get (blocks_meta m) cid of
        None \<Rightarrow> m
      | Some meta \<Rightarrow>
          let m = m\<lparr>clock := clock m + 1\<rparr> in
          m\<lparr>lru_index := bt_insert (clock m) cid (bt_remove (bm_last_accessed meta) (lru_index m)),
            blocks_meta := hm_update cid (\<lambda>meta. meta\<lparr>bm_last_accessed := clock m\<rparr>) (blocks_meta m)\<rparr>)"

definition untrack_block :: "string \<Rightarrow> 'p storage_manager \<Rightarrow> nat option \<times> 'p storage_manager" where
  "untrack_block cid m =
     (case hm_get (blocks_meta m) cid of
        None \<Rightarrow> (None, m)
      | Some meta \<Rightarrow>
          (Some (bm_size meta),
           m\<lparr>blocks_meta := hm_remove cid (blocks_meta m), lru_index := bt_remove (bm_last_accessed meta) (lru_index m),
             current_usage := current_usage m - bm_size meta\<rparr>))"

text \<open>The loop over the LRU index of \<open>eviction_candidates\<close>.\<close>

fun lru_loop :: "string set \<Rightarrow> (string, 'p block_meta) hmap \<Rightarrow> (nat \<times> string) list \<Rightarrow> nat \<Rightarrow> string list" where
  "lru_loop pins metas [] remaining = []"
| "lru_loop pins metas ((_, cid) # rest) remaining =
     (if cid \<in> pins then lru_loop pins metas rest remaining
      else case hm_get metas cid of
             None \<Rightarrow> lru_loop pins metas rest remaining
           | Some meta \<Rightarrow>
               let remaining = remaining - bm_size meta in
               cid # (if remaining = 0 then [] else lru_loop pins metas rest remaining))"

definition eviction_candidates :: "'p storage_manager \<Rightarrow> string list" where
  "eviction_candidates m =
     (if current_usage m \<le> max_capacity_bytes m then []
      else lru_loop (pinned m) (blocks_meta m) (lru_index m) (current_usage m - max_capacity_bytes m))"

text \<open>
  The spatial choice: \<open>score\<close> is the effective age of a block at this clock, \<open>target\<close> the f64 product
  of the capacity with 0.95. The heap pops a block of greatest score.
\<close>

record 's scored_block =
  sb_effective_age :: 's
  sb_size :: nat
  sb_cid :: string

fun heap_max :: "('s::linorder) scored_block list \<Rightarrow> 's scored_block option" where
  "heap_max [] = None"
| "heap_max (x # xs) =
     (case heap_max xs of None \<Rightarrow> Some x | Some y \<Rightarrow> if sb_effective_age x < sb_effective_age y then Some y else Some x)"

definition heap_pop :: "('s::linorder) scored_block list \<Rightarrow> ('s scored_block \<times> 's scored_block list) option" where
  "heap_pop xs = map_option (\<lambda>y. (y, remove1 y xs)) (heap_max xs)"

lemma heap_max_in: "heap_max xs = Some y \<Longrightarrow> y \<in> set xs"
  by (induction xs arbitrary: y) (auto split: option.splits if_splits)

function heap_loop :: "('s::linorder) scored_block list \<Rightarrow> nat \<Rightarrow> string list" where
  "heap_loop heap remaining =
     (if remaining > 0 then
        (case heap_pop heap of
           None \<Rightarrow> []
         | Some (entry, heap) \<Rightarrow> sb_cid entry # heap_loop heap (remaining - sb_size entry))
      else [])"
  by pat_completeness auto
termination
  by (relation "measure (\<lambda>(heap, _). length heap)") (auto simp: heap_pop_def length_remove1 dest!: heap_max_in intro!: diff_less length_pos_if_in_set)

declare heap_loop.simps [simp del]

definition scored_blocks :: "('p list \<Rightarrow> nat \<Rightarrow> 'p block_meta \<Rightarrow> 's) \<Rightarrow> 'p list \<Rightarrow> 'p storage_manager \<Rightarrow> 's scored_block list" where
  "scored_blocks score positions m =
     map (\<lambda>(cid, meta). \<lparr>sb_effective_age = score positions (clock m) meta, sb_size = bm_size meta, sb_cid = cid\<rparr>)
       (filter (\<lambda>(cid, _). cid \<notin> pinned m) (blocks_meta m))"

definition spatial_eviction_candidates ::
  "('p list \<Rightarrow> nat \<Rightarrow> 'p block_meta \<Rightarrow> 's::linorder) \<Rightarrow> (nat \<Rightarrow> nat) \<Rightarrow> 'p list \<Rightarrow> 'p storage_manager \<Rightarrow> string list" where
  "spatial_eviction_candidates score target positions m =
     (if current_usage m \<le> max_capacity_bytes m then []
      else
        let remaining = current_usage m - target (max_capacity_bytes m) in
        if remaining = 0 then [] else heap_loop (scored_blocks score positions m) remaining)"

text \<open>\<open>near\<close> is \<open>d <= retention_radius\<close>, \<open>roll\<close> the comparison of the deterministic roll with the probability.\<close>

definition decay_candidates ::
  "('p list \<Rightarrow> 'p \<Rightarrow> bool) \<Rightarrow> ('p list \<Rightarrow> 'p \<Rightarrow> string \<Rightarrow> nat \<Rightarrow> bool) \<Rightarrow> 'p list \<Rightarrow> nat \<Rightarrow> 'p storage_manager \<Rightarrow> string list" where
  "decay_candidates near roll positions sweep m =
     (if positions = [] then []
      else map fst (filter (\<lambda>(cid, meta). cid \<notin> pinned m \<and>
             (case bm_position meta of None \<Rightarrow> False
              | Some p \<Rightarrow> \<not> near positions p \<and> roll positions p cid sweep)) (blocks_meta m)))"

definition block_count :: "'p storage_manager \<Rightarrow> nat" where
  "block_count m = length (blocks_meta m)"

section \<open>Pin registry\<close>

definition PIN_REGISTRY_META_KEY :: string where "PIN_REGISTRY_META_KEY = ''pins''"
definition REGISTRY_VERSION :: nat where "REGISTRY_VERSION = 1"

record pin_registry =
  pr_v :: nat
  pr_roots :: "(string, string list) hmap"

definition pins_new :: pin_registry where
  "pins_new = \<lparr>pr_v = REGISTRY_VERSION, pr_roots = []\<rparr>"

text \<open>\<open>from_slice\<close> and \<open>to_vec\<close> are the JSON reader and writer, \<open>bad_version\<close> the formatted message.\<close>

definition pins_from_json :: "(bytes \<Rightarrow> pin_registry result) \<Rightarrow> (nat \<Rightarrow> string) \<Rightarrow> bytes \<Rightarrow> pin_registry result" where
  "pins_from_json from_slice bad_version data =
     (case from_slice data of
        Inl e \<Rightarrow> Inl e
      | Inr r \<Rightarrow> if pr_v r \<noteq> REGISTRY_VERSION then Inl (Serialization (bad_version (pr_v r))) else Inr r)"

definition pins_to_json :: "(pin_registry \<Rightarrow> bytes result) \<Rightarrow> pin_registry \<Rightarrow> bytes result" where
  "pins_to_json to_vec r = to_vec r"

definition registry_is_pinned :: "string \<Rightarrow> pin_registry \<Rightarrow> bool" where
  "registry_is_pinned root r = hm_contains (pr_roots r) root"

definition registry_pin :: "string \<Rightarrow> string list \<Rightarrow> pin_registry \<Rightarrow> pin_registry" where
  "registry_pin root cids r = r\<lparr>pr_roots := hm_insert root cids (pr_roots r)\<rparr>"

definition registry_unpin :: "string \<Rightarrow> pin_registry \<Rightarrow> pin_registry" where
  "registry_unpin root r = r\<lparr>pr_roots := hm_remove root (pr_roots r)\<rparr>"

definition pinned_cids :: "pin_registry \<Rightarrow> string set" where
  "pinned_cids r = set (concat (map snd (pr_roots r)))"

section \<open>Admission of requests\<close>

datatype 'd want_admission = Start 'd | Queued | Dropped

record 'd peer_work =
  pw_active :: nat
  pw_pending :: "'d list"

type_synonym ('k, 'd) want_queue = "('k, 'd peer_work) hmap"

definition want_enqueue :: "'k \<Rightarrow> 'd \<Rightarrow> ('k, 'd) want_queue \<Rightarrow> 'd want_admission \<times> ('k, 'd) want_queue" where
  "want_enqueue key d q =
     (let work = (case hm_get q key of None \<Rightarrow> \<lparr>pw_active = 0, pw_pending = []\<rparr> | Some w \<Rightarrow> w) in
      if pw_active work < 4 then (Start d, hm_insert key (work\<lparr>pw_active := pw_active work + 1\<rparr>) q)
      else if length (pw_pending work) < 64 then (Queued, hm_insert key (work\<lparr>pw_pending := pw_pending work @ [d]\<rparr>) q)
      else (Dropped, hm_insert key work q))"

definition want_next :: "'k \<Rightarrow> ('k, 'd) want_queue \<Rightarrow> 'd option \<times> ('k, 'd) want_queue" where
  "want_next key q =
     (case hm_get q key of
        None \<Rightarrow> (None, q)
      | Some work \<Rightarrow>
          (case pw_pending work of
             d # rest \<Rightarrow> (Some d, hm_insert key (work\<lparr>pw_pending := rest\<rparr>) q)
           | [] \<Rightarrow>
               let work = work\<lparr>pw_active := pw_active work - 1\<rparr> in
               if pw_active work = 0 then (None, hm_remove key q) else (None, hm_insert key work q)))"

section \<open>The recency list\<close>

text \<open>
  What the manager promises: a list of the tracked blocks with their sizes, least recently used
  first. Tracking or touching a block moves it to the end.
\<close>

definition spec_refresh :: "string \<Rightarrow> (string \<times> nat) list \<Rightarrow> (string \<times> nat) list" where
  "spec_refresh cid xs =
     (case map_of xs cid of None \<Rightarrow> xs | Some n \<Rightarrow> filter (\<lambda>p. fst p \<noteq> cid) xs @ [(cid, n)])"

definition spec_track :: "string \<Rightarrow> nat \<Rightarrow> (string \<times> nat) list \<Rightarrow> (string \<times> nat) list" where
  "spec_track cid len xs = (if map_of xs cid = None then xs @ [(cid, len)] else spec_refresh cid xs)"

definition spec_untrack :: "string \<Rightarrow> (string \<times> nat) list \<Rightarrow> (string \<times> nat) list" where
  "spec_untrack cid xs = filter (\<lambda>p. fst p \<noteq> cid) xs"

definition size_of_block :: "'p storage_manager \<Rightarrow> string \<Rightarrow> nat" where
  "size_of_block m cid = (case hm_get (blocks_meta m) cid of None \<Rightarrow> 0 | Some meta \<Rightarrow> bm_size meta)"

definition recency :: "'p storage_manager \<Rightarrow> (string \<times> nat) list" where
  "recency m = map (\<lambda>(_, cid). (cid, size_of_block m cid)) (lru_index m)"

definition manager_ok :: "'p storage_manager \<Rightarrow> bool" where
  "manager_ok m \<longleftrightarrow> hm_ok (blocks_meta m) \<and> bt_ok (lru_index m)
     \<and> (\<forall>t cid. (t, cid) \<in> set (lru_index m) \<longrightarrow> t \<le> clock m \<and> (\<exists>meta. hm_get (blocks_meta m) cid = Some meta \<and> bm_last_accessed meta = t))
     \<and> (\<forall>cid meta. hm_get (blocks_meta m) cid = Some meta \<longrightarrow> (bm_last_accessed meta, cid) \<in> set (lru_index m))
     \<and> current_usage m = sum_list (map snd (recency m))"

lemma bt_insert_end: "\<forall>q \<in> set m. fst q < k \<Longrightarrow> bt_insert k v m = m @ [(k, v)]"
  by (induction m) auto

lemma manager_okD:
  assumes "manager_ok m"
  shows "hm_ok (blocks_meta m)" and "bt_ok (lru_index m)" and "(t, cid) \<in> set (lru_index m) \<Longrightarrow> t \<le> clock m"
    and "(t, cid) \<in> set (lru_index m) \<Longrightarrow> \<exists>meta. hm_get (blocks_meta m) cid = Some meta \<and> bm_last_accessed meta = t"
    and "hm_get (blocks_meta m) cid = Some meta \<Longrightarrow> (bm_last_accessed meta, cid) \<in> set (lru_index m)"
    and "current_usage m = sum_list (map snd (recency m))"
  using assms by (auto simp: manager_ok_def)

lemma recency_keys: "map fst (recency m) = map snd (lru_index m)"
  by (simp add: recency_def case_prod_beta)

lemma lru_same: "manager_ok m \<Longrightarrow> (t, cid) \<in> set (lru_index m) \<Longrightarrow> hm_get (blocks_meta m) cid = Some meta \<Longrightarrow> t = bm_last_accessed meta"
  using manager_okD(4) by fastforce

lemma lru_distinct:
  assumes "manager_ok m"
  shows "distinct (map snd (lru_index m))"
proof -
  have "inj_on snd (set (lru_index m))"
  proof (rule inj_onI)
    fix x y assume xy: "x \<in> set (lru_index m)" "y \<in> set (lru_index m)" "snd x = snd y"
    obtain meta where meta: "hm_get (blocks_meta m) (snd x) = Some meta"
      using manager_okD(4) [OF assms, of "fst x" "snd x"] xy(1) by auto
    have "fst x = fst y"
      using lru_same [OF assms _ meta, of "fst x"] lru_same [OF assms _ meta, of "fst y"] xy by (metis prod.collapse)
    with xy(3) show "x = y" by (simp add: prod_eq_iff)
  qed
  moreover have "distinct (lru_index m)" using bt_ok_distinct [OF manager_okD(2) [OF assms]] by (simp add: distinct_map)
  ultimately show ?thesis by (simp add: distinct_map)
qed

lemma recency_get: "manager_ok m \<Longrightarrow> map_of (recency m) cid = map_option bm_size (hm_get (blocks_meta m) cid)"
proof -
  assume ok: "manager_ok m"
  have d: "distinct (map fst (recency m))" using lru_distinct [OF ok] by (simp add: recency_keys)
  show ?thesis
  proof (cases "hm_get (blocks_meta m) cid")
    case None
    then have "cid \<notin> set (map snd (lru_index m))" using manager_okD(4) [OF ok] by fastforce
    then have "map_of (recency m) cid = None" by (simp add: map_of_eq_None_iff recency_keys flip: set_map)
    with None show ?thesis by simp
  next
    case (Some meta)
    then have "(cid, bm_size meta) \<in> set (recency m)"
      using manager_okD(5) [OF ok Some] by (force simp: recency_def size_of_block_def)
    with d Some show ?thesis by (simp add: map_of_eq_Some_iff)
  qed
qed

text \<open>Removing a block's slot from the index is removing the block from the list.\<close>

lemma lru_remove:
  assumes "manager_ok m" and "hm_get (blocks_meta m) cid = Some meta"
  shows "bt_remove (bm_last_accessed meta) (lru_index m) = filter (\<lambda>p. snd p \<noteq> cid) (lru_index m)"
  unfolding bt_remove_def
proof (rule filter_cong [OF refl])
  fix p assume p: "p \<in> set (lru_index m)"
  show "fst p \<noteq> bm_last_accessed meta \<longleftrightarrow> snd p \<noteq> cid"
    using lru_same [OF assms(1) _ assms(2), of "fst p"] manager_okD(4) [OF assms(1), of "fst p" "snd p"] p
      bt_in_get [OF manager_okD(2) [OF assms(1)], of "fst p" "snd p"] bt_in_get [OF manager_okD(2) [OF assms(1)] manager_okD(5) [OF assms]]
    by auto
qed

lemma sum_remove_block:
  "distinct (map fst xs) \<Longrightarrow> map_of xs c = Some n \<Longrightarrow> sum_list (map snd (filter (\<lambda>p. fst p \<noteq> c) xs)) + n = sum_list (map snd (xs :: (string \<times> nat) list))"
proof (induction xs)
  case (Cons p xs)
  show ?case
  proof (cases "fst p = c")
    case True
    with Cons.prems(1) have "\<forall>q \<in> set xs. fst q \<noteq> c" by (auto simp: image_iff)
    then have "filter (\<lambda>p. fst p \<noteq> c) xs = xs" by (simp add: filter_id_conv)
    with True Cons.prems show ?thesis by (cases p) auto
  next
    case False
    with Cons show ?thesis by (cases p) auto
  qed
qed simp

lemma refresh_refines:
  fixes m :: "'p storage_manager"
  assumes ok: "manager_ok m" and get: "hm_get (blocks_meta m) cid = Some meta"
    and f: "\<And>x. bm_last_accessed (f x) = Suc (clock m)" "\<And>x. bm_size (f x) = bm_size x"
  defines "m' \<equiv> m\<lparr>clock := Suc (clock m), lru_index := bt_insert (Suc (clock m)) cid (bt_remove (bm_last_accessed meta) (lru_index m)),
    blocks_meta := hm_update cid f (blocks_meta m)\<rparr>"
  shows "recency m' = spec_refresh cid (recency m)" and "manager_ok m'"
proof -
  have lru: "lru_index m' = filter (\<lambda>p. snd p \<noteq> cid) (lru_index m) @ [(Suc (clock m), cid)]"
    unfolding m'_def using manager_okD(3) [OF ok]
    by (simp add: lru_remove [OF ok get], subst bt_insert_end) (auto simp: le_imp_less_Suc)
  have size: "size_of_block m' c = size_of_block m c" for c
    by (simp add: m'_def size_of_block_def f(2) split: option.splits)
  have rf: "map (\<lambda>(_, c). (c, size_of_block m c)) (filter (\<lambda>p. snd p \<noteq> cid) (lru_index m)) = filter (\<lambda>p. fst p \<noteq> cid) (recency m)"
    by (simp add: recency_def filter_map o_def case_prod_beta)
  have n: "map_of (recency m) cid = Some (bm_size meta)" by (simp add: recency_get [OF ok] get)
  show rec: "recency m' = spec_refresh cid (recency m)"
    unfolding recency_def [of m'] lru size map_append rf using n get by (simp add: spec_refresh_def size_of_block_def)
  have d: "distinct (map fst (recency m))" using lru_distinct [OF ok] by (simp add: recency_keys)
  have "current_usage m' = sum_list (map snd (recency m'))"
    using sum_remove_block [OF d n] manager_okD(6) [OF ok] n unfolding rec by (simp add: m'_def spec_refresh_def)
  moreover have "bt_ok (lru_index m')" using manager_okD(2) [OF ok] by (simp add: m'_def)
  moreover have "hm_ok (blocks_meta m')" using manager_okD(1) [OF ok] by (simp add: m'_def)
  moreover have "t \<le> clock m' \<and> (\<exists>x. hm_get (blocks_meta m') c = Some x \<and> bm_last_accessed x = t)" if "(t, c) \<in> set (lru_index m')" for t c
  proof (cases "c = cid")
    case True
    then have "t = Suc (clock m)" using that by (auto simp: lru)
    then show ?thesis using True get by (simp add: m'_def f(1))
  next
    case False
    then have "(t, c) \<in> set (lru_index m)" using that by (auto simp: lru)
    then show ?thesis using manager_okD(3,4) [OF ok] False by (auto simp: m'_def le_SucI)
  qed
  moreover have "(bm_last_accessed x, c) \<in> set (lru_index m')" if "hm_get (blocks_meta m') c = Some x" for c x
  proof -
    have "hm_get (blocks_meta m') c = (if c = cid then Some (f meta) else hm_get (blocks_meta m) c)"
      by (simp add: m'_def get)
    with that manager_okD(5) [OF ok, of c] show ?thesis unfolding lru by (auto simp: f(1) split: if_splits)
  qed
  ultimately show "manager_ok m'" by (simp add: manager_ok_def)
qed

lemma track_refines:
  fixes m :: "'p storage_manager"
  assumes ok: "manager_ok m"
  shows "recency (snd (track_block cid len pos m)) = spec_track cid len (recency m) \<and> manager_ok (snd (track_block cid len pos m))"
proof (cases "hm_get (blocks_meta m) cid")
  case (Some meta)
  show ?thesis
    using refresh_refines [OF ok Some, of "\<lambda>x. x\<lparr>bm_last_accessed := Suc (clock m), bm_position := (if pos \<noteq> None then pos else bm_position x)\<rparr>"]
    by (simp add: track_block_def Some spec_track_def recency_get [OF ok])
next
  case None
  let ?m = "snd (track_block cid len pos m)"
  have lru: "lru_index ?m = lru_index m @ [(Suc (clock m), cid)]"
    using manager_okD(3) [OF ok] by (simp add: track_block_def None, subst bt_insert_end) (auto simp: le_imp_less_Suc)
  have fresh: "cid \<notin> snd ` set (lru_index m)" using None manager_okD(4) [OF ok] by fastforce
  have meta: "hm_get (blocks_meta ?m) c = (if c = cid then Some \<lparr>bm_last_accessed = Suc (clock m), bm_size = len, bm_position = pos\<rparr>
      else hm_get (blocks_meta m) c)" for c by (simp add: track_block_def None)
  have "map (\<lambda>(_, c). (c, size_of_block ?m c)) (lru_index m) = recency m"
    unfolding recency_def using fresh by (force simp: size_of_block_def meta)
  then have rec: "recency ?m = recency m @ [(cid, len)]"
    unfolding recency_def [of ?m] lru by (simp add: size_of_block_def meta)
  have "manager_ok ?m"
    unfolding manager_ok_def rec
  proof (intro conjI allI impI)
    show "hm_ok (blocks_meta ?m)" using manager_okD(1) [OF ok] by (simp add: track_block_def None)
    show "bt_ok (lru_index ?m)" using manager_okD(2) [OF ok] by (simp add: track_block_def None)
    show "current_usage ?m = sum_list (map snd (recency m @ [(cid, len)]))"
      using manager_okD(6) [OF ok] by (simp add: track_block_def None)
  next
    fix t c assume "(t, c) \<in> set (lru_index ?m)"
    then consider (old) "(t, c) \<in> set (lru_index m)" | (new) "t = Suc (clock m)" "c = cid" unfolding lru by auto
    then have "t \<le> clock ?m \<and> (\<exists>x. hm_get (blocks_meta ?m) c = Some x \<and> bm_last_accessed x = t)"
    proof cases
      case old
      then have "c \<noteq> cid" using fresh by force
      with old manager_okD(3,4) [OF ok] show ?thesis unfolding meta by (simp add: track_block_def None le_SucI)
    next
      case new
      then show ?thesis unfolding meta by (simp add: track_block_def None)
    qed
    then show "t \<le> clock ?m" "\<exists>x. hm_get (blocks_meta ?m) c = Some x \<and> bm_last_accessed x = t" by auto
  next
    fix c x assume "hm_get (blocks_meta ?m) c = Some x"
    then show "(bm_last_accessed x, c) \<in> set (lru_index ?m)"
      unfolding meta lru using manager_okD(5) [OF ok] by (auto split: if_splits)
  qed
  then show ?thesis using rec None by (simp add: spec_track_def recency_get [OF ok])
qed

lemma touch_refines:
  assumes ok: "manager_ok m"
  shows "recency (manager_touch cid m) = spec_refresh cid (recency m) \<and> manager_ok (manager_touch cid m)"
proof (cases "hm_get (blocks_meta m) cid")
  case (Some meta)
  show ?thesis
    using refresh_refines [OF ok Some, of "\<lambda>x. x\<lparr>bm_last_accessed := Suc (clock m)\<rparr>"] by (simp add: manager_touch_def Some Let_def)
next
  case None
  then show ?thesis using ok by (simp add: manager_touch_def spec_refresh_def recency_get)
qed

lemma untrack_refines:
  fixes m :: "'p storage_manager"
  assumes ok: "manager_ok m"
  shows "recency (snd (untrack_block cid m)) = spec_untrack cid (recency m) \<and> manager_ok (snd (untrack_block cid m))"
proof (cases "hm_get (blocks_meta m) cid")
  case None
  then have "cid \<notin> snd ` set (lru_index m)" using manager_okD(4) [OF ok] by fastforce
  then have "spec_untrack cid (recency m) = recency m" unfolding spec_untrack_def filter_id_conv recency_def by force
  with None ok show ?thesis by (simp add: untrack_block_def)
next
  case (Some meta)
  let ?m = "snd (untrack_block cid m)"
  have lru: "lru_index ?m = filter (\<lambda>p. snd p \<noteq> cid) (lru_index m)"
    using lru_remove [OF ok Some] by (simp add: untrack_block_def Some)
  have meta: "hm_get (blocks_meta ?m) c = (if c = cid then None else hm_get (blocks_meta m) c)" for c
    by (simp add: untrack_block_def Some)
  have "recency ?m = map (\<lambda>(_, c). (c, size_of_block m c)) (filter (\<lambda>p. snd p \<noteq> cid) (lru_index m))"
    unfolding recency_def lru by (auto simp: size_of_block_def meta)
  then have rec: "recency ?m = filter (\<lambda>p. fst p \<noteq> cid) (recency m)"
    by (simp add: recency_def filter_map o_def case_prod_beta)
  have d: "distinct (map fst (recency m))" using lru_distinct [OF ok] by (simp add: recency_keys)
  have "current_usage ?m = sum_list (map snd (recency ?m))"
    unfolding rec using sum_remove_block [OF d, of cid "bm_size meta"] manager_okD(6) [OF ok] Some
    by (simp add: untrack_block_def recency_get [OF ok])
  then have "manager_ok ?m"
    unfolding manager_ok_def meta
    using manager_okD(1,2) [OF ok] manager_okD(3,4,5) [OF ok] unfolding lru by (auto simp: untrack_block_def Some bt_ok_def sorted_wrt_map sorted_wrt_filter)
  then show ?thesis by (simp add: rec spec_untrack_def)
qed

lemma manager_new_ok [simp]: "manager_ok (manager_new cap)" "recency (manager_new cap) = []"
  by (simp_all add: manager_ok_def manager_new_def recency_def)

lemma set_pinned_refines [simp]: "recency (set_pinned P m) = recency m" "manager_ok (set_pinned P m) = manager_ok m"
  by (simp_all add: set_pinned_def recency_def manager_ok_def size_of_block_def)

section \<open>Eviction\<close>

text \<open>The shortest prefix of the unpinned blocks that frees at least so many bytes.\<close>

fun spec_victims :: "nat \<Rightarrow> (string \<times> nat) list \<Rightarrow> string list" where
  "spec_victims need [] = []"
| "spec_victims need ((cid, n) # xs) = cid # (if need \<le> n then [] else spec_victims (need - n) xs)"

lemma lru_loop_spec:
  assumes "\<forall>p \<in> set xs. hm_get metas (snd p) \<noteq> None"
  shows "lru_loop pins metas xs need =
    spec_victims need (filter (\<lambda>p. fst p \<notin> pins) (map (\<lambda>(_, c). (c, case hm_get metas c of None \<Rightarrow> 0 | Some x \<Rightarrow> bm_size x)) xs))"
  using assms by (induction pins metas xs need rule: lru_loop.induct) (auto simp: Let_def)

lemma eviction_spec:
  assumes "manager_ok m"
  shows "eviction_candidates m = (if current_usage m \<le> max_capacity_bytes m then []
    else spec_victims (current_usage m - max_capacity_bytes m) (filter (\<lambda>p. fst p \<notin> pinned m) (recency m)))"
proof -
  have "\<forall>p \<in> set (lru_index m). hm_get (blocks_meta m) (snd p) \<noteq> None"
    using manager_okD(4) [OF assms] by fastforce
  from lru_loop_spec [OF this] show ?thesis
    by (simp add: eviction_candidates_def recency_def size_of_block_def)
qed

lemma spec_victims_prefix: "\<exists>k. spec_victims need xs = map fst (take k xs)"
proof (induction need xs rule: spec_victims.induct)
  case (2 need cid n xs)
  show ?case
  proof (cases "need \<le> n")
    case True
    then show ?thesis by (intro exI [of _ 1]) simp
  next
    case False
    with 2 obtain k where "spec_victims (need - n) xs = map fst (take k xs)" by auto
    with False show ?thesis by (intro exI [of _ "Suc k"]) simp
  qed
qed simp

lemma spec_victims_enough:
  "need \<le> sum_list (map snd (take (length (spec_victims need xs)) xs)) \<or> length (spec_victims need xs) = length xs"
  by (induction need xs rule: spec_victims.induct) auto

lemma spec_victims_minimal:
  "k < length (spec_victims need xs) \<Longrightarrow> 0 < need \<Longrightarrow> sum_list (map snd (take k xs)) < need"
proof (induction need xs arbitrary: k rule: spec_victims.induct)
  case (2 need cid n xs)
  show ?case
  proof (cases k)
    case (Suc j)
    with "2.prems" have "\<not> need \<le> n" "j < length (spec_victims (need - n) xs)" by (auto split: if_splits)
    with "2.IH" [of j] have "sum_list (map snd (take j xs)) < need - n" by simp
    with Suc show ?thesis by simp
  qed (use "2.prems" in simp)
qed simp

lemma sum_split_prefix:
  fixes xs :: "(string \<times> nat) list"
  assumes "distinct (map fst xs)" and "ys = take k (filter P xs)" and "set vs = fst ` set ys"
  shows "sum_list (map snd (filter (\<lambda>p. fst p \<notin> set vs) xs)) + sum_list (map snd ys) = sum_list (map snd xs)"
proof -
  have d: "distinct xs" using assms(1) by (simp add: distinct_map)
  have ys: "set ys \<subseteq> set xs" "distinct ys" using assms(2) d by (auto dest: in_set_takeD)
  have "fst p \<in> set vs \<longleftrightarrow> p \<in> set ys" if "p \<in> set xs" for p
    using that ys(1) assms(1,3) by (auto simp: distinct_map inj_on_def)
  then have "set (filter (\<lambda>p. fst p \<notin> set vs) xs) = set xs - set ys" by auto
  then show ?thesis
    using d ys sum.subset_diff [OF ys(1), of snd] by (simp add: sum_list_distinct_conv_sum_set)
qed

text \<open>Removing the victims one by one.\<close>

definition untrack_all :: "string list \<Rightarrow> 'p storage_manager \<Rightarrow> 'p storage_manager" where
  "untrack_all cids m = fold (\<lambda>c m. snd (untrack_block c m)) cids m"

lemma untrack_all_refines:
  "manager_ok m \<Longrightarrow> recency (untrack_all cids m) = filter (\<lambda>p. fst p \<notin> set cids) (recency m)
     \<and> manager_ok (untrack_all cids m) \<and> pinned (untrack_all cids m) = pinned m
     \<and> max_capacity_bytes (untrack_all cids m) = max_capacity_bytes m"
proof (induction cids arbitrary: m)
  case Nil
  then show ?case by (simp add: untrack_all_def)
next
  case (Cons c cids)
  have "pinned (snd (untrack_block c m)) = pinned m" "max_capacity_bytes (snd (untrack_block c m)) = max_capacity_bytes m"
    by (simp_all add: untrack_block_def split: option.splits)
  with Cons.IH [of "snd (untrack_block c m)"] untrack_refines [OF Cons.prems, of c]
  show ?case by (auto simp: untrack_all_def spec_untrack_def intro!: filter_cong)
qed

text \<open>After the victims are gone usage is within the capacity, or only pinned blocks are left.\<close>

lemma victims_prefix:
  assumes "manager_ok m" and "\<not> current_usage m \<le> max_capacity_bytes m"
  defines "free \<equiv> filter (\<lambda>p. fst p \<notin> pinned m) (recency m)" and "victims \<equiv> eviction_candidates m"
  shows "victims = spec_victims (current_usage m - max_capacity_bytes m) free" and "victims = map fst (take (length victims) free)"
proof -
  show v: "victims = spec_victims (current_usage m - max_capacity_bytes m) free"
    using assms(2) by (simp add: victims_def free_def eviction_spec [OF assms(1)])
  then obtain k where "victims = map fst (take k free)" using spec_victims_prefix [of _ free] by metis
  then show "victims = map fst (take (length victims) free)" by (cases "k \<le> length free") auto
qed

lemma eviction_suffices:
  assumes "manager_ok m"
  shows "current_usage (untrack_all (eviction_candidates m) m) \<le> max_capacity_bytes m
    \<or> fst ` set (recency (untrack_all (eviction_candidates m) m)) \<subseteq> pinned m"
proof (cases "current_usage m \<le> max_capacity_bytes m")
  case True
  then show ?thesis by (simp add: eviction_candidates_def untrack_all_def)
next
  case False
  let ?need = "current_usage m - max_capacity_bytes m"
  define free where "free = filter (\<lambda>p. fst p \<notin> pinned m) (recency m)"
  define victims where "victims = eviction_candidates m"
  note v = victims_prefix(1) [OF assms False, folded free_def victims_def] and pre = victims_prefix(2) [OF assms False, folded free_def victims_def]
  note un = untrack_all_refines [OF assms, of victims]
  have d: "distinct (map fst (recency m))" using lru_distinct [OF assms] by (simp add: recency_keys)
  have usage: "current_usage (untrack_all victims m) = sum_list (map snd (filter (\<lambda>p. fst p \<notin> set victims) (recency m)))"
    using un manager_okD(6) by metis
  have "sum_list (map snd (filter (\<lambda>p. fst p \<notin> set victims) (recency m))) + sum_list (map snd (take (length victims) free)) = current_usage m"
    unfolding manager_okD(6) [OF assms] by (rule sum_split_prefix [OF d, of _ "length victims" "\<lambda>p. fst p \<notin> pinned m"])
      (simp add: free_def, metis pre set_map)
  with usage have *: "current_usage (untrack_all victims m) + sum_list (map snd (take (length victims) free)) = current_usage m" by simp
  from spec_victims_enough [of ?need free] show ?thesis
  proof
    assume "?need \<le> sum_list (map snd (take (length (spec_victims ?need free)) free))"
    then have "?need \<le> sum_list (map snd (take (length victims) free))" by (simp only: v)
    with * have "current_usage (untrack_all victims m) \<le> max_capacity_bytes m" by linarith
    then show ?thesis by (simp add: victims_def)
  next
    assume "length (spec_victims ?need free) = length free"
    with pre have "set victims = fst ` set free" by (simp add: v flip: set_map)
    then show ?thesis using un by (force simp: free_def victims_def)
  qed
qed

section \<open>Request admission\<close>

definition work_ok :: "'d peer_work \<Rightarrow> bool" where
  "work_ok w \<longleftrightarrow> 0 < pw_active w \<and> pw_active w \<le> 4 \<and> length (pw_pending w) \<le> 64 \<and> (pw_pending w \<noteq> [] \<longrightarrow> pw_active w = 4)"

definition want_ok :: "('k, 'd) want_queue \<Rightarrow> bool" where
  "want_ok q \<longleftrightarrow> hm_ok q \<and> (\<forall>k w. hm_get q k = Some w \<longrightarrow> work_ok w)"

lemma want_ok_insert: "want_ok q \<Longrightarrow> work_ok w \<Longrightarrow> want_ok (hm_insert k w q)"
  by (simp add: want_ok_def)

lemma want_ok_remove: "want_ok q \<Longrightarrow> want_ok (hm_remove k q)"
  by (simp add: want_ok_def)

datatype ('k, 'd) want_op = Enqueue 'k 'd | NextOf 'k

text \<open>
  A run: the descriptors handed to workers (started at once, or taken over by a worker that finished
  one), and the descriptors that were not dropped, with their peer.
\<close>

fun want_step :: "('k, 'd) want_op \<Rightarrow> ('k, 'd) want_queue \<Rightarrow> ('k \<times> 'd) list \<times> ('k \<times> 'd) list \<times> ('k, 'd) want_queue" where
  "want_step (Enqueue k d) q =
     (let (res, q) = want_enqueue k d q
      in (case res of Start d \<Rightarrow> [(k, d)] | _ \<Rightarrow> [], case res of Dropped \<Rightarrow> [] | _ \<Rightarrow> [(k, d)], q))"
| "want_step (NextOf k) q =
     (let (res, q) = want_next k q in (case res of Some d \<Rightarrow> [(k, d)] | None \<Rightarrow> [], [], q))"

fun want_queue_run :: "('k, 'd) want_op list \<Rightarrow> ('k, 'd) want_queue \<Rightarrow> ('k \<times> 'd) list \<times> ('k \<times> 'd) list \<times> ('k, 'd) want_queue" where
  "want_queue_run [] q = ([], [], q)"
| "want_queue_run (x # xs) q =
     (let (started, accepted, q) = want_step x q; (s, a, q) = want_queue_run xs q in (started @ s, accepted @ a, q))"

definition pending_of :: "'k \<Rightarrow> ('k, 'd) want_queue \<Rightarrow> 'd list" where
  "pending_of k q = (case hm_get q k of None \<Rightarrow> [] | Some w \<Rightarrow> pw_pending w)"

definition of_peer :: "'k \<Rightarrow> ('k \<times> 'd) list \<Rightarrow> 'd list" where
  "of_peer k xs = map snd (filter (\<lambda>p. fst p = k) xs)"

lemma of_peer_simps [simp]: "of_peer k [] = []" "of_peer k (xs @ ys) = of_peer k xs @ of_peer k ys"
  "of_peer k (p # xs) = (if fst p = k then snd p # of_peer k xs else of_peer k xs)"
  by (simp_all add: of_peer_def)

lemma pending_of_simps [simp]:
  "pending_of k (hm_insert i w q) = (if k = i then pw_pending w else pending_of k q)"
  "pending_of k (hm_remove i q) = (if k = i then [] else pending_of k q)"
  by (simp_all add: pending_of_def)

lemma want_step_props:
  assumes ok: "want_ok q" and step: "want_step x q = (started, accepted, q')"
  shows "want_ok q'" and "of_peer k started @ pending_of k q' = pending_of k q @ of_peer k accepted"
proof -
  have "want_ok q' \<and> of_peer k started @ pending_of k q' = pending_of k q @ of_peer k accepted"
  proof (cases x)
    case (Enqueue i d)
    define w where "w = (case hm_get q i of None \<Rightarrow> \<lparr>pw_active = 0, pw_pending = []\<rparr> | Some w \<Rightarrow> w)"
    have w: "pw_active w \<le> 4" "length (pw_pending w) \<le> 64" "pw_pending w = [] \<or> pw_active w = 4" "pending_of i q = pw_pending w"
      using ok by (auto simp: w_def want_ok_def work_ok_def pending_of_def split: option.splits)
    have "want_enqueue i d q =
        (if pw_active w < 4 then (Start d, hm_insert i (w\<lparr>pw_active := pw_active w + 1\<rparr>) q)
         else if length (pw_pending w) < 64 then (Queued, hm_insert i (w\<lparr>pw_pending := pw_pending w @ [d]\<rparr>) q)
         else (Dropped, hm_insert i w q))"
      by (simp add: want_enqueue_def w_def Let_def)
    then show ?thesis
      using step Enqueue w ok by (cases "pw_active w < 4"; cases "length (pw_pending w) < 64")
        (auto simp: work_ok_def intro!: want_ok_insert)
  next
    case (NextOf i)
    show ?thesis
    proof (cases "hm_get q i")
      case None
      with step NextOf ok show ?thesis by (auto simp: want_next_def)
    next
      case (Some w)
      then have w: "work_ok w" "pending_of i q = pw_pending w" using ok by (auto simp: want_ok_def pending_of_def)
      with step NextOf ok Some show ?thesis
        by (cases "pw_pending w") (auto simp: want_next_def work_ok_def Let_def intro!: want_ok_insert want_ok_remove split: if_splits)
    qed
  qed
  then show "want_ok q'" "of_peer k started @ pending_of k q' = pending_of k q @ of_peer k accepted" by auto
qed

lemma want_queue_run_props:
  "want_ok q \<Longrightarrow> want_queue_run xs q = (started, accepted, q') \<Longrightarrow>
     want_ok q' \<and> of_peer k started @ pending_of k q' = pending_of k q @ of_peer k accepted"
proof (induction xs arbitrary: q started accepted)
  case Nil
  then show ?case by auto
next
  case (Cons x xs)
  obtain s1 a1 q1 where st: "want_step x q = (s1, a1, q1)" by (metis prod_cases3)
  obtain s2 a2 where run: "want_queue_run xs q1 = (s2, a2, q')" "started = s1 @ s2" "accepted = a1 @ a2"
    using Cons.prems(2) st by (auto split: prod.splits)
  note ok1 = want_step_props(1) [OF Cons.prems(1) st] and step = want_step_props(2) [OF Cons.prems(1) st, of k]
  from Cons.IH [OF ok1 run(1)] step show ?case by (simp add: run)
qed

section \<open>Properties\<close>

datatype 'p manager_op = TrackOp string nat "'p option" | TouchOp string | UntrackOp string | PinOp "string set"

fun manager_step :: "'p manager_op \<Rightarrow> 'p storage_manager \<Rightarrow> 'p storage_manager" where
  "manager_step (TrackOp cid len pos) m = snd (track_block cid len pos m)"
| "manager_step (TouchOp cid) m = manager_touch cid m"
| "manager_step (UntrackOp cid) m = snd (untrack_block cid m)"
| "manager_step (PinOp cids) m = set_pinned cids m"

fun spec_step :: "'p manager_op \<Rightarrow> (string \<times> nat) list \<Rightarrow> (string \<times> nat) list" where
  "spec_step (TrackOp cid len pos) xs = spec_track cid len xs"
| "spec_step (TouchOp cid) xs = spec_refresh cid xs"
| "spec_step (UntrackOp cid) xs = spec_untrack cid xs"
| "spec_step (PinOp cids) xs = xs"

lemma manager_step_refines: "manager_ok m \<Longrightarrow> recency (manager_step x m) = spec_step x (recency m) \<and> manager_ok (manager_step x m)"
  by (cases x) (auto simp: track_refines touch_refines untrack_refines)

interpretation manager_machine: step_machine "\<lambda>m x. manager_step x m" manager_ok "\<lambda>_. True"
  by unfold_locales (simp add: manager_step_refines)


text \<open>
  Property C31. Eviction frees enough, no more than needed, oldest first, and never a pinned block: the
  victims are the shortest prefix of the unpinned blocks in least-recently-used order that brings the
  usage back under the capacity; after they are gone the usage is within the capacity or only pinned
  blocks are left.
\<close>

theorem eviction_shortest_lru_prefix:
  assumes "manager_ok m"
  defines "free \<equiv> filter (\<lambda>p. fst p \<notin> pinned m) (recency m)" and "victims \<equiv> eviction_candidates m"
  shows "victims = map fst (take (length victims) free)
    \<and> (\<forall>k < length victims. max_capacity_bytes m < current_usage m - sum_list (map snd (take k free)))
    \<and> (current_usage (untrack_all victims m) \<le> max_capacity_bytes m \<or> fst ` set (recency (untrack_all victims m)) \<subseteq> pinned m)"
proof (cases "current_usage m \<le> max_capacity_bytes m")
  case True
  then show ?thesis by (simp add: victims_def eviction_spec [OF assms(1)] untrack_all_def)
next
  case False
  let ?need = "current_usage m - max_capacity_bytes m"
  note v = victims_prefix(1) [OF assms(1) False, folded free_def victims_def] and pre = victims_prefix(2) [OF assms(1) False, folded free_def victims_def]
  moreover have "max_capacity_bytes m < current_usage m - sum_list (map snd (take k free))" if "k < length victims" for k
    using spec_victims_minimal [of k ?need free] that False v by auto
  ultimately show ?thesis using pre eviction_suffices [OF assms(1)] by (simp add: victims_def)
qed

theorem eviction_shortest_lru_prefix_witness:
  "eviction_candidates (foldl (\<lambda>m x. manager_step x m) (manager_new 10)
      [TrackOp ''a'' 6 (None :: unit option), TrackOp ''b'' 3 None, TrackOp ''c'' 4 None, TouchOp ''a'', PinOp {''b''}]) = [''c'']"
proof -
  let ?m = "foldl (\<lambda>m x. manager_step x m) (manager_new 10)
      [TrackOp ''a'' 6 (None :: unit option), TrackOp ''b'' 3 None, TrackOp ''c'' 4 None, TouchOp ''a'', PinOp {''b''}]"
  have ok: "manager_ok ?m" by (rule manager_machine.run_inv) simp_all
  have "length (eviction_candidates ?m) = 1" "take 1 (filter (\<lambda>p. fst p \<notin> pinned ?m) (recency ?m)) = [(''c'', 4)]" by code_simp+
  then show ?thesis using eviction_shortest_lru_prefix [OF ok] by simp
qed



end
