(* ===== verification/Storage_Engine.thy ===== *)
theory Storage_Engine
  imports Storage_Manager
begin

text \<open>
  The storage engine of \<open>storage/engine.rs\<close>: adding and reading files in blocks, capacity
  enforcement, the decay sweep and pinning. The block store and the metadata store are maps whose
  operations may fail; the peer resolver, the hash, the CBOR and JSON texts and the f32 spatial
  arithmetic are fields of \<open>storage_io\<close>. A write or a fetch that is in flight completes as a whole when it
  is picked, and which of them completes next is any function of the ones in flight (\<open>io_pick\<close>,
  \<open>io_pick_fetch\<close>). One operation runs at a time.
\<close>

section \<open>State\<close>

record ('p, 's) storage_io =
  io_store :: "string \<Rightarrow> unit result"
  io_load :: "string \<Rightarrow> unit result"
  io_delete :: "string \<Rightarrow> unit result"
  io_meta_get :: "unit result"
  io_meta_set :: "unit result"
  io_resolve :: "string \<Rightarrow> bytes option result"
  io_positions :: "'p list"
  io_sha256 :: "bytes \<Rightarrow> bytes"
  io_varint :: "nat \<Rightarrow> bytes"
  io_to_cbor :: "file_manifest \<Rightarrow> bytes result"
  io_from_cbor :: "bytes \<Rightarrow> file_manifest result"
  io_to_json :: "pin_registry \<Rightarrow> bytes result"
  io_from_json :: "bytes \<Rightarrow> pin_registry result"
  io_bad_version :: "nat \<Rightarrow> string"
  io_score :: "'p list \<Rightarrow> nat \<Rightarrow> 'p block_meta \<Rightarrow> 's"
  io_target :: "nat \<Rightarrow> nat"
  io_near :: "'p list \<Rightarrow> 'p \<Rightarrow> bool"
  io_roll :: "'p list \<Rightarrow> 'p \<Rightarrow> string \<Rightarrow> nat \<Rightarrow> bool"
  io_pick :: "(string \<times> bytes) list \<Rightarrow> nat"
  io_pick_fetch :: "(nat \<times> string) list \<Rightarrow> nat"
  io_get_concurrency :: nat

record 'p storage_engine =
  se_blocks :: "(string, bytes) hmap"
  se_has_meta :: bool
  se_meta :: "bytes option"
  se_manager :: "'p storage_manager"
  se_registry :: pin_registry
  se_registry_loaded :: bool
  se_sweep_counter :: nat

definition engine_with :: "nat \<Rightarrow> bool \<Rightarrow> (string, bytes) hmap \<Rightarrow> bytes option \<Rightarrow> 'p storage_engine" where
  "engine_with capacity has_meta blocks meta =
     \<lparr>se_blocks = blocks, se_has_meta = has_meta, se_meta = meta, se_manager = manager_new capacity, se_registry = pins_new,
      se_registry_loaded = False, se_sweep_counter = 0\<rparr>"

text \<open>The calls to the block store and to the manager behind its lock.\<close>

definition load_block :: "('p, 's) storage_io \<Rightarrow> string \<Rightarrow> 'p storage_engine \<Rightarrow> bytes option result" where
  "load_block io cid s = (case io_load io cid of Inl e \<Rightarrow> Inl e | Inr _ \<Rightarrow> Inr (hm_get (se_blocks s) cid))"

definition store_block :: "('p, 's) storage_io \<Rightarrow> string \<Rightarrow> bytes \<Rightarrow> 'p storage_engine \<Rightarrow> unit result \<times> 'p storage_engine" where
  "store_block io cid data s =
     (case io_store io cid of Inl e \<Rightarrow> (Inl e, s) | Inr _ \<Rightarrow> (Inr (), s\<lparr>se_blocks := hm_insert cid data (se_blocks s)\<rparr>))"

definition delete_block :: "('p, 's) storage_io \<Rightarrow> string \<Rightarrow> 'p storage_engine \<Rightarrow> unit result \<times> 'p storage_engine" where
  "delete_block io cid s =
     (case io_delete io cid of Inl e \<Rightarrow> (Inl e, s) | Inr _ \<Rightarrow> (Inr (), s\<lparr>se_blocks := hm_remove cid (se_blocks s)\<rparr>))"

definition with_manager :: "('p storage_manager \<Rightarrow> 'p storage_manager) \<Rightarrow> 'p storage_engine \<Rightarrow> 'p storage_engine" where
  "with_manager f s = s\<lparr>se_manager := f (se_manager s)\<rparr>"

definition get_block :: "('p, 's) storage_io \<Rightarrow> string \<Rightarrow> 'p storage_engine \<Rightarrow> bytes option result \<times> 'p storage_engine" where
  "get_block io cid s =
     (case load_block io cid s of
        Inl e \<Rightarrow> (Inl e, s)
      | Inr None \<Rightarrow> (Inr None, s)
      | Inr (Some data) \<Rightarrow> (Inr (Some data), with_manager (manager_touch cid) s))"

definition resolve_auto_position :: "('p, 's) storage_io \<Rightarrow> 'p option" where
  "resolve_auto_position io = (case io_positions io of [] \<Rightarrow> None | p # _ \<Rightarrow> Some p)"

section \<open>Pin registry persistence\<close>

definition ensure_pin_registry_loaded :: "('p, 's) storage_io \<Rightarrow> 'p storage_engine \<Rightarrow> unit result \<times> 'p storage_engine" where
  "ensure_pin_registry_loaded io s =
     (if se_registry_loaded s then (Inr (), s)
      else if \<not> se_has_meta s then (Inr (), s)
      else case io_meta_get io of
             Inl e \<Rightarrow> (Inl e, s)
           | Inr _ \<Rightarrow>
               (case se_meta s of
                  None \<Rightarrow> (Inr (), s\<lparr>se_registry_loaded := True\<rparr>)
                | Some bytes \<Rightarrow>
                    (case pins_from_json (io_from_json io) (io_bad_version io) bytes of
                       Inl e \<Rightarrow> (Inl e, s)
                     | Inr registry \<Rightarrow>
                         (Inr (), (with_manager (set_pinned (pinned_cids registry)) s)
                            \<lparr>se_registry := registry, se_registry_loaded := True\<rparr>))))"

definition meta_set_pins :: "('p, 's) storage_io \<Rightarrow> bytes \<Rightarrow> 'p storage_engine \<Rightarrow> unit result \<times> 'p storage_engine" where
  "meta_set_pins io bytes s = (case io_meta_set io of Inl e \<Rightarrow> (Inl e, s) | Inr _ \<Rightarrow> (Inr (), s\<lparr>se_meta := Some bytes\<rparr>))"

definition persist_pin_registry :: "('p, 's) storage_io \<Rightarrow> 'p storage_engine \<Rightarrow> unit result \<times> 'p storage_engine" where
  "persist_pin_registry io s =
     (case pins_to_json (io_to_json io) (se_registry s) of
        Inl e \<Rightarrow> (Inl e, s)
      | Inr bytes \<Rightarrow> meta_set_pins io bytes s)"

section \<open>Capacity\<close>

text \<open>The loop that deletes and untracks the victims; an I/O error ends it.\<close>

fun delete_victims :: "('p, 's) storage_io \<Rightarrow> string list \<Rightarrow> 'p storage_engine \<Rightarrow> unit result \<times> 'p storage_engine" where
  "delete_victims io [] s = (Inr (), s)"
| "delete_victims io (cid # cids) s =
     (case delete_block io cid s of
        (Inl e, s) \<Rightarrow> (Inl e, s)
      | (Inr _, s) \<Rightarrow> delete_victims io cids (with_manager (\<lambda>m. snd (untrack_block cid m)) s))"

definition capacity_victims :: "('p, 's::linorder) storage_io \<Rightarrow> 'p storage_engine \<Rightarrow> string list" where
  "capacity_victims io s =
     (if io_positions io = [] then eviction_candidates (se_manager s)
      else spatial_eviction_candidates (io_score io) (io_target io) (io_positions io) (se_manager s))"

definition enforce_capacity_limit :: "('p, 's::linorder) storage_io \<Rightarrow> 'p storage_engine \<Rightarrow> unit result \<times> 'p storage_engine" where
  "enforce_capacity_limit io s =
     (let (loaded, s) = (if current_usage (se_manager s) > max_capacity_bytes (se_manager s)
                         then ensure_pin_registry_loaded io s else (Inr (), s))
      in case loaded of Inl e \<Rightarrow> (Inl e, s) | Inr _ \<Rightarrow> delete_victims io (capacity_victims io s) s)"

fun decay_victims :: "('p, 's) storage_io \<Rightarrow> string list \<Rightarrow> nat \<Rightarrow> 'p storage_engine \<Rightarrow> nat \<times> 'p storage_engine" where
  "decay_victims io [] evicted s = (evicted, s)"
| "decay_victims io (cid # cids) evicted s =
     (case delete_block io cid s of
        (Inr _, s) \<Rightarrow> decay_victims io cids (evicted + 1) (with_manager (\<lambda>m. snd (untrack_block cid m)) s)
      | (Inl e, s) \<Rightarrow> decay_victims io cids evicted s)"

definition run_decay_sweep :: "('p, 's) storage_io \<Rightarrow> 'p storage_engine \<Rightarrow> nat \<times> 'p storage_engine" where
  "run_decay_sweep io s =
     (if io_positions io = [] then (0, s)
      else case ensure_pin_registry_loaded io s of
             (Inl e, s) \<Rightarrow> (0, s)
           | (Inr _, s) \<Rightarrow>
               let sweep = se_sweep_counter s + 1;
                   s = s\<lparr>se_sweep_counter := sweep\<rparr>
               in decay_victims io (decay_candidates (io_near io) (io_roll io) (io_positions io) sweep (se_manager s)) 0 s)"

section \<open>Reading and fetching blocks\<close>

definition unavailable :: "string \<Rightarrow> mist_error" where
  "unavailable cid = Network (''Block unavailable locally; peer transfer failed or no provider answered: '' @ cid)"

definition resolve_or_fetch ::
  "('p, 's::linorder) storage_io \<Rightarrow> string \<Rightarrow> nat \<Rightarrow> 'p storage_engine \<Rightarrow> bytes result \<times> 'p storage_engine" where
  "resolve_or_fetch io cid codec s =
     (case load_block io cid s of
        Inl e \<Rightarrow> (Inl e, s)
      | Inr (Some data) \<Rightarrow> (Inr data, with_manager (manager_touch cid) s)
      | Inr None \<Rightarrow>
          (case io_resolve io cid of
             Inl e \<Rightarrow> (Inl e, s)
           | Inr None \<Rightarrow> (Inl (unavailable cid), s)
           | Inr (Some data) \<Rightarrow>
               if \<not> verify_cid (io_sha256 io) (io_varint io) cid data codec then (Inl (Internal ''Hash mismatch''), s)
               else
                 let s = with_manager (\<lambda>m. snd (track_block cid (length data) (resolve_auto_position io) m)) s
                 in case enforce_capacity_limit io s of
                      (Inl e, s) \<Rightarrow> (Inl e, s)
                    | (Inr _, s) \<Rightarrow>
                        (case store_block io cid data s of
                           (Inl e, s) \<Rightarrow> (Inl e, s)
                         | (Inr _, s) \<Rightarrow> (Inr data, s))))"

section \<open>Adding files\<close>

text \<open>\<open>data.chunks(n)\<close>.\<close>

function data_chunks :: "nat \<Rightarrow> 'a list \<Rightarrow> 'a list list" where
  "data_chunks n xs = (if xs = [] \<or> n = 0 then [] else take n xs # data_chunks n (drop n xs))"
  by pat_completeness auto
termination by (relation "measure (\<lambda>(_, xs). length xs)") auto

declare data_chunks.simps [simp del]

definition WRITE_CONCURRENCY :: nat where "WRITE_CONCURRENCY = 4"

definition remove_at_index :: "nat \<Rightarrow> 'a list \<Rightarrow> 'a list" where
  "remove_at_index i xs = take i xs @ drop (Suc i) xs"

text \<open>One write completes: it is tracked only now, and the capacity is enforced.\<close>

definition complete_write ::
  "('p, 's::linorder) storage_io \<Rightarrow> 'p option \<Rightarrow> (string \<times> bytes) list \<Rightarrow> 'p storage_engine
   \<Rightarrow> unit result \<times> (string \<times> bytes) list \<times> 'p storage_engine" where
  "complete_write io position writes s =
     (let i = io_pick io writes mod length writes;
          (cid, chunk) = writes ! i;
          writes = remove_at_index i writes
      in case store_block io cid chunk s of
           (Inl e, s) \<Rightarrow> (Inl e, writes, s)
         | (Inr _, s) \<Rightarrow>
             let s = with_manager (\<lambda>m. snd (track_block cid (length chunk) position m)) s;
                 (res, s) = enforce_capacity_limit io s
             in (res, writes, s))"

fun submit_writes ::
  "('p, 's::linorder) storage_io \<Rightarrow> 'p option \<Rightarrow> bytes list \<Rightarrow> (string \<times> bytes) list \<Rightarrow> 'p storage_engine
   \<Rightarrow> unit result \<times> (string \<times> bytes) list \<times> 'p storage_engine" where
  "submit_writes io position [] writes s = (Inr (), writes, s)"
| "submit_writes io position (chunk # chunks) writes s =
     (let cid = compute_cid (io_sha256 io) (io_varint io) chunk MULTICODEC_RAW;
          writes = writes @ [(cid, chunk)]
      in if length writes \<ge> WRITE_CONCURRENCY then
           (case complete_write io position writes s of
              (Inl e, writes, s) \<Rightarrow> (Inl e, writes, s)
            | (Inr _, writes, s) \<Rightarrow> submit_writes io position chunks writes s)
         else submit_writes io position chunks writes s)"

lemma remove_at_index_length [simp]: "i < length xs \<Longrightarrow> length (remove_at_index i xs) = length xs - 1"
  by (simp add: remove_at_index_def)

lemma complete_write_writes:
  "fst (snd (complete_write io position writes s)) = remove_at_index (io_pick io writes mod length writes) writes"
  by (simp add: complete_write_def case_prod_beta Let_def split: sum.splits prod.splits)

function drain_writes ::
  "('p, 's::linorder) storage_io \<Rightarrow> 'p option \<Rightarrow> (string \<times> bytes) list \<Rightarrow> 'p storage_engine \<Rightarrow> unit result \<times> 'p storage_engine" where
  "drain_writes io position writes s =
     (if writes = [] then (Inr (), s)
      else case complete_write io position writes s of
             (Inl e, writes, s) \<Rightarrow> (Inl e, s)
           | (Inr _, writes, s) \<Rightarrow> drain_writes io position writes s)"
  by pat_completeness auto
termination
proof (relation "measure (\<lambda>(_, _, writes, _). length writes)", goal_cases)
  case 1
  then show ?case by simp
next
  case (2 io position writes s r y res ws s')
  then have "ws = remove_at_index (io_pick io writes mod length writes) writes"
    using complete_write_writes [of io position writes s] by (metis fst_conv snd_conv)
  with 2 show ?case by auto
qed

declare drain_writes.simps [simp del]

definition add_at_inner ::
  "('p, 's::linorder) storage_io \<Rightarrow> string \<Rightarrow> bytes \<Rightarrow> 'p option \<Rightarrow> 'p storage_engine
   \<Rightarrow> (string \<times> string list) result \<times> 'p storage_engine" where
  "add_at_inner io name data position s =
     (let position = (case position of Some p \<Rightarrow> Some p | None \<Rightarrow> resolve_auto_position io);
          chunks = data_chunks CHUNK_SIZE data;
          chunk_cids = map (\<lambda>c. compute_cid (io_sha256 io) (io_varint io) c MULTICODEC_RAW) chunks
      in case submit_writes io position chunks [] s of
           (Inl e, _, s) \<Rightarrow> (Inl e, s)
         | (Inr _, writes, s) \<Rightarrow>
             (case drain_writes io position writes s of
                (Inl e, s) \<Rightarrow> (Inl e, s)
              | (Inr _, s) \<Rightarrow>
                  (case io_to_cbor io \<lparr>fm_name = name, fm_size = length data, fm_chunks = chunk_cids\<rparr> of
                     Inl e \<Rightarrow> (Inl e, s)
                   | Inr manifest_bytes \<Rightarrow>
                       let root_cid = compute_cid (io_sha256 io) (io_varint io) manifest_bytes MULTICODEC_DAG_CBOR
                       in case store_block io root_cid manifest_bytes s of
                            (Inl e, s) \<Rightarrow> (Inl e, s)
                          | (Inr _, s) \<Rightarrow>
                              (case enforce_capacity_limit io
                                      (with_manager (\<lambda>m. snd (track_block root_cid (length manifest_bytes) position m)) s) of
                                 (Inl e, s) \<Rightarrow> (Inl e, s)
                               | (Inr _, s) \<Rightarrow> (Inr (root_cid, chunk_cids), s)))))"

definition add_at ::
  "('p, 's::linorder) storage_io \<Rightarrow> string \<Rightarrow> bytes \<Rightarrow> 'p option \<Rightarrow> 'p storage_engine \<Rightarrow> string result \<times> 'p storage_engine" where
  "add_at io name data position s =
     (case add_at_inner io name data position s of (Inl e, s) \<Rightarrow> (Inl e, s) | (Inr (root, _), s) \<Rightarrow> (Inr root, s))"

definition add :: "('p, 's::linorder) storage_io \<Rightarrow> string \<Rightarrow> bytes \<Rightarrow> 'p storage_engine \<Rightarrow> string result \<times> 'p storage_engine" where
  "add io name data s = add_at io name data None s"

section \<open>Reading files\<close>

text \<open>The \<open>drain\<close> closure of \<open>get\<close>.\<close>

function get_drain :: "bytes \<Rightarrow> (nat, bytes) btmap \<Rightarrow> nat \<Rightarrow> bytes \<times> (nat, bytes) btmap \<times> nat" where
  "get_drain result pending next_index =
     (case bt_get pending next_index of
        None \<Rightarrow> (result, pending, next_index)
      | Some chunk \<Rightarrow> get_drain (result @ chunk) (bt_remove next_index pending) (next_index + 1))"
  by pat_completeness auto
termination by (relation "measure (\<lambda>(_, pending, _). length pending)") (auto intro: bt_remove_less)

declare get_drain.simps [simp del]

definition take_result :: "nat \<Rightarrow> bytes \<Rightarrow> bytes \<times> (nat, bytes) btmap \<times> nat \<Rightarrow> bytes \<times> (nat, bytes) btmap \<times> nat" where
  "take_result idx data = (\<lambda>(result, pending, next_index).
     if idx = next_index then get_drain (result @ data) pending (next_index + 1)
     else (result, bt_insert idx data pending, next_index))"

definition complete_fetch ::
  "('p, 's::linorder) storage_io \<Rightarrow> (nat \<times> string) list \<Rightarrow> bytes \<times> (nat, bytes) btmap \<times> nat \<Rightarrow> 'p storage_engine
   \<Rightarrow> unit result \<times> (nat \<times> string) list \<times> (bytes \<times> (nat, bytes) btmap \<times> nat) \<times> 'p storage_engine" where
  "complete_fetch io futures acc s =
     (let i = io_pick_fetch io futures mod length futures;
          (idx, cid) = futures ! i;
          futures = remove_at_index i futures
      in case resolve_or_fetch io cid MULTICODEC_RAW s of
           (Inl e, s) \<Rightarrow> (Inl e, futures, acc, s)
         | (Inr data, s) \<Rightarrow> (Inr (), futures, take_result idx data acc, s))"

fun submit_fetches ::
  "('p, 's::linorder) storage_io \<Rightarrow> (nat \<times> string) list \<Rightarrow> (nat \<times> string) list \<Rightarrow> bytes \<times> (nat, bytes) btmap \<times> nat \<Rightarrow> 'p storage_engine
   \<Rightarrow> unit result \<times> (nat \<times> string) list \<times> (bytes \<times> (nat, bytes) btmap \<times> nat) \<times> 'p storage_engine" where
  "submit_fetches io [] futures acc s = (Inr (), futures, acc, s)"
| "submit_fetches io (x # xs) futures acc s =
     (let futures = futures @ [x]
      in if length futures \<ge> min 64 (max 1 (io_get_concurrency io)) then
           (case complete_fetch io futures acc s of
              (Inl e, futures, acc, s) \<Rightarrow> (Inl e, futures, acc, s)
            | (Inr _, futures, acc, s) \<Rightarrow> submit_fetches io xs futures acc s)
         else submit_fetches io xs futures acc s)"

lemma complete_fetch_futures:
  "fst (snd (complete_fetch io futures acc s)) = remove_at_index (io_pick_fetch io futures mod length futures) futures"
  by (simp add: complete_fetch_def case_prod_beta Let_def split: sum.splits prod.splits)

function drain_fetches ::
  "('p, 's::linorder) storage_io \<Rightarrow> (nat \<times> string) list \<Rightarrow> bytes \<times> (nat, bytes) btmap \<times> nat \<Rightarrow> 'p storage_engine
   \<Rightarrow> unit result \<times> (bytes \<times> (nat, bytes) btmap \<times> nat) \<times> 'p storage_engine" where
  "drain_fetches io futures acc s =
     (if futures = [] then (Inr (), acc, s)
      else case complete_fetch io futures acc s of
             (Inl e, futures, acc, s) \<Rightarrow> (Inl e, acc, s)
           | (Inr _, futures, acc, s) \<Rightarrow> drain_fetches io futures acc s)"
  by pat_completeness auto
termination
proof (relation "measure (\<lambda>(_, futures, _, _). length futures)", goal_cases)
  case 1
  then show ?case by simp
next
  case (2 io futures acc s r y res fs z acc' s')
  then have "fs = remove_at_index (io_pick_fetch io futures mod length futures) futures"
    using complete_fetch_futures [of io futures acc s] by (metis fst_conv snd_conv)
  with 2 show ?case by auto
qed

declare drain_fetches.simps [simp del]

text \<open>The check of which chunks are missing, whose only effect is an I/O error; the prefetch has none.\<close>

fun check_loads :: "('p, 's) storage_io \<Rightarrow> string list \<Rightarrow> 'p storage_engine \<Rightarrow> unit result" where
  "check_loads io [] s = Inr ()"
| "check_loads io (cid # cids) s = (case load_block io cid s of Inl e \<Rightarrow> Inl e | Inr _ \<Rightarrow> check_loads io cids s)"

definition get_file :: "('p, 's::linorder) storage_io \<Rightarrow> string \<Rightarrow> 'p storage_engine \<Rightarrow> bytes result \<times> 'p storage_engine" where
  "get_file io root_cid s =
     (case resolve_or_fetch io root_cid MULTICODEC_DAG_CBOR s of
        (Inl e, s) \<Rightarrow> (Inl e, s)
      | (Inr manifest_bytes, s) \<Rightarrow>
          (case io_from_cbor io manifest_bytes of
             Inl e \<Rightarrow> (Inl e, s)
           | Inr manifest \<Rightarrow>
               (case check_loads io (fm_chunks manifest) s of
                  Inl e \<Rightarrow> (Inl e, s)
                | Inr _ \<Rightarrow>
                    (case submit_fetches io (enumerate 0 (fm_chunks manifest)) [] ([], [], 0) s of
                       (Inl e, _, _, s) \<Rightarrow> (Inl e, s)
                     | (Inr _, futures, acc, s) \<Rightarrow>
                         (case drain_fetches io futures acc s of
                            (Inl e, _, s) \<Rightarrow> (Inl e, s)
                          | (Inr _, (result, _, _), s) \<Rightarrow> (Inr result, s))))))"

section \<open>Pinning\<close>

definition needs_meta :: "string \<Rightarrow> mist_error" where
  "needs_meta what = Internal (what @ '' requires a MetaStore (StorageEngine::with_meta_store)'')"

definition protect :: "string \<Rightarrow> string list \<Rightarrow> 'p storage_engine \<Rightarrow> 'p storage_engine" where
  "protect root_cid cids s =
     (let registry = registry_pin root_cid cids (se_registry s)
      in with_manager (set_pinned (pinned_cids registry)) (s\<lparr>se_registry := registry\<rparr>))"

definition pin :: "('p, 's::linorder) storage_io \<Rightarrow> string \<Rightarrow> 'p storage_engine \<Rightarrow> unit result \<times> 'p storage_engine" where
  "pin io root_cid s =
     (if \<not> se_has_meta s then (Inl (needs_meta ''pin''), s)
      else case ensure_pin_registry_loaded io s of
             (Inl e, s) \<Rightarrow> (Inl e, s)
           | (Inr _, s) \<Rightarrow>
               if registry_is_pinned root_cid (se_registry s) then (Inr (), s)
               else case resolve_or_fetch io root_cid MULTICODEC_DAG_CBOR s of
                      (Inl e, s) \<Rightarrow> (Inl e, s)
                    | (Inr manifest_bytes, s) \<Rightarrow>
                        (case io_from_cbor io manifest_bytes of
                           Inl e \<Rightarrow> (Inl e, s)
                         | Inr manifest \<Rightarrow> persist_pin_registry io (protect root_cid (fm_chunks manifest @ [root_cid]) s)))"

definition unpin :: "('p, 's) storage_io \<Rightarrow> string \<Rightarrow> 'p storage_engine \<Rightarrow> unit result \<times> 'p storage_engine" where
  "unpin io root_cid s =
     (if \<not> se_has_meta s then (Inl (needs_meta ''unpin''), s)
      else case ensure_pin_registry_loaded io s of
             (Inl e, s) \<Rightarrow> (Inl e, s)
           | (Inr _, s) \<Rightarrow>
               let s = s\<lparr>se_registry := registry_unpin root_cid (se_registry s)\<rparr>
               in case pins_to_json (io_to_json io) (se_registry s) of
                    Inl e \<Rightarrow> (Inl e, s)
                  | Inr bytes \<Rightarrow>
                      (case meta_set_pins io bytes s of
                         (Inl e, s) \<Rightarrow> (Inl e, s)
                       | (Inr _, s) \<Rightarrow> (Inr (), with_manager (set_pinned (pinned_cids (se_registry s))) s)))"

definition is_pinned :: "('p, 's) storage_io \<Rightarrow> string \<Rightarrow> 'p storage_engine \<Rightarrow> bool \<times> 'p storage_engine" where
  "is_pinned io root_cid s =
     (case ensure_pin_registry_loaded io s of
        (Inl e, s) \<Rightarrow> (False, s)
      | (Inr _, s) \<Rightarrow> (registry_is_pinned root_cid (se_registry s), s))"

definition add_pinned :: "('p, 's::linorder) storage_io \<Rightarrow> string \<Rightarrow> bytes \<Rightarrow> 'p storage_engine \<Rightarrow> string result \<times> 'p storage_engine" where
  "add_pinned io name data s =
     (if \<not> se_has_meta s then (Inl (needs_meta ''add_pinned''), s)
      else case ensure_pin_registry_loaded io s of
             (Inl e, s) \<Rightarrow> (Inl e, s)
           | (Inr _, s) \<Rightarrow>
               (case add_at_inner io name data None s of
                  (Inl e, s) \<Rightarrow> (Inl e, s)
                | (Inr (root_cid, cids), s) \<Rightarrow>
                    (case persist_pin_registry io (protect root_cid (cids @ [root_cid]) s) of
                       (Inl e, s) \<Rightarrow> (Inl e, s)
                     | (Inr _, s) \<Rightarrow> (Inr root_cid, s))))"

end
