(* ===== verification/Storage_Safety.thy ===== *)
theory Storage_Safety
  imports Storage_Engine
begin

text \<open>
  What the storage engine keeps over whole runs of operations, with stores and peers that may fail or
  answer anything: the blocks it holds match their identifiers, pinned files are kept, files read back
  are what was added.
\<close>

section \<open>Victims are never pinned\<close>

lemma lru_loop_unpinned: "set (lru_loop pins metas xs need) \<inter> pins = {}"
  by (induction pins metas xs need rule: lru_loop.induct) (auto simp: Let_def split: option.splits)

lemma heap_loop_subset: "set (heap_loop heap need) \<subseteq> sb_cid ` set heap"
proof (induction heap need rule: heap_loop.induct)
  case (1 heap need)
  show ?case
  proof (cases "heap_pop heap")
    case None
    then have "heap_loop heap need = []" by (subst heap_loop.simps) simp
    then show ?thesis by simp
  next
    case (Some p)
    then obtain y where y: "p = (y, remove1 y heap)" "y \<in> set heap" by (auto simp: heap_pop_def dest: heap_max_in)
    show ?thesis
    proof (cases "need > 0")
      case True
      then have "set (heap_loop (remove1 y heap) (need - sb_size y)) \<subseteq> sb_cid ` set heap"
        using 1 [OF True Some y(1) [symmetric]] set_remove1_subset [of y heap] by blast
      moreover have "heap_loop heap need = sb_cid y # heap_loop (remove1 y heap) (need - sb_size y)"
        using Some y True by (subst heap_loop.simps) simp
      ultimately show ?thesis using y by simp
    qed (simp add: heap_loop.simps [of heap 0])
  qed
qed

lemma heap_loop_unpinned: "set (heap_loop (scored_blocks f ps m) n) \<inter> pinned m = {}"
  using heap_loop_subset [of "scored_blocks f ps m" n] by (auto simp: scored_blocks_def)

lemma capacity_victims_unpinned: "c \<in> set (capacity_victims io s) \<Longrightarrow> c \<notin> pinned (se_manager s)"
  using lru_loop_unpinned [of "pinned (se_manager s)" "blocks_meta (se_manager s)" "lru_index (se_manager s)"]
    heap_loop_unpinned [of "io_score io" "io_positions io" "se_manager s"]
  by (auto simp: capacity_victims_def eviction_candidates_def spatial_eviction_candidates_def Let_def split: if_splits)

lemma capacity_victims_within: "current_usage (se_manager s) \<le> max_capacity_bytes (se_manager s) \<Longrightarrow> capacity_victims io s = []"
  by (simp add: capacity_victims_def eviction_candidates_def spatial_eviction_candidates_def)

lemma decay_candidates_unpinned: "c \<in> set (decay_candidates near roll ps n m) \<Longrightarrow> c \<notin> pinned m"
  by (auto simp: decay_candidates_def split: if_splits)

lemma manager_pins [simp]:
  "pinned (snd (track_block cid n p m)) = pinned m" "pinned (manager_touch cid m) = pinned m"
  "pinned (snd (untrack_block cid m)) = pinned m" "pinned (set_pinned P m) = P"
  by (simp_all add: track_block_def manager_touch_def untrack_block_def set_pinned_def Let_def split: option.splits)

lemma with_manager_simps [simp]:
  "se_blocks (with_manager f s) = se_blocks s" "se_has_meta (with_manager f s) = se_has_meta s"
  "se_meta (with_manager f s) = se_meta s" "se_manager (with_manager f s) = f (se_manager s)"
  "se_registry (with_manager f s) = se_registry s" "se_registry_loaded (with_manager f s) = se_registry_loaded s"
  by (simp_all add: with_manager_def)

section \<open>Invariants of the engine\<close>

text \<open>The registry is in memory, or there is none to load.\<close>

definition pins_ready :: "'p storage_engine \<Rightarrow> bool" where
  "pins_ready s \<longleftrightarrow> se_registry_loaded s \<or> \<not> se_has_meta s"

definition block_matches :: "('p, 's) storage_io \<Rightarrow> string \<Rightarrow> bytes \<Rightarrow> bool" where
  "block_matches io cid data \<longleftrightarrow> (\<exists>codec \<in> {MULTICODEC_RAW, MULTICODEC_DAG_CBOR}. compute_cid (io_sha256 io) (io_varint io) data codec = cid)"

definition drop_block :: "string \<Rightarrow> 'p storage_engine \<Rightarrow> 'p storage_engine" where
  "drop_block c s = with_manager (\<lambda>m. snd (untrack_block c m)) (s\<lparr>se_blocks := hm_remove c (se_blocks s)\<rparr>)"

text \<open>
  The contract between the engine's operations and a property of its state: the primitive state changes
  that keep it, each only as the code performs it.
\<close>

locale block_invariant =
  fixes io :: "('p, 's::linorder) storage_io" and I :: "'p storage_engine \<Rightarrow> bool"
  assumes touch: "I s \<Longrightarrow> I (with_manager (manager_touch cid) s)"
    and track: "I s \<Longrightarrow> I (with_manager (\<lambda>m. snd (track_block cid len pos m)) s)"
    and stored: "I s \<Longrightarrow> block_matches io cid data \<Longrightarrow> I (s\<lparr>se_blocks := hm_insert cid data (se_blocks s)\<rparr>)"
    and dropped: "I s \<Longrightarrow> pins_ready s \<Longrightarrow> c \<notin> pinned (se_manager s) \<Longrightarrow> I (drop_block c s)"
    and loaded: "I s \<Longrightarrow> I (snd (ensure_pin_registry_loaded io s))"
    and swept: "I s \<Longrightarrow> I (s\<lparr>se_sweep_counter := n\<rparr>)"
begin

lemma store_block_inv: "I s \<Longrightarrow> block_matches io cid data \<Longrightarrow> I (snd (store_block io cid data s))"
  by (auto simp: store_block_def stored split: sum.splits)

lemma get_block_inv: "I s \<Longrightarrow> I (snd (get_block io cid s))"
  by (auto simp: get_block_def touch split: sum.splits option.splits)

lemma delete_victims_inv:
  "I s \<Longrightarrow> pins_ready s \<Longrightarrow> \<forall>c \<in> set cids. c \<notin> pinned (se_manager s) \<Longrightarrow> I (snd (delete_victims io cids s))"
proof (induction cids arbitrary: s)
  case (Cons c cids)
  have "I (drop_block c s)" "pins_ready (drop_block c s)" "pinned (se_manager (drop_block c s)) = pinned (se_manager s)"
    using dropped Cons.prems by (auto simp: drop_block_def pins_ready_def)
  with Cons.IH [of "drop_block c s"] Cons.prems show ?case
    by (auto simp: delete_block_def drop_block_def split: sum.splits)
qed simp

lemma decay_victims_inv:
  "I s \<Longrightarrow> pins_ready s \<Longrightarrow> \<forall>c \<in> set cids. c \<notin> pinned (se_manager s) \<Longrightarrow> I (snd (decay_victims io cids n s))"
proof (induction cids arbitrary: s n)
  case (Cons c cids)
  have "I (drop_block c s)" "pins_ready (drop_block c s)" "pinned (se_manager (drop_block c s)) = pinned (se_manager s)"
    using dropped Cons.prems by (auto simp: drop_block_def pins_ready_def)
  with Cons.IH [of "drop_block c s"] Cons.IH [of s] Cons.prems show ?case
    by (auto simp: delete_block_def drop_block_def split: sum.splits)
qed simp

lemma load_ready: "ensure_pin_registry_loaded io s = (Inr u, s') \<Longrightarrow> pins_ready s'"
  by (auto simp: ensure_pin_registry_loaded_def pins_ready_def split: if_splits sum.splits option.splits)

lemma load_inv: "I s \<Longrightarrow> ensure_pin_registry_loaded io s = (r, s') \<Longrightarrow> I s'"
  using loaded [of s] by simp

lemma enforce_inv: "I s \<Longrightarrow> I (snd (enforce_capacity_limit io s))"
proof (cases "current_usage (se_manager s) > max_capacity_bytes (se_manager s)")
  case True
  assume "I s"
  with True show ?thesis
    by (auto simp: enforce_capacity_limit_def intro!: delete_victims_inv intro: load_inv load_ready dest: capacity_victims_unpinned split: sum.splits prod.splits)
qed (simp add: enforce_capacity_limit_def capacity_victims_within)

lemma sweep_inv: "I s \<Longrightarrow> I (snd (run_decay_sweep io s))"
proof -
  assume s: "I s"
  have sweep: "I (snd (decay_victims io (decay_candidates f g ps n (se_manager s')) 0 (s'\<lparr>se_sweep_counter := n\<rparr>)))"
    if "I s'" "pins_ready s'" for s' f g ps n
    using that swept by (intro decay_victims_inv) (auto simp: pins_ready_def dest: decay_candidates_unpinned)
  show ?thesis
    using s by (auto simp: run_decay_sweep_def Let_def simp del: add_Suc_right intro!: sweep intro: load_inv load_ready split: prod.splits sum.splits)
qed

lemma fetch_inv: "I s \<Longrightarrow> codec \<in> {MULTICODEC_RAW, MULTICODEC_DAG_CBOR} \<Longrightarrow> I (snd (resolve_or_fetch io cid codec s))"
proof -
  assume s: "I s" "codec \<in> {MULTICODEC_RAW, MULTICODEC_DAG_CBOR}"
  have tracked: "I s'" if "enforce_capacity_limit io (with_manager (\<lambda>m. snd (track_block cid n p m)) s) = (r, s')" for n p r s'
    using enforce_inv [OF track [OF s(1)], of cid n p] that by simp
  have kept: "I s''" if "I s'" "verify_cid (io_sha256 io) (io_varint io) cid data codec" "store_block io cid data s' = (r, s'')" for s' s'' data r
    using store_block_inv [OF that(1), of cid data] that s(2) by (auto simp: block_matches_def verify_cid_def)
  show ?thesis
    using s touch unfolding resolve_or_fetch_def
    by (auto simp: Let_def dest: tracked intro: kept [OF tracked] split: sum.splits option.splits prod.splits if_splits)
qed

lemma fetch_inv': "I s \<Longrightarrow> codec \<in> {MULTICODEC_RAW, MULTICODEC_DAG_CBOR} \<Longrightarrow> resolve_or_fetch io cid codec s = (r, s') \<Longrightarrow> I s'"
  using fetch_inv [of s codec cid] by simp

lemma complete_write_inv:
  assumes "I s" and "writes \<noteq> []" and "\<forall>(cid, chunk) \<in> set writes. block_matches io cid chunk"
    and "complete_write io pos writes s = (r, ws, s')"
  shows "I s' \<and> (\<forall>(cid, chunk) \<in> set ws. block_matches io cid chunk)"
proof -
  define i where "i = io_pick io writes mod length writes"
  have i: "i < length writes" using assms(2) by (simp add: i_def)
  obtain cid chunk where w: "writes ! i = (cid, chunk)" by fastforce
  have m: "block_matches io cid chunk" using assms(3) nth_mem [OF i] w by auto
  have ws: "ws = remove_at_index i writes" using complete_write_writes [of io pos writes s] assms(4) by (simp add: i_def)
  then have "set ws \<subseteq> set writes" by (auto simp: remove_at_index_def dest: in_set_takeD in_set_dropD)
  moreover have "I s'"
  proof -
    have "I (snd (enforce_capacity_limit io (with_manager (\<lambda>x. snd (track_block cid (length chunk) pos x)) s1)))" if "I s1" for s1
      using that enforce_inv track by blast
    with store_block_inv [OF assms(1) m] assms(4) w show ?thesis
      unfolding complete_write_def i_def [symmetric] by (auto simp: Let_def split: prod.splits sum.splits; metis snd_conv)
  qed
  ultimately show ?thesis using assms(3) by auto
qed

lemma submit_writes_inv:
  "I s \<Longrightarrow> \<forall>(cid, chunk) \<in> set writes. block_matches io cid chunk \<Longrightarrow> submit_writes io pos chunks writes s = (r, ws, s')
     \<Longrightarrow> I s' \<and> (\<forall>(cid, chunk) \<in> set ws. block_matches io cid chunk)"
proof (induction chunks arbitrary: writes s)
  case (Cons chunk chunks)
  let ?w = "writes @ [(compute_cid (io_sha256 io) (io_varint io) chunk MULTICODEC_RAW, chunk)]"
  have w: "\<forall>(cid, chunk) \<in> set ?w. block_matches io cid chunk" using Cons.prems(2) by (auto simp: block_matches_def)
  show ?case
  proof (cases "length ?w \<ge> WRITE_CONCURRENCY")
    case True
    obtain r1 w1 s1 where c: "complete_write io pos ?w s = (r1, w1, s1)" by (metis prod_cases3)
    with complete_write_inv [OF Cons.prems(1) _ w c] Cons.IH [of s1 w1] Cons.prems(3) True show ?thesis
      by (auto simp: Let_def split: sum.splits)
  next
    case False
    with Cons.IH [OF Cons.prems(1) w] Cons.prems(3) show ?thesis by (simp add: Let_def)
  qed
qed auto

lemma drain_writes_inv:
  "I s \<Longrightarrow> \<forall>(cid, chunk) \<in> set writes. block_matches io cid chunk \<Longrightarrow> I (snd (drain_writes io pos writes s))"
proof (induction "length writes" arbitrary: writes s)
  case 0
  then show ?case by (simp add: drain_writes.simps [of io pos "[]" s])
next
  case (Suc n)
  then have ne: "writes \<noteq> []" by auto
  obtain r w1 s1 where c: "complete_write io pos writes s = (r, w1, s1)" by (metis prod_cases3)
  then have "w1 = remove_at_index (io_pick io writes mod length writes) writes" using complete_write_writes [of io pos writes s] by simp
  then have "length w1 = n" using ne Suc.hyps(2) by simp
  with Suc.hyps(1) [of w1 s1] complete_write_inv [OF Suc.prems(1) ne Suc.prems(2) c] show ?case
    using ne c by (subst drain_writes.simps) (auto split: sum.splits)
qed

lemma add_inner_inv: "I s \<Longrightarrow> I (snd (add_at_inner io name data pos s))"
proof -
  assume s: "I s"
  define p where "p = (case pos of Some p \<Rightarrow> Some p | None \<Rightarrow> resolve_auto_position io)"
  let ?chunks = "data_chunks CHUNK_SIZE data"
  obtain r1 w1 s1 where sub: "submit_writes io p ?chunks [] s = (r1, w1, s1)" by (metis prod_cases3)
  note w = submit_writes_inv [OF s _ sub]
  obtain r2 s2 where dr: "drain_writes io p w1 s1 = (r2, s2)" by fastforce
  have s2: "I s2" using drain_writes_inv [of s1 w1 p] w dr by simp
  have fin: "I (snd (enforce_capacity_limit io (with_manager (\<lambda>x. snd (track_block c n p x)) s3)))" if "I s3" for c n s3
    using that enforce_inv track by blast
  note unf = add_at_inner_def p_def [symmetric] Let_def sub prod.case
  show ?thesis
  proof (cases r1)
    case (Inr _)
    note r1 = this
    show ?thesis
    proof (cases r2)
      case (Inr _)
      show ?thesis
      proof (cases "io_to_cbor io \<lparr>fm_name = name, fm_size = length data,
          fm_chunks = map (\<lambda>c. compute_cid (io_sha256 io) (io_varint io) c MULTICODEC_RAW) ?chunks\<rparr>")
        case cb: (Inr b)
        let ?root = "compute_cid (io_sha256 io) (io_varint io) b MULTICODEC_DAG_CBOR"
        obtain r3 s3 where st: "store_block io ?root b s2 = (r3, s3)" by fastforce
        have "I s3" using store_block_inv [OF s2, of ?root b] st by (auto simp: block_matches_def)
        moreover have "I s4" if "enforce_capacity_limit io (with_manager (\<lambda>x. snd (track_block ?root (length b) p x)) s3) = (r4, s4)" for r4 s4
          using fin [OF \<open>I s3\<close>, of ?root "length b"] that by simp
        ultimately show ?thesis unfolding unf r1 by (auto simp: dr Inr cb st split: sum.splits prod.splits)
      qed (simp add: unf r1 dr Inr s2)
    qed (simp add: unf r1 dr s2)
  qed (use w in \<open>simp add: unf\<close>)
qed

lemma add_at_inv: "I s \<Longrightarrow> I (snd (add_at io name data pos s))"
  using add_inner_inv [of s name data pos] by (auto simp: add_at_def split: prod.splits sum.splits)

lemma complete_fetch_inv: "I s \<Longrightarrow> I (snd (snd (snd (complete_fetch io futures acc s))))"
  by (auto simp: complete_fetch_def Let_def dest: fetch_inv' [where codec = MULTICODEC_RAW] split: prod.splits sum.splits)

lemma submit_fetches_inv: "I s \<Longrightarrow> I (snd (snd (snd (submit_fetches io xs futures acc s))))"
proof (induction xs arbitrary: futures acc s)
  case (Cons x xs)
  from complete_fetch_inv [OF Cons.prems, of "futures @ [x]" acc] Cons.IH Cons.prems show ?case
    by (auto simp: Let_def split: prod.splits sum.splits)
qed simp

lemma drain_fetches_inv: "I s \<Longrightarrow> I (snd (snd (drain_fetches io futures acc s)))"
proof (induction "length futures" arbitrary: futures acc s)
  case 0
  then show ?case by (simp add: drain_fetches.simps [of io "[]" acc s])
next
  case (Suc n)
  then have ne: "futures \<noteq> []" by auto
  obtain r f1 a1 s1 where c: "complete_fetch io futures acc s = (r, f1, a1, s1)" by (metis prod_cases4)
  then have "f1 = remove_at_index (io_pick_fetch io futures mod length futures) futures" using complete_fetch_futures [of io futures acc s] by simp
  then have "length f1 = n" using ne Suc.hyps(2) by simp
  with Suc.hyps(1) [of f1 s1 a1] complete_fetch_inv [OF Suc.prems(1), of futures acc] show ?case
    using ne c by (subst drain_fetches.simps) (auto split: sum.splits)
qed

lemma get_inv: "I s \<Longrightarrow> I (snd (get_file io root s))"
proof -
  assume s: "I s"
  obtain r1 s1 where f: "resolve_or_fetch io root MULTICODEC_DAG_CBOR s = (r1, s1)" by fastforce
  then have s1: "I s1" by (intro fetch_inv' [OF s _ f]) simp
  have "I s3" if "submit_fetches io xs [] a s1 = (r, fs, acc, s2)" "drain_fetches io fs acc s2 = (r', acc', s3)" for xs a r fs acc s2 r' acc' s3
    using submit_fetches_inv [OF s1, of xs "[]" a] drain_fetches_inv [of s2 fs acc] that by simp
  moreover have "I s2" if "submit_fetches io xs [] a s1 = (r, fs, acc, s2)" for xs a r fs acc s2
    using submit_fetches_inv [OF s1, of xs "[]" a] that by simp
  ultimately show ?thesis using s1 f by (auto simp: get_file_def split: sum.splits prod.splits)
qed

end

text \<open>While the registry is loaded, only the pin operations change it.\<close>

interpretation loaded_registry: block_invariant io "\<lambda>s. se_registry_loaded s \<and> se_registry s = r" for io r
  by unfold_locales (simp_all add: drop_block_def ensure_pin_registry_loaded_def)

interpretation loaded_meta: block_invariant io "\<lambda>s. se_registry_loaded s \<and> se_has_meta s \<and> se_meta s = b" for io b
  by unfold_locales (simp_all add: drop_block_def ensure_pin_registry_loaded_def)

lemma fetch_registry:
  assumes "resolve_or_fetch io cid MULTICODEC_DAG_CBOR s = (r, s')" and "se_registry_loaded s"
  shows "se_registry_loaded s' \<and> se_registry s' = se_registry s"
  by (rule loaded_registry.fetch_inv' [OF _ _ assms(1)]) (simp_all add: assms(2))

lemma add_registry:
  assumes "add_at_inner io name data pos s = (r, s')" and "se_registry_loaded s"
  shows "se_registry_loaded s' \<and> se_registry s' = se_registry s"
  using loaded_registry.add_inner_inv [of s "se_registry s" io name data pos] assms by simp

lemma load_loaded: "ensure_pin_registry_loaded io s = (Inr u, s') \<Longrightarrow> se_has_meta s \<Longrightarrow> se_registry_loaded s'"
  by (auto simp: ensure_pin_registry_loaded_def split: if_splits sum.splits option.splits)

lemma load_unchanged: "se_registry_loaded s \<Longrightarrow> ensure_pin_registry_loaded io s = (Inr (), s)"
  by (simp add: ensure_pin_registry_loaded_def)

lemma load_has_meta: "ensure_pin_registry_loaded io s = (r, s') \<Longrightarrow> se_has_meta s' = se_has_meta s"
  by (auto simp: ensure_pin_registry_loaded_def split: if_splits sum.splits option.splits)

text \<open>A root returned by \<open>add_at_inner\<close> names the manifest of the returned chunks.\<close>

lemma add_inner_manifest:
  assumes "add_at_inner io name data pos s = (Inr (root, cids), s')"
  shows "\<exists>m b. io_to_cbor io m = Inr b \<and> root = compute_cid (io_sha256 io) (io_varint io) b MULTICODEC_DAG_CBOR \<and> cids = fm_chunks m"
  using assms unfolding add_at_inner_def Let_def
  by (intro exI [of _ "\<lparr>fm_name = name, fm_size = length data,
      fm_chunks = map (\<lambda>c. compute_cid (io_sha256 io) (io_varint io) c MULTICODEC_RAW) (data_chunks CHUNK_SIZE data)\<rparr>"])
    (auto split: sum.splits prod.splits)

text \<open>The operations of an engine as one step; a restart keeps the stores and forgets the rest.\<close>

datatype 'p storage_op = AddOp string bytes "'p option" | AddPinnedOp string bytes | GetOp string | GetBlockOp string
  | PinRootOp string | UnpinRootOp string | IsPinnedOp string | DecayOp | EnforceOp | RestartOp nat

fun storage_step :: "('p, 's::linorder) storage_io \<Rightarrow> 'p storage_op \<Rightarrow> 'p storage_engine \<Rightarrow> 'p storage_engine" where
  "storage_step io (AddOp name data pos) s = snd (add_at io name data pos s)"
| "storage_step io (AddPinnedOp name data) s = snd (add_pinned io name data s)"
| "storage_step io (GetOp root) s = snd (get_file io root s)"
| "storage_step io (GetBlockOp cid) s = snd (get_block io cid s)"
| "storage_step io (PinRootOp root) s = snd (pin io root s)"
| "storage_step io (UnpinRootOp root) s = snd (unpin io root s)"
| "storage_step io (IsPinnedOp root) s = snd (is_pinned io root s)"
| "storage_step io DecayOp s = snd (run_decay_sweep io s)"
| "storage_step io EnforceOp s = snd (enforce_capacity_limit io s)"
| "storage_step io (RestartOp cap) s = engine_with cap (se_has_meta s) (se_blocks s) (se_meta s)"

definition storage_run :: "(('p, 's::linorder) storage_io \<times> 'p storage_op) list \<Rightarrow> 'p storage_engine \<Rightarrow> 'p storage_engine" where
  "storage_run xs s = foldl (\<lambda>s (io, x). storage_step io x s) s xs"

text \<open>The pin operations in addition.\<close>

locale storage_invariant = block_invariant io I
  for io :: "('p, 's::linorder) storage_io" and I :: "'p storage_engine \<Rightarrow> bool" +
  fixes may_unpin :: "string \<Rightarrow> bool"
  assumes protected: "I s \<Longrightarrow> se_registry_loaded s \<Longrightarrow> \<not> registry_is_pinned root (se_registry s)
        \<or> (\<exists>m b. io_to_cbor io m = Inr b \<and> root = compute_cid (io_sha256 io) (io_varint io) b MULTICODEC_DAG_CBOR \<and> cids = fm_chunks m @ [root])
        \<Longrightarrow> I (protect root cids s)"
    and persisted: "I s \<Longrightarrow> se_registry_loaded s \<Longrightarrow> I (snd (persist_pin_registry io s))"
    and restarted: "I s \<Longrightarrow> I (engine_with cap (se_has_meta s) (se_blocks s) (se_meta s))"
    and unpinned: "I s \<Longrightarrow> se_registry_loaded s \<Longrightarrow> may_unpin root \<Longrightarrow> I (snd (unpin io root s))"
begin

lemma pin_inv: "I s \<Longrightarrow> I (snd (pin io root s))"
proof -
  assume s: "I s"
  obtain r1 s1 where l: "ensure_pin_registry_loaded io s = (r1, s1)" by fastforce
  have s1: "I s1" using load_inv [OF s l] .
  obtain r2 s2 where f: "resolve_or_fetch io root MULTICODEC_DAG_CBOR s1 = (r2, s2)" by fastforce
  have s2: "I s2" using fetch_inv' [OF s1 _ f] by simp
  have "I (snd (persist_pin_registry io (protect root cids s2)))" if "se_registry_loaded s2" "\<not> registry_is_pinned root (se_registry s2)" for cids
    using that s2 by (intro persisted protected) (auto simp: protect_def Let_def)
  moreover have "se_registry_loaded s1 \<Longrightarrow> se_registry_loaded s2 \<and> se_registry s2 = se_registry s1" using fetch_registry [OF f] by blast
  ultimately show ?thesis using s s1 s2 l f load_loaded [of io s]
    by (auto simp: pin_def split: sum.splits)
qed

lemma is_pinned_inv: "I s \<Longrightarrow> I (snd (is_pinned io root s))"
  by (auto simp: is_pinned_def dest: load_inv split: sum.splits prod.splits)

lemma unpin_inv: "I s \<Longrightarrow> may_unpin root \<Longrightarrow> I (snd (unpin io root s))"
proof -
  assume s: "I s" and may: "may_unpin root"
  obtain r1 s1 where l: "ensure_pin_registry_loaded io s = (r1, s1)" by fastforce
  have s1: "I s1" using load_inv [OF s l] .
  have "unpin io root s = unpin io root s1" if "r1 = Inr ()" "se_has_meta s"
    using load_unchanged [of s1 io] load_loaded [of io s] load_has_meta [OF l] l that by (simp add: unpin_def)
  with unpinned [OF s1 _ may] load_loaded [of io s] s s1 l show ?thesis
    by (cases "se_has_meta s"; cases r1) (auto simp: unpin_def)
qed

lemma add_pinned_inv: "I s \<Longrightarrow> I (snd (add_pinned io name data s))"
proof -
  assume s: "I s"
  obtain r1 s1 where l: "ensure_pin_registry_loaded io s = (r1, s1)" by fastforce
  have s1: "I s1" using load_inv [OF s l] .
  obtain r2 s2 where a: "add_at_inner io name data None s1 = (r2, s2)" by fastforce
  have s2: "I s2" using add_inner_inv [OF s1, of name data None] a by simp
  have fin: "I (snd (persist_pin_registry io (protect root (cids @ [root]) s2)))" if "se_registry_loaded s1" "r2 = Inr (root, cids)" for root cids
    using that s2 add_registry [OF a] add_inner_manifest [OF a [unfolded that(2)]] by (intro persisted protected) (auto simp: protect_def Let_def)
  show ?thesis
  proof (cases "se_has_meta s \<and> r1 = Inr ()")
    case True
    then have "se_registry_loaded s1" using load_loaded [of io s] l by blast
    with fin s1 s2 l a True show ?thesis by (auto simp: add_pinned_def split: sum.splits prod.splits)
  qed (use s s1 l in \<open>auto simp: add_pinned_def split: sum.splits\<close>)
qed

lemma step_inv: "I s \<Longrightarrow> (\<And>root. x = UnpinRootOp root \<Longrightarrow> may_unpin root) \<Longrightarrow> I (storage_step io x s)"
  by (cases x) (auto simp: add_at_inv add_pinned_inv get_inv get_block_inv pin_inv unpin_inv is_pinned_inv sweep_inv enforce_inv restarted)

end

section \<open>Stored blocks match their identifiers\<close>

definition engine_ok :: "('p, 's) storage_io \<Rightarrow> 'p storage_engine \<Rightarrow> bool" where
  "engine_ok io s \<longleftrightarrow> (\<forall>c d. hm_get (se_blocks s) c = Some d \<longrightarrow> block_matches io c d) \<and> manager_ok (se_manager s)
     \<and> pinned_cids (se_registry s) \<subseteq> pinned (se_manager s) \<and> pr_v (se_registry s) = REGISTRY_VERSION"

lemma registry_version [simp]:
  "pr_v (registry_pin root cids r) = pr_v r" "pr_v (registry_unpin root r) = pr_v r" "pr_v pins_new = REGISTRY_VERSION"
  "pins_from_json from bad b = Inr r \<Longrightarrow> pr_v r = REGISTRY_VERSION"
  by (auto simp: registry_pin_def registry_unpin_def pins_new_def pins_from_json_def split: sum.splits if_splits)

lemma pinned_cids_remove: "pinned_cids (registry_unpin root r) \<subseteq> pinned_cids r"
  by (auto simp: pinned_cids_def registry_unpin_def hm_remove_def)

interpretation stored: storage_invariant io "engine_ok io" "\<lambda>_. True" for io
proof unfold_locales
  fix s :: "'a storage_engine" and cid len pos data n root cids c cap
  assume s: "engine_ok io s"
  show "engine_ok io (with_manager (manager_touch cid) s)" using s by (simp add: engine_ok_def touch_refines)
  show "engine_ok io (with_manager (\<lambda>m. snd (track_block cid len pos m)) s)" using s by (simp add: engine_ok_def track_refines)
  show "engine_ok io (s\<lparr>se_blocks := hm_insert cid data (se_blocks s)\<rparr>)" if "block_matches io cid data"
    using s that by (simp add: engine_ok_def)
  show "engine_ok io (drop_block c s)" using s by (simp add: engine_ok_def drop_block_def untrack_refines)
  show "engine_ok io (snd (ensure_pin_registry_loaded io s))"
    using s by (auto simp: engine_ok_def ensure_pin_registry_loaded_def split: sum.splits option.splits)
  show "engine_ok io (s\<lparr>se_sweep_counter := n\<rparr>)" using s by (simp add: engine_ok_def)
  show "engine_ok io (protect root cids s)" using s by (simp add: engine_ok_def protect_def Let_def)
  show "engine_ok io (snd (persist_pin_registry io s))"
    using s by (auto simp: engine_ok_def persist_pin_registry_def meta_set_pins_def split: sum.splits)
  show "engine_ok io (engine_with cap (se_has_meta s) (se_blocks s) (se_meta s))"
    using s by (simp add: engine_ok_def engine_with_def pinned_cids_def) (simp add: pins_new_def)
  show "engine_ok io (snd (unpin io root s))" if "se_registry_loaded s"
    using s pinned_cids_remove [of root "se_registry s"]
    by (auto simp: engine_ok_def unpin_def meta_set_pins_def load_unchanged [OF that] Let_def split: sum.splits)
qed

text \<open>Different calls may meet different failures and peers, with the same hash and text formats.\<close>

definition same_formats :: "('p, 's) storage_io \<Rightarrow> ('p, 's) storage_io \<Rightarrow> bool" where
  "same_formats io io' \<longleftrightarrow> io_sha256 io' = io_sha256 io \<and> io_varint io' = io_varint io \<and> io_to_cbor io' = io_to_cbor io
     \<and> io_from_cbor io' = io_from_cbor io \<and> io_to_json io' = io_to_json io \<and> io_from_json io' = io_from_json io
     \<and> io_bad_version io' = io_bad_version io"

lemma block_matches_cong: "same_formats io io' \<Longrightarrow> block_matches io' = block_matches io"
  by (intro ext) (simp add: same_formats_def block_matches_def)

lemma engine_ok_cong: "same_formats io io' \<Longrightarrow> engine_ok io' = engine_ok io"
  by (auto simp: engine_ok_def block_matches_cong fun_eq_iff)

lemma engine_ok_run: "engine_ok io s \<Longrightarrow> \<forall>(io', x) \<in> set xs. same_formats io io' \<Longrightarrow> engine_ok io (storage_run xs s)"
proof (induction xs arbitrary: s)
  case (Cons a xs)
  obtain io' x where a: "a = (io', x)" by fastforce
  have "engine_ok io' (storage_step io' x s)"
    using Cons.prems a engine_ok_cong [of io io'] by (intro stored.step_inv) auto
  then have "engine_ok io (storage_step io' x s)" using Cons.prems(2) a engine_ok_cong [of io io'] by auto
  with Cons.IH Cons.prems(2) a show ?case by (simp add: storage_run_def)
qed (simp add: storage_run_def)

section \<open>Pinned files are kept\<close>

text \<open>
  The pin of \<open>root\<close> on \<open>cids\<close> is in the persisted registry and, once that is loaded, in memory and in
  the manager; \<open>kept\<close> are blocks in the store.
\<close>

definition pin_held :: "('p, 's) storage_io \<Rightarrow> string \<Rightarrow> string list \<Rightarrow> string set \<Rightarrow> 'p storage_engine \<Rightarrow> bool" where
  "pin_held io root cids kept s \<longleftrightarrow> se_has_meta s
     \<and> (\<exists>b r. se_meta s = Some b \<and> pins_from_json (io_from_json io) (io_bad_version io) b = Inr r \<and> hm_get (pr_roots r) root = Some cids)
     \<and> pr_v (se_registry s) = REGISTRY_VERSION \<and> (se_registry_loaded s \<longrightarrow> hm_get (pr_roots (se_registry s)) root = Some cids)
     \<and> pinned_cids (se_registry s) \<subseteq> pinned (se_manager s) \<and> (\<forall>c \<in> kept. hm_get (se_blocks s) c \<noteq> None)"

text \<open>What the texts of registries and manifests promise, and that one block only has the identifier \<open>root\<close>.\<close>

definition formats_ok :: "('p, 's) storage_io \<Rightarrow> bool" where
  "formats_ok io \<longleftrightarrow> (\<forall>r b. io_to_json io r = Inr b \<longrightarrow> io_from_json io b = Inr r)
     \<and> (\<forall>m b. io_to_cbor io m = Inr b \<longrightarrow> io_from_cbor io b = Inr m)"

definition sole_block :: "('p, 's) storage_io \<Rightarrow> string \<Rightarrow> bytes \<Rightarrow> bool" where
  "sole_block io cid data \<longleftrightarrow> (\<forall>d. block_matches io cid d \<longrightarrow> d = data)"

lemma pinned_cids_get: "hm_get (pr_roots r) root = Some cids \<Longrightarrow> set cids \<subseteq> pinned_cids r"
  by (auto simp: pinned_cids_def dest!: hm_get_in)

lemma persist_held:
  assumes "formats_ok io" and "persist_pin_registry io s = (Inr (), s')" and "pr_v (se_registry s) = REGISTRY_VERSION"
  shows "\<exists>b. s' = s\<lparr>se_meta := Some b\<rparr> \<and> pins_from_json (io_from_json io) (io_bad_version io) b = Inr (se_registry s)"
proof -
  obtain b where b: "io_to_json io (se_registry s) = Inr b" "s' = s\<lparr>se_meta := Some b\<rparr>"
    using assms(2) by (auto simp: persist_pin_registry_def pins_to_json_def meta_set_pins_def split: sum.splits)
  then have "io_from_json io b = Inr (se_registry s)" using assms(1) by (simp add: formats_ok_def)
  with b assms(3) show ?thesis by (intro exI [of _ b]) (simp add: pins_from_json_def)
qed

lemma pin_held_invariant:
  fixes io :: "('p, 's::linorder) storage_io"
  assumes fmt: "formats_ok io" and manifest: "io_from_cbor io data = Inr m" "cids = fm_chunks m @ [root]" "sole_block io root data"
    and kept: "kept \<subseteq> set cids"
  shows "storage_invariant io (pin_held io root cids kept) (\<lambda>r. r \<noteq> root)"
proof unfold_locales
  fix s :: "'p storage_engine" and cid len pos d n r cs c cap
  assume s: "pin_held io root cids kept s"
  show "pin_held io root cids kept (with_manager (manager_touch cid) s)" using s by (simp add: pin_held_def)
  show "pin_held io root cids kept (with_manager (\<lambda>m. snd (track_block cid len pos m)) s)" using s by (simp add: pin_held_def)
  show "pin_held io root cids kept (s\<lparr>se_blocks := hm_insert cid d (se_blocks s)\<rparr>)" using s by (simp add: pin_held_def)
  show "pin_held io root cids kept (drop_block c s)" if "pins_ready s" "c \<notin> pinned (se_manager s)"
  proof -
    have "set cids \<subseteq> pinned (se_manager s)" using s that(1) pinned_cids_get by (force simp: pin_held_def pins_ready_def)
    then show ?thesis using s that(2) kept by (auto simp: pin_held_def drop_block_def)
  qed
  show "pin_held io root cids kept (snd (ensure_pin_registry_loaded io s))"
    using s by (auto simp: pin_held_def ensure_pin_registry_loaded_def split: sum.splits)
  show "pin_held io root cids kept (s\<lparr>se_sweep_counter := n\<rparr>)" using s by (simp add: pin_held_def)
  show "pin_held io root cids kept (protect r cs s)"
    if "se_registry_loaded s" "\<not> registry_is_pinned r (se_registry s)
        \<or> (\<exists>m b. io_to_cbor io m = Inr b \<and> r = compute_cid (io_sha256 io) (io_varint io) b MULTICODEC_DAG_CBOR \<and> cs = fm_chunks m @ [r])"
  proof -
    have "hm_get (pr_roots (se_registry s)) root = Some cids" using s that(1) by (simp add: pin_held_def)
    moreover have "cs = cids" if "r = root" "io_to_cbor io m' = Inr b" "r = compute_cid (io_sha256 io) (io_varint io) b MULTICODEC_DAG_CBOR" "cs = fm_chunks m' @ [r]" for m' b
    proof -
      have "b = data" using manifest(3) that(1,3) by (auto simp: sole_block_def block_matches_def)
      then have "m' = m" using that(2) fmt manifest(1) by (auto simp: formats_ok_def)
      then show ?thesis using that manifest(2) by simp
    qed
    ultimately have "hm_get (pr_roots (registry_pin r cs (se_registry s))) root = Some cids"
      using that(2) by (auto simp: registry_pin_def registry_is_pinned_def hm_contains_get)
    then show ?thesis using s that(1) by (simp add: pin_held_def protect_def Let_def)
  qed
  show "pin_held io root cids kept (snd (persist_pin_registry io s))" if "se_registry_loaded s"
  proof (cases "persist_pin_registry io s")
    case (Pair res s')
    show ?thesis
    proof (cases res)
      case (Inr u)
      with persist_held [OF fmt, of s s'] Pair s that show ?thesis by (auto simp: pin_held_def)
    next
      case (Inl e)
      then have "s' = s" using Pair by (auto simp: persist_pin_registry_def meta_set_pins_def split: sum.splits)
      then show ?thesis using Pair s by simp
    qed
  qed
  show "pin_held io root cids kept (engine_with cap (se_has_meta s) (se_blocks s) (se_meta s))"
    using s by (simp add: pin_held_def engine_with_def pinned_cids_def) (simp add: pins_new_def)
  show "pin_held io root cids kept (snd (unpin io r s))" if "se_registry_loaded s" "r \<noteq> root"
  proof -
    let ?r = "registry_unpin r (se_registry s)"
    have get: "hm_get (pr_roots ?r) root = Some cids" using s that by (simp add: pin_held_def registry_unpin_def)
    have sub: "pinned_cids ?r \<subseteq> pinned (se_manager s)" using s pinned_cids_remove [of r "se_registry s"] by (auto simp: pin_held_def)
    have mem: "pin_held io root cids kept (s\<lparr>se_registry := ?r\<rparr>)" using s get sub by (simp add: pin_held_def)
    have set: "pin_held io root cids kept (with_manager (set_pinned (pinned_cids ?r)) (s\<lparr>se_registry := ?r, se_meta := Some b\<rparr>))"
      if "io_to_json io ?r = Inr b" for b
      using that s fmt get by (auto simp: pin_held_def formats_ok_def pins_from_json_def)
    show ?thesis
      using s mem set by (auto simp: unpin_def load_unchanged [OF \<open>se_registry_loaded s\<close>] meta_set_pins_def pins_to_json_def Let_def split: sum.splits)
  qed
qed

lemma formats_ok_cong: "same_formats io io' \<Longrightarrow> formats_ok io' = formats_ok io"
  by (simp add: same_formats_def formats_ok_def)

lemma pin_held_cong: "same_formats io io' \<Longrightarrow> pin_held io' = pin_held io"
  by (intro ext) (simp add: pin_held_def same_formats_def)

lemma pin_held_run:
  assumes "formats_ok io" and "io_from_cbor io data = Inr m" and "cids = fm_chunks m @ [root]" and "sole_block io root data"
    and "kept \<subseteq> set cids"
  shows "pin_held io root cids kept s \<Longrightarrow> \<forall>(io', x) \<in> set xs. same_formats io io' \<and> x \<noteq> UnpinRootOp root
    \<Longrightarrow> pin_held io root cids kept (storage_run xs s)"
proof (induction xs arbitrary: s)
  case (Cons a xs)
  obtain io' x where a: "a = (io', x)" by fastforce
  then have same: "same_formats io io'" and x: "x \<noteq> UnpinRootOp root" using Cons.prems(2) by auto
  have "io_from_cbor io' data = Inr m" "sole_block io' root data"
    using same assms(2,4) by (simp_all add: sole_block_def block_matches_cong [OF same], simp add: same_formats_def)
  then have laws: "storage_invariant io' (pin_held io' root cids kept) (\<lambda>r. r \<noteq> root)"
    using assms same by (intro pin_held_invariant) (auto simp: formats_ok_cong)
  have "pin_held io' root cids kept (storage_step io' x s)"
    by (rule storage_invariant.step_inv [OF laws]) (use Cons.prems(1) x pin_held_cong [OF same] in auto)
  with Cons.IH Cons.prems(2) a pin_held_cong [OF same] show ?case by (simp add: storage_run_def)
qed (simp add: storage_run_def)

text \<open>A fetched or loaded block matches its identifier.\<close>

lemma fetch_matches:
  assumes "engine_ok io s" and "codec \<in> {MULTICODEC_RAW, MULTICODEC_DAG_CBOR}" and "resolve_or_fetch io cid codec s = (Inr data, s')"
  shows "block_matches io cid data"
  using assms unfolding resolve_or_fetch_def
  by (auto simp: engine_ok_def load_block_def block_matches_def verify_cid_def Let_def split: sum.splits option.splits prod.splits if_splits)

lemma pin_establishes:
  assumes ok: "engine_ok io s" and fmt: "formats_ok io" and new: "\<not> fst (is_pinned io root s)" and pin: "pin io root s = (Inr (), s')"
  shows "\<exists>data m. block_matches io root data \<and> io_from_cbor io data = Inr m
    \<and> pin_held io root (fm_chunks m @ [root]) {c \<in> set (fm_chunks m @ [root]). hm_get (se_blocks s') c \<noteq> None} s'"
proof -
  obtain r1 s1 where l: "ensure_pin_registry_loaded io s = (r1, s1)" by fastforce
  have meta: "se_has_meta s" "r1 = Inr ()" using pin l by (auto simp: pin_def split: if_splits sum.splits)
  have s1: "engine_ok io s1" "se_registry_loaded s1" "se_has_meta s1"
    using stored.load_inv [OF ok l] load_loaded [of io s] load_has_meta [OF l] l meta by auto
  have np: "\<not> registry_is_pinned root (se_registry s1)" using new l meta by (simp add: is_pinned_def)
  obtain data s2 m where f: "resolve_or_fetch io root MULTICODEC_DAG_CBOR s1 = (Inr data, s2)" "io_from_cbor io data = Inr m"
      and p: "persist_pin_registry io (protect root (fm_chunks m @ [root]) s2) = (Inr (), s')"
    using pin l meta np by (auto simp: pin_def split: sum.splits prod.splits)
  have s2: "engine_ok io s2" using stored.fetch_inv' [OF s1(1) _ f(1)] by simp
  let ?s = "protect root (fm_chunks m @ [root]) s2"
  have ok3: "engine_ok io ?s" using s2 by (simp add: engine_ok_def protect_def Let_def)
  from persist_held [OF fmt p] ok3 obtain b where b: "s' = ?s\<lparr>se_meta := Some b\<rparr>"
      "pins_from_json (io_from_json io) (io_bad_version io) b = Inr (se_registry ?s)" by (auto simp: engine_ok_def)
  have hm: "se_has_meta s2" using loaded_meta.fetch_inv' [OF _ _ f(1), of "se_meta s1"] s1 by simp
  have "pin_held io root (fm_chunks m @ [root]) {c \<in> set (fm_chunks m @ [root]). hm_get (se_blocks s') c \<noteq> None} s'"
    using b ok3 hm by (simp add: pin_held_def engine_ok_def protect_def Let_def registry_pin_def)
  with fetch_matches [OF s1(1) _ f(1)] f(2) show ?thesis by blast
qed

text \<open>
  Property C11. A pinned file is never lost: after a successful pin of a root that was not pinned, every
  block of the file that is in the store stays in the store over every run of operations that does not
  unpin this root - adding and fetching past the capacity, decay sweeps, pinning and unpinning other
  files, restarts, and any failures of the stores and answers of the peers - and the pin stays in the
  persisted registry.
\<close>

theorem pinned_file_survives:
  assumes "engine_ok io s" and "formats_ok io" and "sole_block io root data" and "\<not> fst (is_pinned io root s)"
    and "pin io root s = (Inr (), s')" and "\<forall>(io', x) \<in> set xs. same_formats io io' \<and> x \<noteq> UnpinRootOp root"
  shows "\<exists>m. io_from_cbor io data = Inr m
    \<and> (\<forall>c \<in> set (fm_chunks m @ [root]). hm_get (se_blocks s') c \<noteq> None \<longrightarrow> hm_get (se_blocks (storage_run xs s')) c \<noteq> None)
    \<and> (\<exists>b r. se_meta (storage_run xs s') = Some b \<and> pins_from_json (io_from_json io) (io_bad_version io) b = Inr r
         \<and> hm_get (pr_roots r) root = Some (fm_chunks m @ [root]))"
proof -
  from pin_establishes [OF assms(1,2,4,5)] assms(3) obtain m where m: "io_from_cbor io data = Inr m"
      "pin_held io root (fm_chunks m @ [root]) {c \<in> set (fm_chunks m @ [root]). hm_get (se_blocks s') c \<noteq> None} s'"
    by (auto simp: sole_block_def)
  from pin_held_run [OF assms(2) m(1) refl assms(3) _ m(2) assms(6)] m(1) show ?thesis by (auto simp: pin_held_def)
qed

text \<open>A small instance: the hash is the block itself; one manifest and one registry have a text.\<close>

definition demo_root :: string where
  "demo_root = compute_cid (\<lambda>d. d) (\<lambda>n. [of_nat n]) [7] MULTICODEC_DAG_CBOR"

definition demo_pins :: pin_registry where
  "demo_pins = \<lparr>pr_v = 1, pr_roots = [(demo_root, [''c'', demo_root])]\<rparr>"

definition demo_io :: "(unit, nat) storage_io" where
  "demo_io = \<lparr>io_store = (\<lambda>_. Inr ()), io_load = (\<lambda>_. Inr ()), io_delete = (\<lambda>_. Inr ()), io_meta_get = Inr (), io_meta_set = Inr (),
     io_resolve = (\<lambda>_. Inr None), io_positions = [], io_sha256 = (\<lambda>d. d), io_varint = (\<lambda>n. [of_nat n]),
     io_to_cbor = (\<lambda>m. if m = \<lparr>fm_name = ''f'', fm_size = 3, fm_chunks = [''c'']\<rparr> then Inr [7] else Inl (Internal ''e'')),
     io_from_cbor = (\<lambda>b. if b = [7] then Inr \<lparr>fm_name = ''f'', fm_size = 3, fm_chunks = [''c'']\<rparr> else Inl (Internal ''e'')),
     io_to_json = (\<lambda>r. if r = demo_pins then Inr [9] else Inl (Internal ''e'')),
     io_from_json = (\<lambda>b. if b = [9] then Inr demo_pins else Inl (Internal ''e'')), io_bad_version = (\<lambda>_. ''v''),
     io_score = (\<lambda>_ _ _. 0), io_target = (\<lambda>n. n), io_near = (\<lambda>_ _. True), io_roll = (\<lambda>_ _ _ _. False),
     io_pick = (\<lambda>_. 0), io_pick_fetch = (\<lambda>_. 0), io_get_concurrency = 8\<rparr>"

lemma demo_pin: "pin demo_io demo_root (engine_with 0 True [(demo_root, [7])] None) =
    (Inr (), (with_manager (set_pinned {''c'', demo_root}) (engine_with 0 True [(demo_root, [7])] (Some [9])))\<lparr>se_registry := demo_pins, se_registry_loaded := True\<rparr>)"
  by (simp add: pin_def ensure_pin_registry_loaded_def engine_with_def demo_io_def registry_is_pinned_def pins_new_def hm_contains_def
      resolve_or_fetch_def load_block_def hm_get_def protect_def Let_def registry_pin_def hm_insert_def persist_pin_registry_def
      pins_to_json_def meta_set_pins_def pinned_cids_def manager_touch_def with_manager_def manager_new_def demo_pins_def REGISTRY_VERSION_def)

lemma demo_sole: "sole_block demo_io demo_root [7]"
  by (auto simp: sole_block_def block_matches_def demo_root_def demo_io_def compute_cid_def dest: base32_encode_inject)

theorem pinned_file_survives_witness:
  "hm_get (se_blocks (storage_run [(demo_io, EnforceOp), (demo_io, RestartOp 0), (demo_io\<lparr>io_meta_get := Inl (Internal ''e'')\<rparr>, EnforceOp)]
     (snd (pin demo_io demo_root (engine_with 0 True [(demo_root, [7])] None))))) demo_root \<noteq> None"
proof -
  let ?s = "engine_with 0 True [(demo_root, [7])] None :: unit storage_engine"
  have "engine_ok demo_io ?s"
    by (auto simp: engine_ok_def engine_with_def pinned_cids_def hm_get_def block_matches_def demo_root_def demo_io_def split: if_splits)
      (simp add: pins_new_def)
  moreover have "formats_ok demo_io" by (simp add: formats_ok_def demo_io_def)
  moreover have "\<not> fst (is_pinned demo_io demo_root ?s)"
    by (simp add: is_pinned_def ensure_pin_registry_loaded_def engine_with_def demo_io_def registry_is_pinned_def pins_new_def hm_contains_def)
  moreover have "pin demo_io demo_root ?s = (Inr (), snd (pin demo_io demo_root ?s))" by (simp add: demo_pin)
  moreover have "hm_get (se_blocks (snd (pin demo_io demo_root ?s))) demo_root \<noteq> None"
    by (simp add: demo_pin) (simp add: engine_with_def hm_get_def)
  ultimately show ?thesis
    using pinned_file_survives [of demo_io ?s demo_root "[7]" "snd (pin demo_io demo_root ?s)"
      "[(demo_io, EnforceOp), (demo_io, RestartOp 0), (demo_io\<lparr>io_meta_get := Inl (Internal ''e'')\<rparr>, EnforceOp)]"] demo_sole
    by (auto simp: same_formats_def)
qed

section \<open>Failures\<close>

text \<open>
  Property C18. A pin whose metadata write failed cannot be retried: the call reports the error and keeps
  the root in memory, and from then on every \<open>pin\<close> of that root reports success at once without writing,
  while the persisted registry stays as it was.
\<close>

theorem pin_retry_not_persisted:
  fixes io :: "('p, 's::linorder) storage_io"
  assumes "se_has_meta s" and "se_registry_loaded s" and "\<not> registry_is_pinned root (se_registry s)"
    and "resolve_or_fetch io root MULTICODEC_DAG_CBOR s = (Inr mb, s1)" and "io_from_cbor io mb = Inr m" and "io_meta_set io = Inl e"
  shows "\<exists>e' s'. pin io root s = (Inl e', s') \<and> se_meta s' = se_meta s \<and> (\<forall>io' :: ('p, 's) storage_io. pin io' root s' = (Inr (), s'))"
proof -
  have s1: "se_registry_loaded s1" "se_has_meta s1" "se_meta s1 = se_meta s"
    using loaded_meta.fetch_inv' [OF _ _ assms(4), of "se_meta s"] assms(1,2) by simp_all
  let ?s = "protect root (fm_chunks m @ [root]) s1"
  have s': "se_registry_loaded ?s" "se_has_meta ?s" "se_meta ?s = se_meta s" "registry_is_pinned root (se_registry ?s)"
    using s1 by (simp_all add: protect_def Let_def registry_is_pinned_def registry_pin_def hm_contains_get)
  obtain e' where "persist_pin_registry io ?s = (Inl e', ?s)"
    using assms(6) by (cases "io_to_json io (se_registry ?s)") (simp_all add: persist_pin_registry_def pins_to_json_def meta_set_pins_def)
  then have "pin io root s = (Inl e', ?s)" using assms by (simp add: pin_def load_unchanged)
  moreover have "pin io' root ?s = (Inr (), ?s)" for io' :: "('p, 's) storage_io" using s' by (simp add: pin_def load_unchanged)
  ultimately show ?thesis using s'(3) by blast
qed

theorem pin_retry_not_persisted_witness:
  "\<exists>e' s'. pin (demo_io\<lparr>io_meta_set := Inl (Internal ''e'')\<rparr>) demo_root ((engine_with 0 True [(demo_root, [7])] None)\<lparr>se_registry_loaded := True\<rparr>) = (Inl e', s')
     \<and> se_meta s' = None \<and> (\<forall>io' :: (unit, nat) storage_io. pin io' demo_root s' = (Inr (), s'))"
proof -
  let ?s = "(engine_with 0 True [(demo_root, [7])] None)\<lparr>se_registry_loaded := True\<rparr> :: unit storage_engine"
  let ?io = "demo_io\<lparr>io_meta_set := Inl (Internal ''e'')\<rparr>"
  have "resolve_or_fetch ?io demo_root MULTICODEC_DAG_CBOR ?s = (Inr [7], with_manager (manager_touch demo_root) ?s)"
    by (simp add: resolve_or_fetch_def load_block_def demo_io_def engine_with_def hm_get_def)
  note fetch = this
  have "\<not> registry_is_pinned demo_root (se_registry ?s)" by (simp add: engine_with_def registry_is_pinned_def pins_new_def hm_contains_def)
  from pin_retry_not_persisted [OF _ _ this fetch, of _ "Internal ''e''"] show ?thesis by (simp add: engine_with_def) (simp add: demo_io_def)
qed

text \<open>Deleting the victims with a store that works.\<close>

lemma delete_victims_ok:
  assumes "io_delete io = (\<lambda>_. Inr ())"
  shows "\<exists>s'. delete_victims io cids s = (Inr (), s') \<and> se_manager s' = untrack_all cids (se_manager s)"
proof (induction cids arbitrary: s)
  case (Cons c cids)
  from Cons.IH [of "with_manager (\<lambda>m. snd (untrack_block c m)) (s\<lparr>se_blocks := hm_remove c (se_blocks s)\<rparr>)"]
  show ?case by (simp add: untrack_all_def delete_block_def assms)
qed (simp add: untrack_all_def)

text \<open>
  Property C19. A fetched block can end up stored but untracked: when the pinned blocks and the fetched
  one exceed the capacity, \<open>resolve_or_fetch\<close> evicts the block it has just tracked, before storing it, and
  then stores it: it is on disk, no usage is counted for it and no eviction will find it.
\<close>

theorem fetched_block_escapes_capacity:
  assumes ok: "manager_ok (se_manager s)" and ready: "pins_ready s" and io: "io_store io = (\<lambda>_. Inr ())" "io_load io = (\<lambda>_. Inr ())"
      "io_delete io = (\<lambda>_. Inr ())" "io_positions io = []" "io_resolve io cid = Inr (Some data)"
    and new: "hm_get (se_blocks s) cid = None" "hm_get (blocks_meta (se_manager s)) cid = None" "cid \<notin> pinned (se_manager s)"
    and cid: "compute_cid (io_sha256 io) (io_varint io) data codec = cid"
    and full: "max_capacity_bytes (se_manager s) < length data + sum_list (map snd (filter (\<lambda>p. fst p \<in> pinned (se_manager s)) (recency (se_manager s))))"
  shows "\<exists>s'. resolve_or_fetch io cid codec s = (Inr data, s') \<and> hm_get (se_blocks s') cid = Some data
    \<and> hm_get (blocks_meta (se_manager s')) cid = None"
proof -
  define m where "m = snd (track_block cid (length data) None (se_manager s))"
  have m: "manager_ok m" "recency m = recency (se_manager s) @ [(cid, length data)]"
    using track_refines [OF ok, of cid "length data" None] new(2) by (simp_all add: m_def spec_track_def recency_get [OF ok])
  have mp: "pinned m = pinned (se_manager s)" "max_capacity_bytes m = max_capacity_bytes (se_manager s)"
    by (simp_all add: m_def track_block_def Let_def split: option.splits)
  have bound: "max_capacity_bytes m < sum_list (map snd (filter (\<lambda>p. fst p \<in> pinned m \<or> fst p = cid) (recency m)))"
  proof -
    have "cid \<notin> fst ` set (recency (se_manager s))" using new(2) recency_get [OF ok, of cid] by (simp add: map_of_eq_None_iff)
    then have "filter (\<lambda>p. fst p \<in> pinned m \<or> fst p = cid) (recency (se_manager s)) = filter (\<lambda>p. fst p \<in> pinned m) (recency (se_manager s))"
      by (intro filter_cong) auto
    then show ?thesis using full by (simp add: m(2) mp)
  qed
  have mono: "sum_list (map snd (filter P xs)) \<le> sum_list (map snd (filter Q xs))" if "\<forall>p \<in> set xs. P p \<longrightarrow> Q p" for P Q and xs :: "(string \<times> nat) list"
    using that by (induction xs) auto
  let ?v = "eviction_candidates m"
  have un: "recency (untrack_all ?v m) = filter (\<lambda>p. fst p \<notin> set ?v) (recency m)" "manager_ok (untrack_all ?v m)"
    using untrack_all_refines [OF m(1), of ?v] by auto
  have vp: "set ?v \<inter> pinned m = {}" by (simp add: eviction_candidates_def lru_loop_unpinned)
  have victim: "cid \<in> set ?v"
  proof (rule ccontr)
    assume "cid \<notin> set ?v"
    then have "(cid, length data) \<in> set (recency (untrack_all ?v m))" by (simp add: un m(2))
    then have "\<not> fst ` set (recency (untrack_all ?v m)) \<subseteq> pinned m" using new(3) mp(1) by force
    then have "current_usage (untrack_all ?v m) \<le> max_capacity_bytes m" using eviction_suffices [OF m(1)] by blast
    moreover have "sum_list (map snd (filter (\<lambda>p. fst p \<in> pinned m \<or> fst p = cid) (recency m))) \<le> current_usage (untrack_all ?v m)"
      unfolding manager_okD(6) [OF un(2)] un(1) by (rule mono) (use vp \<open>cid \<notin> set ?v\<close> in auto)
    ultimately show False using bound by simp
  qed
  have over: "current_usage m > max_capacity_bytes m"
    using bound mono [of "recency m" "\<lambda>p. fst p \<in> pinned m \<or> fst p = cid" "\<lambda>_. True"] manager_okD(6) [OF m(1)] by simp
  let ?s = "with_manager (\<lambda>m. snd (track_block cid (length data) None m)) s"
  have "ensure_pin_registry_loaded io ?s = (Inr (), ?s)" using ready by (auto simp: ensure_pin_registry_loaded_def pins_ready_def)
  then have enf: "enforce_capacity_limit io ?s = delete_victims io ?v ?s"
    by (simp add: enforce_capacity_limit_def capacity_victims_def io(4) m_def)
  obtain s2 where s2: "delete_victims io ?v ?s = (Inr (), s2)" "se_manager s2 = untrack_all ?v m"
    using delete_victims_ok [OF io(3), of ?v ?s] by (auto simp: m_def)
  have "map_of (recency (untrack_all ?v m)) cid = None" using victim by (auto simp: un map_of_eq_None_iff)
  then have "hm_get (blocks_meta (untrack_all ?v m)) cid = None" using recency_get [OF un(2), of cid] by simp
  then show ?thesis
    using s2 enf new(1) cid by (simp add: resolve_or_fetch_def load_block_def io verify_cid_def resolve_auto_position_def Let_def store_block_def)
qed

theorem fetched_block_escapes_capacity_witness:
  "\<exists>s'. resolve_or_fetch (demo_io\<lparr>io_resolve := (\<lambda>_. Inr (Some [7]))\<rparr>) demo_root MULTICODEC_DAG_CBOR (engine_with 0 False [] None) = (Inr [7], s')
    \<and> hm_get (se_blocks s') demo_root = Some [7] \<and> hm_get (blocks_meta (se_manager s')) demo_root = None"
  by (rule fetched_block_escapes_capacity) (simp_all add: engine_with_def pins_ready_def demo_io_def, simp_all add: manager_new_def demo_root_def)

text \<open>
  Property C29. The engine's state stays well formed over every run of operations, whatever the stores and
  the peers do: every stored block hashes to its identifier, the recency index, the block metadata and
  the usage counter agree, every block of a registered pin is protected, and the registry has the
  supported version.
\<close>

theorem storage_state_well_formed:
  assumes "\<forall>(io', x) \<in> set xs. same_formats io io'" and "s = storage_run xs (engine_with cap has_meta [] meta)"
  shows "(\<forall>c d. hm_get (se_blocks s) c = Some d \<longrightarrow> block_matches io c d) \<and> manager_ok (se_manager s)
    \<and> pinned_cids (se_registry s) \<subseteq> pinned (se_manager s) \<and> pr_v (se_registry s) = REGISTRY_VERSION"
proof -
  have "engine_ok io (engine_with cap has_meta [] meta)" by (simp add: engine_ok_def engine_with_def pinned_cids_def) (simp add: pins_new_def)
  from engine_ok_run [OF this assms(1)] show ?thesis by (simp add: assms(2) engine_ok_def)
qed

theorem storage_state_well_formed_witness:
  "manager_ok (se_manager (storage_run [(demo_io, GetOp demo_root), (demo_io\<lparr>io_resolve := (\<lambda>_. Inr (Some [7]))\<rparr>, PinRootOp demo_root)] (engine_with 0 True [] None)))"
  using storage_state_well_formed [of "[(demo_io, GetOp demo_root), (demo_io\<lparr>io_resolve := (\<lambda>_. Inr (Some [7]))\<rparr>, PinRootOp demo_root)]" demo_io _ 0 True None]
  by (simp add: same_formats_def)

end
