(* ===== verification/Storage_Files.thy ===== *)
theory Storage_Files
  imports Storage_Safety
begin

text \<open>
  Reading a file in blocks: whatever order the fetches complete in, the result is the concatenation of
  the blocks in the order of the manifest; each of them matches its identifier; and a file that was
  added reads back.
\<close>

section \<open>Reassembly\<close>

text \<open>\<open>ds\<close> gives the blocks that have arrived; the result holds those below \<open>next_index\<close>, the rest wait.\<close>

definition reading :: "(nat \<rightharpoonup> bytes) \<Rightarrow> bytes \<times> (nat, bytes) btmap \<times> nat \<Rightarrow> bool" where
  "reading ds = (\<lambda>(result, pending, n). result = concat (map (\<lambda>j. the (ds j)) [0..<n]) \<and> (\<forall>j < n. ds j \<noteq> None) \<and> ds n = None
     \<and> bt_ok pending \<and> (\<forall>j. bt_get pending j = (if n \<le> j then ds j else None)))"

lemma get_drain_reading:
  "bt_ok pending \<Longrightarrow> result = concat (map (\<lambda>j. the (ds j)) [0..<n]) \<Longrightarrow> \<forall>j < n. ds j \<noteq> None \<Longrightarrow>
   \<forall>j. bt_get pending j = (if n \<le> j then ds j else None) \<Longrightarrow> reading ds (get_drain result pending n)"
proof (induction result pending n rule: get_drain.induct)
  case (1 result pending n)
  show ?case
  proof (cases "bt_get pending n")
    case None
    then have "ds n = None" using "1.prems"(4) by (auto split: if_splits)
    with None "1.prems" show ?thesis by (subst get_drain.simps) (simp add: reading_def)
  next
    case (Some chunk)
    then have n: "ds n = Some chunk" using "1.prems"(4) by (auto split: if_splits)
    have "reading ds (get_drain (result @ chunk) (bt_remove n pending) (n + 1))"
      using "1.prems" n by (intro "1.IH" [OF Some]) (auto simp: less_Suc_eq Suc_le_eq le_less)
    with Some show ?thesis by (subst get_drain.simps) simp
  qed
qed

lemma take_result_reading:
  assumes "reading ds acc" and "ds idx = None"
  shows "reading (ds(idx \<mapsto> data)) (take_result idx data acc)"
proof -
  obtain result pending n where acc: "acc = (result, pending, n)" by (metis prod_cases3)
  have r: "result = concat (map (\<lambda>j. the (ds j)) [0..<n])" "\<forall>j < n. ds j \<noteq> None" "ds n = None" "bt_ok pending"
      "\<forall>j. bt_get pending j = (if n \<le> j then ds j else None)"
    using assms(1) by (simp_all add: reading_def acc)
  have ge: "n \<le> idx" using r(2) assms(2) not_le by blast
  have old: "map (\<lambda>j. the (if j = idx then Some data else ds j)) [0..<n] = map (\<lambda>j. the (ds j)) [0..<n]"
    using ge by (intro map_cong) auto
  show ?thesis
  proof (cases "idx = n")
    case True
    have "reading (ds(n \<mapsto> data)) (get_drain (result @ data) pending (n + 1))"
    proof (rule get_drain_reading [OF r(4)])
      show "result @ data = concat (map (\<lambda>j. the ((ds(n \<mapsto> data)) j)) [0..<n + 1])" using r(1) by (simp add: old [unfolded True])
      show "\<forall>j < n + 1. (ds(n \<mapsto> data)) j \<noteq> None" using r(2) by (auto simp: less_Suc_eq)
      show "\<forall>j. bt_get pending j = (if n + 1 \<le> j then (ds(n \<mapsto> data)) j else None)" using r(3,5) by (auto simp: Suc_le_eq le_less)
    qed
    with True show ?thesis by (simp add: take_result_def acc)
  next
    case False
    with r ge show ?thesis by (auto simp: reading_def take_result_def acc old)
  qed
qed

lemma reading_complete: "reading ds (result, pending, n) \<Longrightarrow> dom ds = {..<m} \<Longrightarrow> result = concat (map (\<lambda>j. the (ds j)) [0..<m])"
proof -
  assume r: "reading ds (result, pending, n)" and m: "dom ds = {..<m}"
  then have "n \<notin> dom ds" "\<forall>j < n. j \<in> dom ds" by (auto simp: reading_def)
  then have "\<not> n < m" "\<not> m < n" unfolding m lessThan_iff by blast+
  then have "n = m" by simp
  with r show ?thesis by (simp add: reading_def)
qed

text \<open>
  A reader of the blocks \<open>cids\<close> under an invariant of the engine, where every fetched block satisfies \<open>Q\<close>.
\<close>

locale chunk_reader =
  fixes io :: "('p, 's::linorder) storage_io" and I :: "'p storage_engine \<Rightarrow> bool" and Q :: "nat \<Rightarrow> bytes \<Rightarrow> bool"
    and cids :: "string list"
  assumes fetched: "I s \<Longrightarrow> i < length cids \<Longrightarrow> resolve_or_fetch io (cids ! i) MULTICODEC_RAW s = (Inr data, s') \<Longrightarrow> I s' \<and> Q i data"
begin

definition progress :: "nat set \<Rightarrow> (nat \<times> string) list \<Rightarrow> bytes \<times> (nat, bytes) btmap \<times> nat \<Rightarrow> bool" where
  "progress U futures acc \<longleftrightarrow> (\<exists>ds. reading ds acc \<and> dom ds \<inter> fst ` set futures = {} \<and> dom ds \<union> fst ` set futures = U
     \<and> (\<forall>i d. ds i = Some d \<longrightarrow> Q i d)) \<and> distinct (map fst futures) \<and> (\<forall>(i, cid) \<in> set futures. i < length cids \<and> cid = cids ! i)"

lemma progress_complete:
  assumes p: "progress U futures acc" and s: "I s" and ne: "futures \<noteq> []"
    and c: "complete_fetch io futures acc s = (Inr u, fs, acc', s')"
  shows "progress U fs acc' \<and> I s'"
proof -
  define i where "i = io_pick_fetch io futures mod length futures"
  have i: "i < length futures" using ne by (simp add: i_def)
  obtain idx cid where x: "futures ! i = (idx, cid)" by fastforce
  have fut: "futures = take i futures @ (idx, cid) # drop (Suc i) futures" using id_take_nth_drop [OF i] x by simp
  obtain ds where ds: "reading ds acc" "dom ds \<inter> fst ` set futures = {}" "dom ds \<union> fst ` set futures = U" "\<forall>i d. ds i = Some d \<longrightarrow> Q i d"
    using p by (auto simp: progress_def)
  have idx: "idx < length cids" "cid = cids ! idx" using p nth_mem [OF i] x by (auto simp: progress_def)
  have fresh: "ds idx = None" using ds(2) nth_mem [OF i] x by force
  obtain data where d: "resolve_or_fetch io cid MULTICODEC_RAW s = (Inr data, s')" "fs = remove_at_index i futures" "acc' = take_result idx data acc"
    using c x by (auto simp: complete_fetch_def i_def Let_def split: prod.splits sum.splits)
  have s': "I s'" "Q idx data" using fetched [OF s idx(1)] d(1) idx(2) by auto
  have dist: "distinct (map fst (take i futures) @ idx # map fst (drop (Suc i) futures))"
  proof -
    have "distinct (map fst futures)" using p by (simp add: progress_def)
    then show ?thesis by (subst (asm) fut) simp
  qed
  have fs: "map fst fs = map fst (take i futures) @ map fst (drop (Suc i) futures)" by (simp add: d(2) remove_at_index_def)
  have "fst ` set futures = set (map fst futures)" by simp
  also have "\<dots> = insert idx (set (map fst fs))" unfolding fs by (subst fut) auto
  finally have sets: "fst ` set futures = insert idx (fst ` set fs)" by simp
  have dfs: "idx \<notin> fst ` set fs" "distinct (map fst fs)" using dist by (simp_all add: fs flip: set_map)
  have sub: "set fs \<subseteq> set futures" by (auto simp: d(2) remove_at_index_def dest: in_set_takeD in_set_dropD)
  have "reading (ds(idx \<mapsto> data)) acc'" using take_result_reading [OF ds(1) fresh] d(3) by simp
  moreover have "dom (ds(idx \<mapsto> data)) \<inter> fst ` set fs = {}" "dom (ds(idx \<mapsto> data)) \<union> fst ` set fs = U" using ds(2,3) sets dfs(1) by auto
  moreover have "\<forall>i d. (ds(idx \<mapsto> data)) i = Some d \<longrightarrow> Q i d" using ds(4) s'(2) by simp
  moreover have "\<forall>(i, cid) \<in> set fs. i < length cids \<and> cid = cids ! i" using p sub by (auto simp: progress_def)
  ultimately have "progress U fs acc'" unfolding progress_def using dfs(2) by (intro conjI exI [of _ "ds(idx \<mapsto> data)"])
  then show ?thesis using s'(1) by blast
qed

lemma progress_submit:
  "progress {..<k} futures acc \<Longrightarrow> I s \<Longrightarrow> submit_fetches io (enumerate k (drop k cids)) futures acc s = (Inr u, fs, acc', s') \<Longrightarrow> k \<le> length cids
     \<Longrightarrow> progress {..<length cids} fs acc' \<and> I s'"
proof (induction "length cids - k" arbitrary: k futures acc s)
  case 0
  then show ?case by simp
next
  case (Suc n)
  then have k: "k < length cids" by simp
  then have en: "enumerate k (drop k cids) = (k, cids ! k) # enumerate (Suc k) (drop (Suc k) cids)"
    by (simp add: Cons_nth_drop_Suc [symmetric])
  have p: "progress {..<Suc k} (futures @ [(k, cids ! k)]) acc"
    using Suc.prems(1) k unfolding progress_def by (auto simp: lessThan_Suc) blast+
  show ?case
  proof (cases "length (futures @ [(k, cids ! k)]) \<ge> min 64 (max 1 (io_get_concurrency io))")
    case True
    obtain r fs1 acc1 s1 where c: "complete_fetch io (futures @ [(k, cids ! k)]) acc s = (r, fs1, acc1, s1)" by (metis prod_cases4)
    have r: "r = Inr ()" "submit_fetches io (enumerate (Suc k) (drop (Suc k) cids)) fs1 acc1 s1 = (Inr u, fs, acc', s')"
      using Suc.prems(3) True c by (auto simp: en Let_def split: sum.splits)
    have "progress {..<Suc k} fs1 acc1 \<and> I s1" by (rule progress_complete [OF p Suc.prems(2) _ c [unfolded r(1)]]) simp
    with Suc.hyps(1) [of "Suc k" fs1 acc1 s1] Suc.hyps(2) r(2) k show ?thesis by simp
  next
    case False
    then have "submit_fetches io (enumerate (Suc k) (drop (Suc k) cids)) (futures @ [(k, cids ! k)]) acc s = (Inr u, fs, acc', s')"
      using Suc.prems(3) by (simp only: en submit_fetches.simps Let_def if_False)
    with Suc.hyps(1) [of "Suc k" "futures @ [(k, cids ! k)]" acc s] Suc.hyps(2) Suc.prems(2) p k show ?thesis by simp
  qed
qed

lemma progress_drain:
  "progress U futures acc \<Longrightarrow> I s \<Longrightarrow> drain_fetches io futures acc s = (Inr u, acc', s') \<Longrightarrow> progress U [] acc' \<and> I s'"
proof (induction "length futures" arbitrary: futures acc s)
  case 0
  then show ?case by (simp add: drain_fetches.simps [of io "[]" acc s])
next
  case (Suc n)
  then have ne: "futures \<noteq> []" by auto
  obtain r f1 a1 s1 where c: "complete_fetch io futures acc s = (r, f1, a1, s1)" by (metis prod_cases4)
  have "f1 = remove_at_index (io_pick_fetch io futures mod length futures) futures" using complete_fetch_futures [of io futures acc s] c by simp
  then have len: "length f1 = n" using ne Suc.hyps(2) by simp
  have r: "r = Inr ()" "drain_fetches io f1 a1 s1 = (Inr u, acc', s')"
    using Suc.prems(3) ne c by (auto simp: drain_fetches.simps [of io futures acc s] split: sum.splits)
  from progress_complete [OF Suc.prems(1,2) ne c [unfolded r(1)]] Suc.hyps(1) [of f1 a1 s1] len r(2) show ?case by simp
qed

lemma chunks_read:
  assumes s: "I s" and sub: "submit_fetches io (enumerate 0 cids) [] ([], [], 0) s = (Inr u, fs, acc, s1)"
    and dr: "drain_fetches io fs acc s1 = (Inr v, (result, pending, n), s2)"
  shows "I s2 \<and> (\<exists>ds. length ds = length cids \<and> result = concat ds \<and> (\<forall>i < length cids. Q i (ds ! i)))"
proof -
  have "progress {..<0} [] ([], [], 0)" by (auto simp: progress_def reading_def intro!: exI [of _ Map.empty] simp: bt_get_def)
  with progress_submit [of 0 "[]" "([], [], 0)" s u fs acc s1] s sub have p: "progress {..<length cids} fs acc" "I s1" by simp_all
  from progress_drain [OF p dr] have p2: "progress {..<length cids} [] (result, pending, n)" "I s2" by auto
  then obtain ds where ds: "reading ds (result, pending, n)" "dom ds = {..<length cids}" "\<forall>i d. ds i = Some d \<longrightarrow> Q i d"
    by (auto simp: progress_def)
  have "Q i (the (ds i))" if "i < length cids" for i using ds(2,3) that by (metis domD lessThan_iff option.sel)
  with reading_complete [OF ds(1,2)] p2(2) show ?thesis by (intro conjI exI [of _ "map (\<lambda>j. the (ds j)) [0..<length cids]"]) simp_all
qed

end

interpretation authentic: chunk_reader io "engine_ok io" "\<lambda>i. block_matches io (cids ! i)" cids for io cids
  by unfold_locales (metis fetch_matches insertCI stored.fetch_inv')

section \<open>Files in a store without faults\<close>

text \<open>The engine holds the blocks \<open>ds\<close> under \<open>cids\<close> and reads of the block store do not fail.\<close>

definition holds_blocks :: "string list \<Rightarrow> bytes list \<Rightarrow> 'p storage_engine \<Rightarrow> bool" where
  "holds_blocks cids ds s \<longleftrightarrow> (\<forall>i < length cids. hm_get (se_blocks s) (cids ! i) = Some (ds ! i))"

lemma fetch_local:
  assumes "io_load io = (\<lambda>_. Inr ())" and "hm_get (se_blocks s) cid = Some data"
  shows "resolve_or_fetch io cid codec s = (Inr data, with_manager (manager_touch cid) s)"
  using assms by (simp add: resolve_or_fetch_def load_block_def)

interpretation local_blocks: chunk_reader "io\<lparr>io_load := (\<lambda>_. Inr ())\<rparr>" "holds_blocks cids ds" "\<lambda>i d. d = ds ! i" cids for io cids ds
  by unfold_locales (auto simp: holds_blocks_def fetch_local)

lemma complete_fetch_local:
  assumes "io_load io = (\<lambda>_. Inr ())" and "holds_blocks cids ds s" and "futures \<noteq> []" and "\<forall>x \<in> set futures. snd x \<in> set cids"
    and "complete_fetch io futures acc s = (r, fs, acc', s')"
  shows "r = Inr () \<and> holds_blocks cids ds s' \<and> (\<forall>x \<in> set fs. snd x \<in> set cids)"
proof -
  define i where "i = io_pick_fetch io futures mod length futures"
  have i: "i < length futures" using assms(3) by (simp add: i_def)
  obtain idx cid where x: "futures ! i = (idx, cid)" by fastforce
  then have "cid \<in> set cids" using assms(4) nth_mem [OF i] by force
  then obtain j where j: "j < length cids" "cid = cids ! j" by (auto simp: in_set_conv_nth)
  then have "hm_get (se_blocks s) cid = Some (ds ! j)" using assms(2) by (simp add: holds_blocks_def)
  from assms(5) x fetch_local [OF assms(1) this] have r: "r = Inr ()" "fs = remove_at_index i futures" "s' = with_manager (manager_touch cid) s"
    by (auto simp: complete_fetch_def i_def [symmetric] Let_def)
  then have "set fs \<subseteq> set futures" by (auto simp: remove_at_index_def dest: in_set_takeD in_set_dropD)
  with r(1,3) assms(2,4) show ?thesis by (auto simp: holds_blocks_def)
qed

lemma submit_fetches_local:
  "io_load io = (\<lambda>_. Inr ()) \<Longrightarrow> holds_blocks cids ds s \<Longrightarrow> \<forall>x \<in> set xs \<union> set futures. snd x \<in> set cids \<Longrightarrow>
   submit_fetches io xs futures acc s = (r, fs, acc', s') \<Longrightarrow> r = Inr () \<and> holds_blocks cids ds s' \<and> (\<forall>x \<in> set fs. snd x \<in> set cids)"
proof (induction xs arbitrary: futures acc s)
  case (Cons x xs)
  obtain r1 f1 a1 s1 where c: "complete_fetch io (futures @ [x]) acc s = (r1, f1, a1, s1)" by (metis prod_cases4)
  have "r1 = Inr () \<and> holds_blocks cids ds s1 \<and> (\<forall>x \<in> set f1. snd x \<in> set cids)"
    by (rule complete_fetch_local [OF Cons.prems(1,2) _ _ c]) (use Cons.prems(3) in auto)
  note step = this
  show ?case
  proof (cases "length (futures @ [x]) \<ge> min 64 (max 1 (io_get_concurrency io))")
    case True
    then have "submit_fetches io xs f1 a1 s1 = (r, fs, acc', s')" using Cons.prems(4) c step by (simp add: Let_def)
    with Cons.IH [of s1 f1 a1] Cons.prems(1,3) step show ?thesis by auto
  next
    case False
    then have "submit_fetches io xs (futures @ [x]) acc s = (r, fs, acc', s')"
      using Cons.prems(4) by (simp only: submit_fetches.simps Let_def if_False)
    with Cons.IH [of s "futures @ [x]" acc] Cons.prems(1-3) show ?thesis by auto
  qed
qed auto

lemma drain_fetches_local:
  "io_load io = (\<lambda>_. Inr ()) \<Longrightarrow> holds_blocks cids ds s \<Longrightarrow> \<forall>x \<in> set futures. snd x \<in> set cids \<Longrightarrow> fst (drain_fetches io futures acc s) = Inr ()"
proof (induction "length futures" arbitrary: futures acc s)
  case 0
  then show ?case by (simp add: drain_fetches.simps [of io "[]" acc s])
next
  case (Suc n)
  then have ne: "futures \<noteq> []" by auto
  obtain r f1 a1 s1 where c: "complete_fetch io futures acc s = (r, f1, a1, s1)" by (metis prod_cases4)
  have "f1 = remove_at_index (io_pick_fetch io futures mod length futures) futures" using complete_fetch_futures [of io futures acc s] c by simp
  then have len: "length f1 = n" using ne Suc.hyps(2) by simp
  from complete_fetch_local [OF Suc.prems(1,2) ne Suc.prems(3) c] Suc.hyps(1) [of f1 s1 a1] len Suc.prems(1) show ?case
    using ne c by (simp add: drain_fetches.simps [of io futures acc s])
qed

lemma get_local:
  assumes load: "io_load io = (\<lambda>_. Inr ())" and root: "hm_get (se_blocks s) root = Some mb" "io_from_cbor io mb = Inr m"
    and blocks: "holds_blocks (fm_chunks m) ds s" "length ds = length (fm_chunks m)"
  shows "fst (get_file io root s) = Inr (concat ds)"
proof -
  let ?cids = "fm_chunks m" and ?s = "with_manager (manager_touch root) s"
  have io: "io\<lparr>io_load := (\<lambda>_. Inr ())\<rparr> = io" using load by simp
  have h: "holds_blocks ?cids ds ?s" using blocks(1) by (simp add: holds_blocks_def)
  have chk: "check_loads io cs ?s = Inr ()" for cs by (induction cs) (simp_all add: load_block_def load)
  obtain r fs acc s1 where sub: "submit_fetches io (enumerate 0 ?cids) [] ([], [], 0) ?s = (r, fs, acc, s1)" by (metis prod_cases4)
  have "\<forall>x \<in> set (enumerate 0 ?cids) \<union> set []. snd x \<in> set ?cids" by (auto simp: in_set_enumerate_eq)
  from submit_fetches_local [OF load h this sub] have sub': "r = Inr ()" "holds_blocks ?cids ds s1" "\<forall>x \<in> set fs. snd x \<in> set ?cids"
    by auto
  obtain r2 result pending n s2 where dr: "drain_fetches io fs acc s1 = (r2, (result, pending, n), s2)" by (metis surj_pair)
  have r2: "r2 = Inr ()" using drain_fetches_local [OF load sub'(2,3), of acc] dr by simp
  obtain ds' where "length ds' = length ?cids" "result = concat ds'" "\<forall>i < length ?cids. ds' ! i = ds ! i"
    using local_blocks.chunks_read [of ?cids ds ?s io, unfolded io, OF h sub [unfolded sub'(1)] dr [unfolded r2]] by blast
  then have "result = concat ds" using blocks(2) by (metis nth_equalityI)
  then show ?thesis using sub sub'(1) dr r2 chk by (simp add: get_file_def fetch_local [OF load root(1)] root(2))
qed

section \<open>Properties of reading\<close>

text \<open>
  Property C13. Whatever peers answer and whatever order the blocks arrive in, a successful read returns
  the blocks the root's manifest lists, complete and in that order: the manifest matches the root
  identifier and every block matches its own.
\<close>

theorem get_returns_authentic:
  assumes "engine_ok io s" and "get_file io root s = (Inr result, s')"
  shows "\<exists>mb m ds. block_matches io root mb \<and> io_from_cbor io mb = Inr m \<and> result = concat ds
    \<and> list_all2 (block_matches io) (fm_chunks m) ds"
proof -
  obtain mb s1 m fs acc s2 pending n where r: "resolve_or_fetch io root MULTICODEC_DAG_CBOR s = (Inr mb, s1)" "io_from_cbor io mb = Inr m"
      "submit_fetches io (enumerate 0 (fm_chunks m)) [] ([], [], 0) s1 = (Inr (), fs, acc, s2)" "drain_fetches io fs acc s2 = (Inr (), (result, pending, n), s')"
    using assms(2) by (auto simp: get_file_def split: sum.splits prod.splits)
  have mb: "block_matches io root mb" and s1: "engine_ok io s1"
    using fetch_matches [OF assms(1) _ r(1)] stored.fetch_inv' [OF assms(1) _ r(1)] by auto
  obtain ds where "length ds = length (fm_chunks m)" "result = concat ds" "\<forall>i < length (fm_chunks m). block_matches io (fm_chunks m ! i) (ds ! i)"
    using authentic.chunks_read [OF s1 r(3,4)] by blast
  with mb r(2) show ?thesis by (intro exI [of _ mb] exI [of _ m] exI [of _ ds]) (simp add: list_all2_conv_all_nth)
qed

text \<open>A small instance: one file of one block.\<close>

definition file_manifest_demo :: file_manifest where
  "file_manifest_demo = \<lparr>fm_name = ''f'', fm_size = 1, fm_chunks = [compute_cid (\<lambda>d. d) (\<lambda>n. [of_nat n]) [5] MULTICODEC_RAW]\<rparr>"

definition file_io :: "(unit, nat) storage_io" where
  "file_io = demo_io\<lparr>io_to_cbor := (\<lambda>m. if m = file_manifest_demo then Inr [7] else Inl (Internal ''e'')),
     io_from_cbor := (\<lambda>b. if b = [7] then Inr file_manifest_demo else Inl (Internal ''e''))\<rparr>"

definition file_store :: "(string, bytes) hmap" where
  "file_store = [(demo_root, [7]), (compute_cid (\<lambda>d. d) (\<lambda>n. [of_nat n]) [5] MULTICODEC_RAW, [5])]"

lemma file_io_simps [simp]:
  "io_store file_io = (\<lambda>_. Inr ())" "io_load file_io = (\<lambda>_. Inr ())" "io_sha256 file_io = (\<lambda>d. d)" "io_varint file_io = (\<lambda>n. [of_nat n])"
  by (simp_all add: file_io_def demo_io_def)

lemma demo_cids_differ: "compute_cid (\<lambda>d. d) (\<lambda>n. [of_nat n]) a MULTICODEC_DAG_CBOR \<noteq> compute_cid (\<lambda>d. d) (\<lambda>n. [of_nat n]) b MULTICODEC_RAW"
  by (auto simp: compute_cid_def MULTICODEC_DAG_CBOR_def MULTICODEC_RAW_def dest!: base32_encode_inject)

theorem get_returns_authentic_witness:
  "\<exists>mb m ds. block_matches file_io demo_root mb \<and> io_from_cbor file_io mb = Inr m \<and> [5] = concat ds \<and> list_all2 (block_matches file_io) (fm_chunks m) ds"
proof -
  let ?s = "engine_with 9 False file_store None :: unit storage_engine"
  have ok: "engine_ok file_io ?s"
    by (auto simp: engine_ok_def engine_with_def file_store_def pinned_cids_def hm_get_def block_matches_def demo_root_def split: if_splits)
      (simp add: pins_new_def)
  have "fst (get_file file_io demo_root ?s) = Inr (concat [[5]])"
    by (rule get_local [where mb = "[7]" and m = file_manifest_demo])
      (use demo_cids_differ [of "[7]" "[5]"] in \<open>auto simp: engine_with_def file_store_def hm_get_def file_io_def demo_io_def holds_blocks_def file_manifest_demo_def demo_root_def\<close>)
  then obtain s' where "get_file file_io demo_root ?s = (Inr [5], s')" by (cases "get_file file_io demo_root ?s") auto
  from get_returns_authentic [OF ok this] show ?thesis .
qed

section \<open>Adding files to a store without faults\<close>

definition raw_cid :: "('p, 's) storage_io \<Rightarrow> bytes \<Rightarrow> string" where
  "raw_cid io c = compute_cid (io_sha256 io) (io_varint io) c MULTICODEC_RAW"

text \<open>Every block of \<open>T\<close> is in flight in \<open>ws\<close> or stored, and there is room for what is in flight and \<open>rest\<close> more bytes.\<close>

definition writing :: "('p, 's) storage_io \<Rightarrow> bytes set \<Rightarrow> nat \<Rightarrow> (string \<times> bytes) list \<Rightarrow> 'p storage_engine \<Rightarrow> bool" where
  "writing io T rest ws s \<longleftrightarrow> current_usage (se_manager s) + sum_list (map (length \<circ> snd) ws) + rest \<le> max_capacity_bytes (se_manager s)
     \<and> (\<forall>x \<in> set ws. fst x = raw_cid io (snd x) \<and> snd x \<in> T) \<and> inj_on (raw_cid io) T
     \<and> (\<forall>c \<in> T. c \<in> snd ` set ws \<or> hm_get (se_blocks s) (raw_cid io c) = Some c)"

lemma track_usage: "current_usage (snd (track_block cid n pos m)) \<le> current_usage m + n"
  "max_capacity_bytes (snd (track_block cid n pos m)) = max_capacity_bytes m"
  by (simp_all add: track_block_def Let_def split: option.splits)

lemma enforce_within: "current_usage (se_manager s) \<le> max_capacity_bytes (se_manager s) \<Longrightarrow> enforce_capacity_limit io s = (Inr (), s)"
  by (simp add: enforce_capacity_limit_def capacity_victims_within)

lemma sum_remove_at: "i < length xs \<Longrightarrow> sum_list (map f (remove_at_index i xs)) + f (xs ! i) = (sum_list (map f xs) :: nat)"
  by (subst (2) id_take_nth_drop [of i xs]) (simp_all add: remove_at_index_def)

lemma complete_write_local:
  assumes store: "io_store io = (\<lambda>_. Inr ())" and w: "writing io T rest ws s" and ne: "ws \<noteq> []"
  shows "\<exists>ws' s'. complete_write io pos ws s = (Inr (), ws', s') \<and> writing io T rest ws' s' \<and> length ws' < length ws"
proof -
  define i where "i = io_pick io ws mod length ws"
  have i: "i < length ws" using ne by (simp add: i_def)
  obtain cid c where x: "ws ! i = (cid, c)" by fastforce
  have cid: "cid = raw_cid io c" "c \<in> T" using w nth_mem [OF i] x by (auto simp: writing_def)
  let ?ws = "remove_at_index i ws"
  let ?s = "with_manager (\<lambda>m. snd (track_block cid (length c) pos m)) (s\<lparr>se_blocks := hm_insert cid c (se_blocks s)\<rparr>)"
  have sum: "sum_list (map (length \<circ> snd) ?ws) + length c = sum_list (map (length \<circ> snd) ws)"
    using sum_remove_at [OF i, of "length \<circ> snd"] x by simp
  have room: "current_usage (se_manager ?s) + sum_list (map (length \<circ> snd) ?ws) + rest \<le> max_capacity_bytes (se_manager ?s)"
    using track_usage [of cid "length c" pos "se_manager s"] sum w by (auto simp: writing_def)
  have sub: "set ?ws \<subseteq> set ws" by (auto simp: remove_at_index_def dest: in_set_takeD in_set_dropD)
  have all: "set ws = insert (cid, c) (set ?ws)" by (subst id_take_nth_drop [OF i]) (auto simp: remove_at_index_def x)
  have kept: "b \<in> snd ` set ?ws \<or> hm_get (se_blocks ?s) (raw_cid io b) = Some b" if "b \<in> T" for b
  proof (cases "b = c")
    case False
    then have "raw_cid io b \<noteq> cid" using w that cid by (auto simp: writing_def dest: inj_onD)
    moreover have "b \<in> snd ` set ws \<or> hm_get (se_blocks s) (raw_cid io b) = Some b" using w that by (simp add: writing_def)
    ultimately show ?thesis using False by (auto simp: all)
  qed (simp add: cid)
  have "complete_write io pos ws s = (Inr (), ?ws, ?s)"
    using room enforce_within [of ?s io] by (simp add: complete_write_def i_def [symmetric] x store_block_def store Let_def)
  moreover have "writing io T rest ?ws ?s" using room sub kept w by (auto simp: writing_def)
  ultimately show ?thesis using i by (intro exI [of _ ?ws] exI [of _ ?s]) simp
qed

lemma submit_writes_local:
  "io_store io = (\<lambda>_. Inr ()) \<Longrightarrow> writing io T (sum_list (map length chunks) + rest) ws s \<Longrightarrow> inj_on (raw_cid io) (T \<union> set chunks)
   \<Longrightarrow> \<exists>ws' s'. submit_writes io pos chunks ws s = (Inr (), ws', s') \<and> writing io (T \<union> set chunks) rest ws' s'"
proof (induction chunks arbitrary: T ws s)
  case (Cons c chunks)
  let ?w = "ws @ [(raw_cid io c, c)]"
  have w: "writing io (insert c T) (sum_list (map length chunks) + rest) ?w s"
    using Cons.prems(2,3) by (auto simp: writing_def dest: inj_on_subset)
  have eq: "T \<union> set (c # chunks) = insert c T \<union> set chunks" by auto
  show ?case
  proof (cases "length ?w \<ge> WRITE_CONCURRENCY")
    case True
    obtain w1 s1 where c: "complete_write io pos ?w s = (Inr (), w1, s1)" "writing io (insert c T) (sum_list (map length chunks) + rest) w1 s1"
      using complete_write_local [OF Cons.prems(1) w, of pos] by auto
    with Cons.IH [OF Cons.prems(1) c(2)] Cons.prems(3) True show ?thesis by (simp add: eq raw_cid_def Let_def)
  next
    case False
    with Cons.IH [OF Cons.prems(1) w] Cons.prems(3) show ?thesis by (simp add: eq raw_cid_def Let_def)
  qed
qed simp

lemma drain_writes_local:
  "io_store io = (\<lambda>_. Inr ()) \<Longrightarrow> writing io T rest ws s \<Longrightarrow> \<exists>s'. drain_writes io pos ws s = (Inr (), s') \<and> writing io T rest [] s'"
proof (induction "length ws" arbitrary: ws s rule: less_induct)
  case less
  show ?case
  proof (cases "ws = []")
    case True
    with less.prems show ?thesis by (simp add: drain_writes.simps [of io pos "[]" s])
  next
    case False
    obtain w1 s1 where c: "complete_write io pos ws s = (Inr (), w1, s1)" "writing io T rest w1 s1" "length w1 < length ws"
      using complete_write_local [OF less.prems False] by blast
    from less.hyps [OF c(3) less.prems(1) c(2)] c(1) False show ?thesis by (simp add: drain_writes.simps [of io pos ws s])
  qed
qed

lemma data_chunks_concat: "0 < n \<Longrightarrow> concat (data_chunks n xs) = xs"
  by (induction n xs rule: data_chunks.induct) (subst data_chunks.simps, auto)

definition manifest_of :: "('p, 's) storage_io \<Rightarrow> string \<Rightarrow> bytes \<Rightarrow> file_manifest" where
  "manifest_of io name data = \<lparr>fm_name = name, fm_size = length data, fm_chunks = map (raw_cid io) (data_chunks CHUNK_SIZE data)\<rparr>"

lemma add_local:
  fixes io :: "('p, 's::linorder) storage_io"
  assumes store: "io_store io = (\<lambda>_. Inr ())" and cbor: "io_to_cbor io (manifest_of io name data) = Inr mb"
    and room: "current_usage (se_manager s) + length data + length mb \<le> max_capacity_bytes (se_manager s)"
    and inj: "inj_on (raw_cid io) (set (data_chunks CHUNK_SIZE data))"
    and root: "root = compute_cid (io_sha256 io) (io_varint io) mb MULTICODEC_DAG_CBOR" "root \<notin> raw_cid io ` set (data_chunks CHUNK_SIZE data)"
  shows "\<exists>s'. add_at_inner io name data pos s = (Inr (root, map (raw_cid io) (data_chunks CHUNK_SIZE data)), s')
    \<and> hm_get (se_blocks s') root = Some mb \<and> (\<forall>c \<in> set (data_chunks CHUNK_SIZE data). hm_get (se_blocks s') (raw_cid io c) = Some c)"
proof -
  define p where "p = (case pos of Some p \<Rightarrow> Some p | None \<Rightarrow> resolve_auto_position io)"
  let ?chunks = "data_chunks CHUNK_SIZE data"
  have "sum_list (map length ?chunks) = length (concat ?chunks)" by (simp add: length_concat)
  then have len: "sum_list (map length ?chunks) = length data" by (simp add: data_chunks_concat CHUNK_SIZE_def)
  have "writing io {} (sum_list (map length ?chunks) + length mb) [] s" using room by (simp add: writing_def len)
  from submit_writes_local [OF store this, of p] inj obtain w1 s1 where s1: "submit_writes io p ?chunks [] s = (Inr (), w1, s1)"
      "writing io (set ?chunks) (length mb) w1 s1" by auto
  from drain_writes_local [OF store s1(2), of p] obtain s2 where s2: "drain_writes io p w1 s1 = (Inr (), s2)"
      "writing io (set ?chunks) (length mb) [] s2" by blast
  let ?s = "with_manager (\<lambda>m. snd (track_block root (length mb) p m)) (s2\<lparr>se_blocks := hm_insert root mb (se_blocks s2)\<rparr>)"
  have "current_usage (se_manager ?s) \<le> max_capacity_bytes (se_manager ?s)"
    using track_usage [of root "length mb" p "se_manager s2"] s2(2) by (auto simp: writing_def)
  from enforce_within [OF this, of io]
  have "add_at_inner io name data pos s = (Inr (root, map (raw_cid io) ?chunks), ?s)"
    using s1(1) s2(1) cbor by (simp add: add_at_inner_def p_def [symmetric] Let_def raw_cid_def [symmetric] manifest_of_def store_block_def store root(1))
  moreover have "raw_cid io c \<noteq> root" if "c \<in> set ?chunks" for c using root(2) that by auto
  ultimately show ?thesis using s2(2) by (intro exI [of _ ?s]) (auto simp: writing_def)
qed

text \<open>
  Property C12. Files read back: with stores that work, room for the file and identifiers that differ for
  its different blocks, adding a file succeeds and reading its root then returns exactly its bytes,
  whichever order the block writes and reads complete in and whatever the peers would answer.
\<close>

theorem add_get_roundtrip:
  fixes io :: "('p, 's::linorder) storage_io"
  assumes stores: "io_store io = (\<lambda>_. Inr ())" "io_load io' = (\<lambda>_. Inr ())" and formats: "formats_ok io" "same_formats io io'"
    and cbor: "io_to_cbor io (manifest_of io name data) = Inr mb"
    and room: "current_usage (se_manager s) + length data + length mb \<le> max_capacity_bytes (se_manager s)"
    and differ: "inj_on (raw_cid io) (set (data_chunks CHUNK_SIZE data))"
      "compute_cid (io_sha256 io) (io_varint io) mb MULTICODEC_DAG_CBOR \<notin> raw_cid io ` set (data_chunks CHUNK_SIZE data)"
  shows "\<exists>root s'. add io name data s = (Inr root, s') \<and> fst (get_file io' root s') = Inr data"
proof -
  let ?root = "compute_cid (io_sha256 io) (io_varint io) mb MULTICODEC_DAG_CBOR" and ?chunks = "data_chunks CHUNK_SIZE data"
  obtain s' where s': "add_at_inner io name data None s = (Inr (?root, map (raw_cid io) ?chunks), s')" "hm_get (se_blocks s') ?root = Some mb"
      "\<forall>c \<in> set ?chunks. hm_get (se_blocks s') (raw_cid io c) = Some c"
    using add_local [OF stores(1) cbor room differ(1) refl differ(2)] by blast
  have m: "io_from_cbor io' mb = Inr (manifest_of io name data)"
    using formats cbor by (simp add: formats_ok_def same_formats_def)
  have "holds_blocks (fm_chunks (manifest_of io name data)) ?chunks s'" using s'(3) by (simp add: holds_blocks_def manifest_of_def)
  from get_local [OF stores(2) s'(2) m this] have "fst (get_file io' ?root s') = Inr data"
    by (simp add: manifest_of_def data_chunks_concat CHUNK_SIZE_def)
  then show ?thesis using s'(1) by (intro exI [of _ ?root] exI [of _ s']) (simp add: add_def add_at_def)
qed

theorem add_get_roundtrip_witness:
  "\<exists>root s'. add file_io ''f'' [5] (engine_with 9 False [] None) = (Inr root, s') \<and> fst (get_file file_io root s') = Inr [5]"
proof (rule add_get_roundtrip [where mb = "[7]"])
  have chunks: "data_chunks CHUNK_SIZE [5 :: u8] = [[5]]" by (simp add: data_chunks.simps CHUNK_SIZE_def)
  show "io_to_cbor file_io (manifest_of file_io ''f'' [5]) = Inr [7]"
    by (simp add: manifest_of_def chunks raw_cid_def) (simp add: file_io_def file_manifest_demo_def)
  show "formats_ok file_io" by (simp add: formats_ok_def file_io_def demo_io_def)
  show "inj_on (raw_cid file_io) (set (data_chunks CHUNK_SIZE [5]))" by (simp add: chunks)
  show "compute_cid (io_sha256 file_io) (io_varint file_io) [7] MULTICODEC_DAG_CBOR \<notin> raw_cid file_io ` set (data_chunks CHUNK_SIZE [5])"
    by (simp add: chunks raw_cid_def demo_cids_differ)
qed (simp_all add: same_formats_def engine_with_def manager_new_def)

end
