(* ===== verification/Reorder.thy ===== *)
theory Reorder
  imports Core_Types
begin

text \<open>
  The per-source reorder buffer of \<open>overlay/router/reorder.rs\<close>: it holds sequenced messages
  that arrive ahead of a gap and releases them in sequence order when the gap fills, when
  it has been open for \<open>gap_timeout\<close>, when the buffer exceeds its cap, or when the sender's
  counter restarts at 1. Sequence numbers are \<open>u64\<close>; the three additions \<open>+ 1\<close> of the code wrap
  around, as they do in a release build. Log statements are left out.
\<close>

section \<open>State and operations\<close>

definition REORDER_MAX_PER_SOURCE :: nat where "REORDER_MAX_PER_SOURCE = 256"
definition REORDER_MAX_SOURCES :: nat where "REORDER_MAX_SOURCES = 1024"
definition REORDER_GAP_TIMEOUT :: duration where "REORDER_GAP_TIMEOUT = 8000"

record 'c source_state =
  next_expected :: nat
  buffered :: "(nat, 'c) btmap"
  gap_since :: "instant option"
  last_activity :: instant

record 'c reorder_buffer =
  sources :: "(node_id, 'c source_state) hmap"
  max_per_source :: nat
  max_sources :: nat
  gap_timeout :: duration

definition source_state_new :: "instant \<Rightarrow> 'c source_state" where
  "source_state_new now =
     \<lparr>next_expected = 1, buffered = [], gap_since = None, last_activity = now\<rparr>"

text \<open>\<open>SourceState::flush\<close>: the skipped range, the new state and the extended output.\<close>

definition flush :: "'c source_state \<Rightarrow> 'c list \<Rightarrow> (nat \<times> nat) option \<times> 'c source_state \<times> 'c list" where
  "flush s out =
     (let skipped =
            (case buffered s of
               [] \<Rightarrow> None
             | (first, _) # _ \<Rightarrow>
                 if first > next_expected s then Some (next_expected s, first) else None);
          (s, out) =
            (if buffered s \<noteq> [] then
               (s\<lparr>buffered := [], next_expected := wrap64 (fst (last (buffered s)) + 1)\<rparr>,
                out @ map snd (buffered s))
             else (s, out))
      in (skipped, s\<lparr>gap_since := None\<rparr>, out))"

definition reorder_new :: "nat \<Rightarrow> nat \<Rightarrow> duration \<Rightarrow> 'c reorder_buffer" where
  "reorder_new per_source srcs timeout =
     \<lparr>sources = [], max_per_source = per_source, max_sources = srcs, gap_timeout = timeout\<rparr>"

definition reorder_default :: "'c reorder_buffer" where
  "reorder_default = reorder_new REORDER_MAX_PER_SOURCE REORDER_MAX_SOURCES REORDER_GAP_TIMEOUT"

text \<open>The loop \<open>while let Some(next) = state.buffered.remove(&state.next_expected)\<close>.\<close>

function drain :: "nat \<Rightarrow> (nat, 'c) btmap \<Rightarrow> 'c list \<Rightarrow> nat \<times> (nat, 'c) btmap \<times> 'c list" where
  "drain ne buf out =
     (case bt_get buf ne of
        None \<Rightarrow> (ne, buf, out)
      | Some c \<Rightarrow> drain (wrap64 (ne + 1)) (bt_remove ne buf) (out @ [c]))"
  by pat_completeness auto
termination
  by (relation "measure (\<lambda>(ne, buf, out). length buf)") (auto simp: bt_remove_less)

declare drain.simps [simp del]

definition evict_sources_if_needed :: "node_id \<Rightarrow> 'c reorder_buffer \<Rightarrow> 'c reorder_buffer" where
  "evict_sources_if_needed incoming b =
     (if length (sources b) < max_sources b \<or> hm_contains (sources b) incoming then b
      else
        (case min_by_key (\<lambda>(_, s). last_activity s) (sources b) of
           None \<Rightarrow> b
         | Some (oldest, _) \<Rightarrow> b\<lparr>sources := hm_remove oldest (sources b)\<rparr>))"

text \<open>The lazy flush of a gap that has been open for the timeout.\<close>

definition flush_if_stale :: "duration \<Rightarrow> instant \<Rightarrow> 'c source_state \<Rightarrow> 'c source_state \<times> 'c list" where
  "flush_if_stale timeout now s =
     (case gap_since s of
        None \<Rightarrow> (s, [])
      | Some since \<Rightarrow> if now - since \<ge> timeout then snd (flush s []) else (s, []))"

text \<open>The part of \<open>accept_at\<close> after the source's state was looked up: a sequenced arrival.\<close>

definition accept_seq ::
  "nat \<Rightarrow> duration \<Rightarrow> nat \<Rightarrow> 'c \<Rightarrow> instant \<Rightarrow> 'c source_state \<Rightarrow> 'c source_state \<times> 'c list" where
  "accept_seq per_source timeout seq c now s =
     (let s = s\<lparr>last_activity := now\<rparr>;
          (s, out) = flush_if_stale timeout now s
      in
      if seq = 1 \<and> next_expected s > 1 then
        let (_, s, out) = flush s out in (s\<lparr>next_expected := 2\<rparr>, out @ [c])
      else if seq < next_expected s then (s, out)
      else if seq = next_expected s then
        let (ne, buf, out) = drain (wrap64 (next_expected s + 1)) (buffered s) (out @ [c]) in
        (s\<lparr>next_expected := ne, buffered := buf,
           gap_since := (if buf = [] then None else Some now)\<rparr>, out)
      else
        let s = s\<lparr>buffered := bt_insert seq c (buffered s)\<rparr>;
            s = (if gap_since s = None then s\<lparr>gap_since := Some now\<rparr> else s)
        in if length (buffered s) > per_source then snd (flush s out) else (s, out))"

definition accept_at ::
  "node_id \<Rightarrow> nat \<Rightarrow> 'c \<Rightarrow> instant \<Rightarrow> 'c reorder_buffer \<Rightarrow> 'c list \<times> 'c reorder_buffer" where
  "accept_at from seq c now b =
     (if seq = 0 then
        (case hm_get (sources b) from of
           None \<Rightarrow> ([c], b)
         | Some s \<Rightarrow>
             let (s, out) = flush_if_stale (gap_timeout b) now (s\<lparr>last_activity := now\<rparr>) in
             (out @ [c], b\<lparr>sources := hm_insert from s (sources b)\<rparr>))
      else
        let b = evict_sources_if_needed from b;
            s = (case hm_get (sources b) from of None \<Rightarrow> source_state_new now | Some s \<Rightarrow> s);
            (s, out) = accept_seq (max_per_source b) (gap_timeout b) seq c now s
        in (out, b\<lparr>sources := hm_insert from s (sources b)\<rparr>))"

fun flush_sources ::
  "duration \<Rightarrow> instant \<Rightarrow> (node_id, 'c source_state) hmap \<Rightarrow>
   (node_id \<times> 'c list) list \<times> (node_id, 'c source_state) hmap" where
  "flush_sources timeout now [] = ([], [])"
| "flush_sources timeout now ((i, s) # m) =
     (let (flushed, m') = flush_sources timeout now m in
      case gap_since s of
        None \<Rightarrow> (flushed, (i, s) # m')
      | Some since \<Rightarrow>
          if now - since < timeout then (flushed, (i, s) # m')
          else
            let (_, s', out) = flush s [] in
            (if out \<noteq> [] then (i, out) # flushed else flushed, (i, s') # m'))"

definition flush_expired ::
  "instant \<Rightarrow> 'c reorder_buffer \<Rightarrow> (node_id \<times> 'c list) list \<times> 'c reorder_buffer" where
  "flush_expired now b =
     (let (flushed, m) = flush_sources (gap_timeout b) now (sources b) in
      (flushed, b\<lparr>sources := m\<rparr>))"

section \<open>The invariant of a source\<close>

text \<open>
  Buffered sequence numbers are strictly increasing and ahead of \<open>next_expected\<close>, a gap is
  open exactly while something is buffered, and the buffer is within its cap.
\<close>

definition src_ok :: "nat \<Rightarrow> 'c source_state \<Rightarrow> bool" where
  "src_ok cap s \<longleftrightarrow>
     bt_ok (buffered s) \<and>
     (\<forall>p \<in> set (buffered s). next_expected s < fst p \<and> fst p < u64_max) \<and>
     (gap_since s = None \<longleftrightarrow> buffered s = []) \<and>
     length (buffered s) \<le> cap \<and>
     1 \<le> next_expected s \<and> next_expected s \<le> u64_max"

lemma src_ok_new [simp]: "src_ok cap (source_state_new now)"
  by (simp add: src_ok_def source_state_new_def u64_max_def)

lemma src_ok_activity [simp]: "src_ok cap (s\<lparr>last_activity := t\<rparr>) = src_ok cap s"
  by (simp add: src_ok_def)

lemma flush_Nil: "buffered s = [] \<Longrightarrow> flush s out = (None, s\<lparr>gap_since := None\<rparr>, out)"
  by (simp add: flush_def)

lemma flush_out [simp]: "snd (snd (flush s out)) = out @ map snd (buffered s)"
  by (simp add: flush_def Let_def)

lemma flush_resultD:
  "snd (flush s out) = (s', out') \<Longrightarrow> s' = fst (snd (flush s out)) \<and> out' = out @ map snd (buffered s)"
  by (metis flush_out fst_conv snd_conv)

lemma flush_buffered [simp]: "buffered (fst (snd (flush s out))) = []"
  by (simp add: flush_def Let_def)

lemma flush_gap [simp]: "gap_since (fst (snd (flush s out))) = None"
  by (simp add: flush_def Let_def)

lemma flush_next:
  "\<forall>p \<in> set (buffered s). fst p < u64_max \<Longrightarrow>
   next_expected (fst (snd (flush s out))) =
     (if buffered s = [] then next_expected s else Suc (fst (last (buffered s))))"
  by (simp add: flush_def Let_def)

lemma flush_next_le:
  assumes "src_ok cap s"
  shows "next_expected s \<le> next_expected (fst (snd (flush s out)))"
    and "next_expected (fst (snd (flush s out))) \<le> u64_max"
    and "p \<in> set (buffered s) \<Longrightarrow> fst p < next_expected (fst (snd (flush s out)))"
proof -
  from assms have lt: "\<forall>p \<in> set (buffered s). next_expected s < fst p \<and> fst p < u64_max"
    and ok: "bt_ok (buffered s)" and le: "next_expected s \<le> u64_max"
    by (auto simp: src_ok_def)
  show "next_expected s \<le> next_expected (fst (snd (flush s out)))"
    using lt by (auto simp: flush_next) (metis last_in_set less_imp_le le_SucI)
  show "next_expected (fst (snd (flush s out))) \<le> u64_max"
    using lt le by (auto simp: flush_next Suc_le_eq)
  show "fst p < next_expected (fst (snd (flush s out)))" if "p \<in> set (buffered s)"
  proof -
    have "fst p \<le> fst (last (buffered s))" using ok that by (rule bt_ok_last)
    with that lt show ?thesis by (auto simp: flush_next less_Suc_eq_le)
  qed
qed

lemma flush_ok: "src_ok cap s \<Longrightarrow> src_ok cap (fst (snd (flush s out)))"
  using flush_next_le(1,2) [of cap s out] by (auto simp: src_ok_def)

lemma flush_if_stale_cases:
  obtains (kept) "flush_if_stale timeout now s = (s, [])"
      and "\<forall>since. gap_since s = Some since \<longrightarrow> now - since < timeout"
    | (flushed) since where "flush_if_stale timeout now s = snd (flush s [])"
      and "gap_since s = Some since" and "timeout \<le> now - since"
proof (cases "\<exists>since. gap_since s = Some since \<and> timeout \<le> now - since")
  case True
  then show ?thesis using flushed by (auto simp: flush_if_stale_def)
next
  case False
  then have "flush_if_stale timeout now s = (s, [])"
    by (cases "gap_since s") (auto simp: flush_if_stale_def not_le)
  with False show ?thesis using kept by (auto simp: not_le)
qed

lemma flush_if_stale_ok:
  assumes "src_ok cap s"
  shows "src_ok cap (fst (flush_if_stale timeout now s))"
    and "next_expected s \<le> next_expected (fst (flush_if_stale timeout now s))"
  by (cases rule: flush_if_stale_cases [of timeout now s];
      use assms flush_ok flush_next_le(1) in force)+

section \<open>Draining the buffer when the gap fills\<close>

lemma drain_spec:
  assumes "bt_ok buf" and "\<forall>p \<in> set buf. ne \<le> fst p \<and> fst p < u64_max"
  shows "\<exists>pre buf'. buf = pre @ buf' \<and> map fst pre = [ne ..< ne + length pre] \<and>
    drain ne buf out = (ne + length pre, buf', out @ map snd pre) \<and>
    (\<forall>p \<in> set buf'. ne + length pre < fst p)"
  using assms
proof (induction buf arbitrary: ne out)
  case Nil
  then show ?case by (simp add: drain.simps [of ne] bt_get_def)
next
  case (Cons p buf)
  obtain k c where p: "p = (k, c)" by fastforce
  from Cons.prems have ok: "bt_ok buf" and gt: "\<forall>q \<in> set buf. k < fst q"
    and k: "ne \<le> k" "k < u64_max"
    by (auto simp: bt_ok_Cons p)
  show ?case
  proof (cases "k = ne")
    case True
    have get: "bt_get (p # buf) ne = Some c" by (simp add: bt_get_def p True)
    have rem: "bt_remove ne (p # buf) = buf"
      using gt by (auto simp: bt_remove_def p True intro: filter_True)
    have step: "drain ne (p # buf) out = drain (Suc ne) buf (out @ [c])"
      using get k by (simp add: drain.simps [of ne "p # buf"] rem True)
    have "\<forall>q \<in> set buf. Suc ne \<le> fst q \<and> fst q < u64_max"
      using gt Cons.prems True by auto
    from Cons.IH [OF ok this, of "out @ [c]"] obtain pre buf' where
      *: "buf = pre @ buf'" "map fst pre = [Suc ne ..< Suc ne + length pre]"
        "drain (Suc ne) buf (out @ [c]) = (Suc ne + length pre, buf', (out @ [c]) @ map snd pre)"
        "\<forall>q \<in> set buf'. Suc ne + length pre < fst q" by blast
    have "map fst (p # pre) = [ne ..< ne + length (p # pre)]"
      using *(2) by (simp add: p True upt_conv_Cons del: upt_Suc)
    with * step show ?thesis
      by (intro exI [of _ "p # pre"] exI [of _ buf']) (simp add: p)
  next
    case False
    then have "bt_get (p # buf) ne = None"
      using gt k by (force simp: bt_get_None p)
    then have "drain ne (p # buf) out = (ne, p # buf, out)"
      by (simp add: drain.simps [of ne "p # buf"])
    with False gt k show ?thesis
      by (intro exI [of _ "[]"] exI [of _ "p # buf"]) (auto simp: p)
  qed
qed

section \<open>One sequenced arrival\<close>

text \<open>The branches of \<open>accept_seq\<close>, over the state \<open>s1\<close> left by the lazy flush.\<close>

lemma accept_seq_unfold:
  assumes "flush_if_stale timeout now (s\<lparr>last_activity := now\<rparr>) = (s1, o1)"
  shows "seq = 1 \<Longrightarrow> 1 < next_expected s1 \<Longrightarrow>
      accept_seq cap timeout seq c now s =
        ((fst (snd (flush s1 o1)))\<lparr>next_expected := 2\<rparr>, o1 @ map snd (buffered s1) @ [c])"
    and "\<not> (seq = 1 \<and> 1 < next_expected s1) \<Longrightarrow> seq < next_expected s1 \<Longrightarrow>
      accept_seq cap timeout seq c now s = (s1, o1)"
    and "\<not> (seq = 1 \<and> 1 < next_expected s1) \<Longrightarrow> seq = next_expected s1 \<Longrightarrow>
      accept_seq cap timeout seq c now s =
        (let (ne, buf, o2) = drain (wrap64 (next_expected s1 + 1)) (buffered s1) (o1 @ [c]) in
         (s1\<lparr>next_expected := ne, buffered := buf,
            gap_since := (if buf = [] then None else Some now)\<rparr>, o2))"
    and "\<not> (seq = 1 \<and> 1 < next_expected s1) \<Longrightarrow> next_expected s1 < seq \<Longrightarrow>
      accept_seq cap timeout seq c now s =
        (let s2 = s1\<lparr>buffered := bt_insert seq c (buffered s1),
                    gap_since := (if gap_since s1 = None then Some now else gap_since s1)\<rparr>
         in if cap < length (buffered s2) then snd (flush s2 o1) else (s2, o1))"
  using assms by (auto simp: accept_seq_def Let_def dest: flush_resultD split: prod.split)
    (metis flush_out snd_conv)

lemma drain_ok:
  assumes ok: "src_ok cap s" and lt: "next_expected s < u64_max"
    and d: "drain (Suc (next_expected s)) (buffered s) out = (ne, buf, out')"
  shows "src_ok cap (s\<lparr>next_expected := ne, buffered := buf,
      gap_since := (if buf = [] then None else Some now)\<rparr>)"
    and "\<exists>pre. buffered s = pre @ buf \<and> out' = out @ map snd pre \<and>
      map fst pre = [Suc (next_expected s) ..< ne] \<and> ne = Suc (next_expected s) + length pre"
proof -
  from ok have b: "bt_ok (buffered s)"
    and k: "\<forall>p \<in> set (buffered s). next_expected s < fst p \<and> fst p < u64_max"
    by (auto simp: src_ok_def)
  then obtain pre buf' where *: "buffered s = pre @ buf'"
      "map fst pre = [Suc (next_expected s) ..< Suc (next_expected s) + length pre]"
      "drain (Suc (next_expected s)) (buffered s) out =
        (Suc (next_expected s) + length pre, buf', out @ map snd pre)"
      "\<forall>p \<in> set buf'. Suc (next_expected s) + length pre < fst p"
    using drain_spec [of "buffered s" "Suc (next_expected s)" out] by (auto simp: Suc_le_eq)
  with d have ne: "ne = Suc (next_expected s) + length pre" and buf: "buf = buf'"
    by auto
  have "ne \<le> u64_max"
  proof (cases "pre = []")
    case True
    with lt ne show ?thesis by simp
  next
    case False
    have "map fst pre ! (length pre - 1) =
        [Suc (next_expected s) ..< Suc (next_expected s) + length pre] ! (length pre - 1)"
      using *(2) by (rule arg_cong)
    with False have "Suc (fst (last pre)) = ne"
      by (simp add: ne last_conv_nth del: upt_Suc)
    moreover have "fst (last pre) < u64_max" using k *(1) False by simp
    ultimately show ?thesis by simp
  qed
  with ok * ne buf show "src_ok cap (s\<lparr>next_expected := ne, buffered := buf,
      gap_since := (if buf = [] then None else Some now)\<rparr>)"
    by (auto simp: src_ok_def bt_ok_def sorted_wrt_append)
  show "\<exists>pre. buffered s = pre @ buf \<and> out' = out @ map snd pre \<and>
      map fst pre = [Suc (next_expected s) ..< ne] \<and> ne = Suc (next_expected s) + length pre"
    using * d ne buf by auto
qed

lemma buffer_ok:
  assumes "src_ok cap s" and "next_expected s < seq" and "seq < u64_max"
  shows "src_ok (Suc cap) (s\<lparr>buffered := bt_insert seq c (buffered s),
      gap_since := (if gap_since s = None then Some now else gap_since s)\<rparr>)"
proof -
  have "p \<in> set (bt_insert seq c (buffered s)) \<Longrightarrow> fst p = seq \<or> fst p \<in> fst ` set (buffered s)" for p
    using bt_keys_insert [of seq c "buffered s"] by (metis image_eqI insert_iff)
  moreover have "bt_insert seq c (buffered s) \<noteq> []"
    by (cases "buffered s") auto
  ultimately show ?thesis
    using assms bt_length_insert [of seq c "buffered s"] by (fastforce simp: src_ok_def)
qed

lemma src_ok_cap: "src_ok (Suc cap) s \<Longrightarrow> length (buffered s) \<le> cap \<Longrightarrow> src_ok cap s"
  by (simp add: src_ok_def)

lemma src_ok_flushed: "src_ok k s \<Longrightarrow> src_ok cap (fst (snd (flush s out)))"
  using flush_ok [of k s out] by (simp add: src_ok_def)

lemma accept_seq_ok:
  assumes "src_ok cap s" and "0 < seq" and "seq < u64_max"
  shows "src_ok cap (fst (accept_seq cap timeout seq c now s))"
proof -
  obtain s1 o1 where 1: "flush_if_stale timeout now (s\<lparr>last_activity := now\<rparr>) = (s1, o1)"
    by fastforce
  have ok1: "src_ok cap s1"
    using flush_if_stale_ok(1) [of cap "s\<lparr>last_activity := now\<rparr>" timeout now] assms(1) by (simp add: 1)
  consider (restart) "seq = 1" "1 < next_expected s1"
    | (late) "\<not> (seq = 1 \<and> 1 < next_expected s1)" "seq < next_expected s1"
    | (fits) "\<not> (seq = 1 \<and> 1 < next_expected s1)" "seq = next_expected s1"
    | (ahead) "\<not> (seq = 1 \<and> 1 < next_expected s1)" "next_expected s1 < seq"
    by linarith
  then show ?thesis
  proof cases
    case restart
    then show ?thesis
      using src_ok_flushed [OF ok1, of cap o1]
      by (simp add: accept_seq_unfold(1) [OF 1] src_ok_def u64_max_def)
  next
    case late
    with ok1 show ?thesis by (simp add: accept_seq_unfold(2) [OF 1])
  next
    case fits
    with assms(3) have "next_expected s1 < u64_max" by simp
    with fits show ?thesis
      using drain_ok(1) [OF ok1] by (auto simp: accept_seq_unfold(3) [OF 1] split: prod.splits)
  next
    case ahead
    note ok2 = buffer_ok [OF ok1 ahead(2) assms(3), where c = c and now = now]
    show ?thesis
      using src_ok_flushed [OF ok2, of cap o1] src_ok_cap [OF ok2]
      by (auto simp: accept_seq_unfold(4) [OF 1 ahead] Let_def)
  qed
qed

section \<open>Delivery in sequence order\<close>

text \<open>
  To speak of the order of delivered contents, let each content carry its sequence number as
  its first component: \<open>tagged s\<close> says the buffer keeps that correspondence.
\<close>

definition tagged :: "(nat \<times> 'd) source_state \<Rightarrow> bool" where
  "tagged s \<longleftrightarrow> (\<forall>(k, c) \<in> set (buffered s). fst c = k)"

text \<open>The sequence numbers of \<open>out\<close> increase strictly from \<open>lo\<close> on and stay below \<open>hi\<close>.\<close>

definition ordered_from :: "nat \<Rightarrow> nat \<Rightarrow> (nat \<times> 'd) list \<Rightarrow> bool" where
  "ordered_from lo hi out \<longleftrightarrow>
     sorted_wrt (<) (map fst out) \<and> (\<forall>k \<in> set (map fst out). lo \<le> k \<and> k < hi) \<and> lo \<le> hi"

lemma ordered_from_Nil [simp]: "ordered_from lo hi [] \<longleftrightarrow> lo \<le> hi"
  by (simp add: ordered_from_def)

lemma ordered_from_append:
  "ordered_from lo mid a \<Longrightarrow> ordered_from mid hi b \<Longrightarrow> ordered_from lo hi (a @ b)"
  by (fastforce simp: ordered_from_def sorted_wrt_append)

lemma ordered_from_single: "lo \<le> fst x \<Longrightarrow> fst x < hi \<Longrightarrow> ordered_from lo hi [x]"
  by (simp add: ordered_from_def)

lemma tagged_map: "tagged s \<Longrightarrow> map fst (map snd (buffered s)) = map fst (buffered s)"
  by (auto simp: tagged_def)

lemma flush_ordered:
  assumes "src_ok cap s" and "tagged s"
  shows "ordered_from (next_expected s) (next_expected (fst (snd (flush s out)))) (map snd (buffered s))"
proof -
  have "\<forall>k \<in> set (map fst (buffered s)). next_expected s \<le> k \<and> k < next_expected (fst (snd (flush s out)))"
    using assms(1) flush_next_le(3) [OF assms(1)] by (auto simp: src_ok_def intro: less_imp_le)
  then show ?thesis
    using assms(1) flush_next_le(1) [OF assms(1), of out]
    unfolding ordered_from_def tagged_map [OF assms(2)] by (simp add: src_ok_def bt_ok_def)
qed

lemma flush_if_stale_ordered:
  assumes "src_ok cap s" and "tagged s" and "flush_if_stale timeout now s = (s1, o1)"
  shows "ordered_from (next_expected s) (next_expected s1) o1" and "tagged s1"
proof -
  show "ordered_from (next_expected s) (next_expected s1) o1"
    using assms flush_ordered [OF assms(1,2), of "[]"] flush_out [of s "[]"]
    by (cases rule: flush_if_stale_cases [of timeout now s]) (auto split: prod.splits)
  show "tagged s1"
    using assms flush_buffered [of s "[]"]
    by (cases rule: flush_if_stale_cases [of timeout now s]) (auto simp: tagged_def)
qed

lemma drain_ordered:
  assumes ok: "src_ok cap s" and tg: "tagged s" and lt: "next_expected s < u64_max"
    and d: "drain (Suc (next_expected s)) (buffered s) (o1 @ [(next_expected s, x)]) = (ne, buf, out)"
    and o1: "ordered_from lo (next_expected s) o1"
  shows "ordered_from lo ne out"
proof -
  from drain_ok(2) [OF ok lt d] obtain pre where
    pre: "buffered s = pre @ buf" "out = (o1 @ [(next_expected s, x)]) @ map snd pre"
      "map fst pre = [Suc (next_expected s) ..< ne]" "ne = Suc (next_expected s) + length pre"
    by blast
  have "map fst (map snd pre) = map fst pre"
    using tg pre(1) by (fastforce simp: tagged_def)
  then have "ordered_from (Suc (next_expected s)) ne (map snd pre)"
    unfolding ordered_from_def using pre(3,4) by (simp del: upt_Suc)
  moreover have "ordered_from lo (Suc (next_expected s)) (o1 @ [(next_expected s, x)])"
    using o1 by (rule ordered_from_append) (simp add: ordered_from_def)
  ultimately show ?thesis
    unfolding pre(2) by (rule ordered_from_append [rotated])
qed

lemma accept_seq_ordered:
  assumes ok: "src_ok cap s" and tg: "tagged s" and seq: "1 < seq" "seq < u64_max"
    and acc: "accept_seq cap timeout seq (seq, x) now s = (s', out)"
  shows "ordered_from (next_expected s) (next_expected s') out" and "tagged s'"
proof -
  let ?s = "s\<lparr>last_activity := now\<rparr>"
  obtain s1 o1 where 1: "flush_if_stale timeout now ?s = (s1, o1)" by fastforce
  have ok': "src_ok cap ?s" and tg': "tagged ?s" using ok tg by (auto simp: tagged_def)
  have ok1: "src_ok cap s1" using flush_if_stale_ok(1) [OF ok', of timeout now] by (simp add: 1)
  have o1: "ordered_from (next_expected s) (next_expected s1) o1" and tg1: "tagged s1"
    using flush_if_stale_ordered [OF ok' tg' 1] by simp_all
  consider (late) "seq < next_expected s1" | (fits) "seq = next_expected s1"
    | (ahead) "next_expected s1 < seq" by linarith
  then have "ordered_from (next_expected s) (next_expected s') out \<and> tagged s'"
  proof cases
    case late
    with seq acc o1 tg1 show ?thesis by (simp add: accept_seq_unfold(2) [OF 1])
  next
    case fits
    with seq acc have d: "drain (Suc (next_expected s1)) (buffered s1) (o1 @ [(next_expected s1, x)]) =
        (next_expected s', buffered s', out)"
      by (auto simp: accept_seq_unfold(3) [OF 1] split: prod.splits)
    have lt: "next_expected s1 < u64_max" using fits seq by simp
    from drain_ok(2) [OF ok1 lt d] have "set (buffered s') \<subseteq> set (buffered s1)" by auto
    with tg1 have "tagged s'" by (auto simp: tagged_def)
    with drain_ordered [OF ok1 tg1 lt d o1] show ?thesis by blast
  next
    case ahead
    define s2 where "s2 = s1\<lparr>buffered := bt_insert seq (seq, x) (buffered s1),
        gap_since := (if gap_since s1 = None then Some now else gap_since s1)\<rparr>"
    have ok2: "src_ok (Suc cap) s2" unfolding s2_def using ok1 ahead seq(2) by (rule buffer_ok)
    have tg2: "tagged s2"
      using tg1 by (auto simp: s2_def tagged_def dest!: bt_insert_mem)
    have ne2: "next_expected s2 = next_expected s1" by (simp add: s2_def)
    have acc2: "accept_seq cap timeout seq (seq, x) now s =
        (if cap < length (buffered s2) then snd (flush s2 o1) else (s2, o1))"
      using seq ahead by (simp add: accept_seq_unfold(4) [OF 1] Let_def s2_def)
    show ?thesis
    proof (cases "cap < length (buffered s2)")
      case True
      with acc acc2 have "s' = fst (snd (flush s2 o1))" "out = o1 @ map snd (buffered s2)"
        by (auto dest: flush_resultD)
      with flush_ordered [OF ok2 tg2, of o1] o1 ne2 show ?thesis
        by (auto simp: tagged_def intro: ordered_from_append)
    next
      case False
      with acc acc2 o1 tg2 ne2 show ?thesis by auto
    qed
  qed
  then show "ordered_from (next_expected s) (next_expected s') out" and "tagged s'" by auto
qed

section \<open>Runs of one source\<close>

fun accept_run ::
  "nat \<Rightarrow> duration \<Rightarrow> (nat \<times> 'c \<times> instant) list \<Rightarrow> 'c source_state \<Rightarrow> 'c source_state \<times> 'c list" where
  "accept_run cap timeout [] s = (s, [])"
| "accept_run cap timeout ((seq, c, now) # es) s =
     (let (s, o1) = accept_seq cap timeout seq c now s;
          (s, o2) = accept_run cap timeout es s
      in (s, o1 @ o2))"

lemma accept_run_ok:
  assumes "src_ok cap s" and "\<forall>(seq, c, now) \<in> set es. 0 < seq \<and> seq < u64_max"
  shows "src_ok cap (fst (accept_run cap timeout es s))"
  using assms
proof (induction es arbitrary: s)
  case Nil
  then show ?case by simp
next
  case (Cons e es)
  obtain seq c now where e: "e = (seq, c, now)" using prod_cases3 by blast
  have "src_ok cap (fst (accept_seq cap timeout seq c now s))"
    using Cons.prems by (auto simp: e intro: accept_seq_ok)
  with Cons show ?case by (simp add: e case_prod_beta Let_def)
qed

lemma accept_run_ordered:
  assumes "src_ok cap s" and "tagged s"
    and "\<forall>(seq, c, now) \<in> set es. 1 < seq \<and> seq < u64_max \<and> fst c = seq"
  shows "ordered_from (next_expected s) (next_expected (fst (accept_run cap timeout es s)))
    (snd (accept_run cap timeout es s))"
  using assms
proof (induction es arbitrary: s)
  case Nil
  then show ?case by simp
next
  case (Cons e es)
  obtain seq d now where e: "e = (seq, (seq, d), now)" and seq: "1 < seq" "seq < u64_max"
    using Cons.prems(3) by (cases e) auto
  obtain s' o1 where acc: "accept_seq cap timeout seq (seq, d) now s = (s', o1)" by fastforce
  have "src_ok cap s'"
    using accept_seq_ok [OF Cons.prems(1), of seq timeout "(seq, d)" now] seq by (simp add: acc)
  moreover note accept_seq_ordered [OF Cons.prems(1,2) seq acc]
  ultimately have "ordered_from (next_expected s') (next_expected (fst (accept_run cap timeout es s')))
      (snd (accept_run cap timeout es s'))"
    using Cons.prems(3) by (intro Cons.IH) auto
  with accept_seq_ordered(1) [OF Cons.prems(1,2) seq acc] show ?case
    by (auto simp: e acc intro: ordered_from_append split: prod.splits)
qed

section \<open>Lossless delivery of a permuted stream\<close>

text \<open>
  The state after receiving exactly the sequence numbers of \<open>R\<close> within the gap timeout: all
  numbers below \<open>next_expected\<close> are delivered in order, the others are buffered.
\<close>

definition received :: "(nat \<Rightarrow> 'c) \<Rightarrow> instant \<Rightarrow> nat set \<Rightarrow> 'c source_state \<Rightarrow> 'c list \<Rightarrow> bool" where
  "received f t0 R s out \<longleftrightarrow>
     {1..<next_expected s} \<subseteq> R \<and> next_expected s \<notin> R \<and>
     out = map f [1..<next_expected s] \<and>
     fst ` set (buffered s) = R - {1..<next_expected s} \<and>
     (\<forall>(k, c) \<in> set (buffered s). c = f k) \<and>
     (\<forall>t. gap_since s = Some t \<longrightarrow> t0 \<le> t)"

lemma received_ge:
  "received f t0 R s out \<Longrightarrow> seq \<notin> R \<Longrightarrow> 0 < seq \<Longrightarrow> next_expected s \<le> seq"
  unfolding received_def by (metis Suc_leI One_nat_def atLeastLessThan_iff not_le subsetD)

lemma received_not_stale:
  assumes "received f t0 R s out" and "t0 \<le> now" and "now < t0 + timeout"
  shows "flush_if_stale timeout now (s\<lparr>last_activity := now\<rparr>) = (s\<lparr>last_activity := now\<rparr>, [])"
  using assms by (auto simp: flush_if_stale_def received_def split: option.splits)

lemma received_keys:
  assumes "received f t0 R s out" and "seq = next_expected s"
    and "buffered s = pre @ buf" and "map fst pre = [Suc seq ..< ne]" and "Suc seq \<le> ne"
    and "\<forall>p \<in> set buf. ne < fst p" and "1 \<le> seq"
  shows "{1..<ne} \<subseteq> insert seq R" and "ne \<notin> insert seq R"
    and "fst ` set buf = insert seq R - {1..<ne}"
proof -
  have pre: "fst ` set pre = {Suc seq ..< ne}"
    using assms(4) by (metis set_map set_upt)
  have R: "{1..<seq} \<subseteq> R" "seq \<notin> R" "fst ` set pre \<union> fst ` set buf = R - {1..<seq}"
    using assms(1-3) by (auto simp: received_def image_Un)
  have split: "{1..<ne} = {1..<seq} \<union> {seq} \<union> {Suc seq..<ne}"
    using assms(5,7) by auto
  show "{1..<ne} \<subseteq> insert seq R" unfolding split using R pre by auto
  have buf: "k \<in> fst ` set buf \<Longrightarrow> ne < k" for k using assms(6) by auto
  then show "ne \<notin> insert seq R"
    using R(3) pre assms(5,7) by (metis (no_types, lifting) DiffI Suc_le_eq UnE atLeastLessThan_iff insert_iff less_irrefl less_imp_not_less)
  have "fst ` set buf \<inter> {Suc seq ..< ne} = {}" using buf by fastforce
  then have "fst ` set buf = (R - {1..<seq}) - {Suc seq ..< ne}" using R(3) pre by blast
  then show "fst ` set buf = insert seq R - {1..<ne}"
    unfolding split using R(2) by auto
qed

lemma received_fill:
  assumes ok: "src_ok cap s" and r: "received f t0 R s out"
    and seq: "seq = next_expected s" "seq \<notin> R" "seq < u64_max"
    and t: "t0 \<le> now" "now < t0 + timeout"
    and acc: "accept_seq cap timeout seq (f seq) now s = (s', out')"
  shows "received f t0 (insert seq R) s' (out @ out')"
proof -
  let ?s = "s\<lparr>last_activity := now\<rparr>"
  have ok': "src_ok cap ?s" and one: "1 \<le> seq" using ok seq(1) by (auto simp: src_ok_def)
  have not1: "\<not> (seq = 1 \<and> 1 < next_expected ?s)" using seq by simp
  obtain ne buf where d: "drain (Suc (next_expected ?s)) (buffered ?s) [f seq] = (ne, buf, out')"
    and s': "s' = ?s\<lparr>next_expected := ne, buffered := buf, gap_since := (if buf = [] then None else Some now)\<rparr>"
    using acc not1 seq by (auto simp: accept_seq_unfold(3) [OF received_not_stale [OF r t]] split: prod.splits)
  have lt: "next_expected ?s < u64_max" using seq by simp
  obtain pre where pre: "buffered s = pre @ buf" "out' = [f seq] @ map snd pre"
      "map fst pre = [Suc seq ..< ne]" "ne = Suc seq + length pre"
    using drain_ok(2) [OF ok' lt d] seq(1) by auto
  have gt: "\<forall>p \<in> set buf. ne < fst p"
    using drain_ok(1) [OF ok' lt d, of now] by (simp add: src_ok_def)
  have "map snd pre = map f [Suc seq ..< ne]"
    using r pre(1) unfolding pre(3) [symmetric] by (auto simp: received_def)
  then have "out' = map f [seq ..< ne]"
    using pre by (simp add: upt_conv_Cons del: upt_Suc)
  moreover have "out = map f [1 ..< seq]" using r seq(1) by (simp add: received_def)
  moreover have "[1..<ne] = [1..<seq] @ [seq..<ne]"
    using one pre(4) by (metis add_Suc le_SucI le_add1 upt_add_eq_append le_iff_add)
  ultimately have "out @ out' = map f [1 ..< ne]" by simp
  then show ?thesis
    using received_keys [OF r seq(1) pre(1,3) _ gt one] r pre(1,4) t
    by (auto simp: received_def s')
qed

lemma received_hold:
  assumes ok: "src_ok cap s" and r: "received f t0 R s out"
    and seq: "next_expected s < seq" "seq \<notin> R" and R: "finite R" "card R < cap"
    and t: "t0 \<le> now" "now < t0 + timeout"
    and acc: "accept_seq cap timeout seq (f seq) now s = (s', out')"
  shows "received f t0 (insert seq R) s' (out @ out')"
proof -
  have one: "1 \<le> next_expected s" and b: "bt_ok (buffered s)" using ok by (auto simp: src_ok_def)
  have "length (buffered s) = card (fst ` set (buffered s))"
    using bt_ok_distinct [OF b] by (metis distinct_card length_map set_map)
  also have "\<dots> \<le> card R"
    using r R(1) by (auto simp: received_def intro: card_mono)
  finally have "length (bt_insert seq (f seq) (buffered s)) \<le> cap"
    using R(2) bt_length_insert [of seq "f seq" "buffered s"] by linarith
  then have s': "s' = s\<lparr>last_activity := now, buffered := bt_insert seq (f seq) (buffered s),
      gap_since := (if gap_since s = None then Some now else gap_since s)\<rparr>" and out': "out' = []"
    using acc seq one by (auto simp: accept_seq_unfold(4) [OF received_not_stale [OF r t]] Let_def)
  have "insert seq (R - {1..<next_expected s}) = insert seq R - {1..<next_expected s}"
    using seq(1) by auto
  then show ?thesis
    using r seq t by (auto simp: received_def s' out' dest!: bt_insert_mem)
qed

lemma received_step:
  assumes "src_ok cap s" and "received f t0 R s out"
    and "seq \<notin> R" "0 < seq" "seq < u64_max" and "finite R" "card R < cap"
    and "t0 \<le> now" "now < t0 + timeout"
    and "accept_seq cap timeout seq (f seq) now s = (s', out')"
  shows "received f t0 (insert seq R) s' (out @ out')"
  using assms received_ge [OF assms(2-4)]
  by (cases "seq = next_expected s") (auto intro: received_fill received_hold)

lemma received_run:
  assumes "src_ok cap s" and "received f t0 R s out" and "finite R"
    and "distinct (map fst es)" and "set (map fst es) \<inter> R = {}"
    and "\<forall>(seq, now) \<in> set es. 0 < seq \<and> seq < u64_max \<and> t0 \<le> now \<and> now < t0 + timeout"
    and "card R + length es \<le> cap"
  shows "received f t0 (R \<union> set (map fst es)) (fst (accept_run cap timeout (map (\<lambda>(seq, now). (seq, f seq, now)) es) s))
    (out @ snd (accept_run cap timeout (map (\<lambda>(seq, now). (seq, f seq, now)) es) s))"
  using assms
proof (induction es arbitrary: s R out)
  case Nil
  then show ?case by simp
next
  case (Cons e es)
  obtain seq now where e: "e = (seq, now)" by fastforce
  obtain s' o1 where acc: "accept_seq cap timeout seq (f seq) now s = (s', o1)" by fastforce
  have r: "received f t0 (insert seq R) s' (out @ o1)"
    using Cons.prems by (intro received_step [OF Cons.prems(1,2) _ _ _ _ _ _ _ acc]) (auto simp: e)
  have ok: "src_ok cap s'"
    using accept_seq_ok [OF Cons.prems(1), of seq timeout "f seq" now] Cons.prems(6) by (auto simp: acc e)
  have "card (insert seq R) + length es \<le> cap"
    using Cons.prems(3,5,7) by (simp add: e)
  from Cons.IH [OF ok r _ _ _ _ this] Cons.prems show ?case
    by (auto simp: e acc Un_commute split: prod.splits)
qed

section \<open>The whole buffer\<close>

definition reorder_ok :: "'c reorder_buffer \<Rightarrow> bool" where
  "reorder_ok b \<longleftrightarrow>
     hm_ok (sources b) \<and> length (sources b) \<le> max_sources b \<and> 0 < max_sources b \<and>
     (\<forall>(i, s) \<in> set (sources b). src_ok (max_per_source b) s)"

lemma evict_sources_fields [simp]:
  "max_per_source (evict_sources_if_needed i b) = max_per_source b"
  "max_sources (evict_sources_if_needed i b) = max_sources b"
  "gap_timeout (evict_sources_if_needed i b) = gap_timeout b"
  by (auto simp: evict_sources_if_needed_def split: option.splits)

lemma evict_sources_room:
  assumes "reorder_ok b"
  shows "reorder_ok (evict_sources_if_needed i b)"
    and "hm_contains (sources (evict_sources_if_needed i b)) i \<or>
      length (sources (evict_sources_if_needed i b)) < max_sources b"
    and "hm_contains (sources b) i \<Longrightarrow> evict_sources_if_needed i b = b"
proof -
  show "hm_contains (sources b) i \<Longrightarrow> evict_sources_if_needed i b = b"
    by (simp add: evict_sources_if_needed_def)
  have rem: "Suc (length (hm_remove j (sources b))) = length (sources b)"
    if "min_by_key (\<lambda>(_, s). last_activity s) (sources b) = Some (j, s)" for j s
    using assms min_by_key_in [OF that]
    by (force simp: reorder_ok_def hm_contains_def intro!: hm_length_remove_eq)
  show "hm_contains (sources (evict_sources_if_needed i b)) i \<or>
      length (sources (evict_sources_if_needed i b)) < max_sources b"
    using assms rem by (auto simp: evict_sources_if_needed_def reorder_ok_def split: option.splits)
  show "reorder_ok (evict_sources_if_needed i b)"
    using assms hm_length_remove [of _ "sources b"]
    by (auto simp: evict_sources_if_needed_def reorder_ok_def hm_set_remove
        split: option.splits intro: order.trans)
qed

lemma reorder_ok_insert:
  assumes "reorder_ok b" and "src_ok (max_per_source b) s"
    and "hm_contains (sources b) i \<or> length (sources b) < max_sources b"
  shows "reorder_ok (b\<lparr>sources := hm_insert i s (sources b)\<rparr>)"
  using assms by (auto simp: reorder_ok_def hm_length_insert hm_set_insert)

lemma reorder_ok_get:
  "reorder_ok b \<Longrightarrow> hm_get (sources b) i = Some s \<Longrightarrow> src_ok (max_per_source b) s"
  by (auto simp: reorder_ok_def dest!: hm_get_in)

text \<open>The state a source has, or would start with.\<close>

definition source_of :: "instant \<Rightarrow> node_id \<Rightarrow> 'c reorder_buffer \<Rightarrow> 'c source_state" where
  "source_of now i b = (case hm_get (sources b) i of None \<Rightarrow> source_state_new now | Some s \<Rightarrow> s)"

lemma accept_at_seq:
  assumes "seq \<noteq> 0"
  shows "accept_at from seq c now b =
    (let b' = evict_sources_if_needed from b;
         r = accept_seq (max_per_source b) (gap_timeout b) seq c now (source_of now from b')
     in (snd r, b'\<lparr>sources := hm_insert from (fst r) (sources b')\<rparr>))"
  using assms by (simp add: accept_at_def Let_def source_of_def split: prod.splits)

lemma source_of_ok: "reorder_ok b \<Longrightarrow> src_ok (max_per_source b) (source_of now i b)"
  by (auto simp: source_of_def reorder_ok_get split: option.splits)

lemma accept_at_ok:
  assumes ok: "reorder_ok b" and seq: "seq < u64_max"
  shows "reorder_ok (snd (accept_at from seq c now b))"
proof (cases "seq = 0")
  case True
  show ?thesis
  proof (cases "hm_get (sources b) from")
    case None
    with True ok show ?thesis by (simp add: accept_at_def)
  next
    case (Some s)
    have "src_ok (max_per_source b) (fst (flush_if_stale (gap_timeout b) now (s\<lparr>last_activity := now\<rparr>)))"
      using reorder_ok_get [OF ok Some] by (intro flush_if_stale_ok(1)) simp
    with Some True ok show ?thesis
      by (auto simp: accept_at_def hm_contains_get intro!: reorder_ok_insert split: prod.splits)
  qed
next
  case False
  let ?b = "evict_sources_if_needed from b"
  have b: "reorder_ok ?b" using ok by (rule evict_sources_room)
  have "src_ok (max_per_source ?b)
      (fst (accept_seq (max_per_source b) (gap_timeout b) seq c now (source_of now from ?b)))"
    using source_of_ok [OF b, of now "from"] False seq by (simp add: accept_seq_ok)
  with False show ?thesis
    using evict_sources_room(2) [OF ok, of "from"] b
    by (auto simp: accept_at_seq Let_def intro!: reorder_ok_insert)
qed

definition flush_source :: "duration \<Rightarrow> instant \<Rightarrow> 'c source_state \<Rightarrow> 'c source_state" where
  "flush_source timeout now s = fst (flush_if_stale timeout now s)"

lemma flush_sources_states:
  "snd (flush_sources timeout now m) = map (\<lambda>(i, s). (i, flush_source timeout now s)) m"
  by (induction m)
    (auto simp: flush_source_def flush_if_stale_def split: prod.splits option.splits)

lemma flush_sources_out:
  "(i, s) \<in> set m \<Longrightarrow> gap_since s = Some t \<Longrightarrow> timeout \<le> now - t \<Longrightarrow> buffered s \<noteq> [] \<Longrightarrow>
   (i, map snd (buffered s)) \<in> set (fst (flush_sources timeout now m))"
proof (induction m)
  case Nil
  then show ?case by simp
next
  case (Cons p m)
  then show ?case
    by (cases p; cases "p = (i, s)") (auto simp: case_prod_beta Let_def split: option.splits)
qed

lemma flush_expired_ok: "reorder_ok b \<Longrightarrow> reorder_ok (snd (flush_expired now b))"
proof -
  assume ok: "reorder_ok b"
  have m: "sources (snd (flush_expired now b)) = map (\<lambda>(i, s). (i, flush_source (gap_timeout b) now s)) (sources b)"
    using flush_sources_states [of "gap_timeout b" now "sources b"]
    by (auto simp: flush_expired_def split: prod.splits)
  have fields: "max_sources (snd (flush_expired now b)) = max_sources b"
      "max_per_source (snd (flush_expired now b)) = max_per_source b"
    by (simp_all add: flush_expired_def split: prod.splits)
  have keys: "map fst (map (\<lambda>(i, s). (i, flush_source (gap_timeout b) now s)) (sources b)) = map fst (sources b)"
    by auto
  show ?thesis
    using ok unfolding reorder_ok_def m fields hm_ok_def keys
    by (auto simp: flush_source_def flush_if_stale_ok(1))
qed

text \<open>The buffer as a machine whose events are arrivals and the periodic flush.\<close>

datatype 'c reorder_event = Arrive node_id nat 'c instant | Tick instant

fun reorder_step :: "'c reorder_buffer \<Rightarrow> 'c reorder_event \<Rightarrow> 'c reorder_buffer" where
  "reorder_step b (Arrive from seq c now) = snd (accept_at from seq c now b)"
| "reorder_step b (Tick now) = snd (flush_expired now b)"

fun reorder_admissible :: "'c reorder_event \<Rightarrow> bool" where
  "reorder_admissible (Arrive from seq c now) \<longleftrightarrow> seq < u64_max"
| "reorder_admissible (Tick now) \<longleftrightarrow> True"

interpretation reorder_machine: step_machine reorder_step reorder_ok reorder_admissible
proof
  fix b :: "'c reorder_buffer" and e
  show "reorder_ok b \<Longrightarrow> reorder_admissible e \<Longrightarrow> reorder_ok (reorder_step b e)"
    by (cases e) (auto simp: accept_at_ok flush_expired_ok)
qed

section \<open>Properties\<close>

text \<open>
  Property C15. Whatever sequence of arrivals (with sequence numbers below \<open>u64::MAX\<close>) and
  periodic flushes drives a fresh buffer, the number of tracked sources stays within
  \<open>max_sources\<close>, and every source holds at most \<open>max_per_source\<close> messages, all strictly ahead
  of the next expected number and in order, with a gap timer running exactly while something
  is held.
\<close>

theorem reorder_run_bounded:
  assumes "0 < srcs" and "\<forall>e \<in> set es. reorder_admissible e"
  shows "reorder_ok (foldl reorder_step (reorder_new per_source srcs timeout) es)"
  using assms by (intro reorder_machine.run_inv) (simp_all add: reorder_ok_def reorder_new_def)

theorem reorder_run_bounded_witness:
  "reorder_ok (foldl reorder_step (reorder_new 1 1 10)
     [Arrive (NodeId ''a'') 3 (1 :: nat) 0, Arrive (NodeId ''b'') 2 2 1, Tick 20])"
  by (rule reorder_run_bounded) (simp_all add: u64_max_def)

text \<open>
  Property C14. Lossless in-order delivery: if the messages \<open>1, \<dots>, n\<close> of one sender arrive at a
  fresh source in any order, without loss, within the gap timeout and with \<open>n\<close> at most the
  buffer cap, the receiver is handed exactly \<open>f 1, \<dots>, f n\<close> in this order.
\<close>

theorem reorder_delivers_in_order:
  assumes "distinct (map fst es)" and "set (map fst es) = {1..n}" and "n \<le> cap" and "n < u64_max"
    and "\<forall>(seq, now) \<in> set es. t0 \<le> now \<and> now < t0 + timeout"
  shows "snd (accept_run cap timeout (map (\<lambda>(seq, now). (seq, f seq, now)) es) (source_state_new t0))
    = map f [1..<Suc n]"
proof -
  let ?r = "accept_run cap timeout (map (\<lambda>(seq, now). (seq, f seq, now)) es) (source_state_new t0)"
  have start: "received f t0 {} (source_state_new t0) []"
    by (simp add: received_def source_state_new_def)
  have len: "length es = n"
    using assms(1,2) by (metis card_atLeastAtMost diff_Suc_1 distinct_card length_map)
  have seqs: "\<forall>(seq, now) \<in> set es. 0 < seq \<and> seq < u64_max \<and> t0 \<le> now \<and> now < t0 + timeout"
  proof clarify
    fix seq now assume e: "(seq, now) \<in> set es"
    then have "seq \<in> set (map fst es)" by force
    then have "seq \<in> {1..n}" using assms(2) by simp
    with e assms(4,5) show "0 < seq \<and> seq < u64_max \<and> t0 \<le> now \<and> now < t0 + timeout" by auto
  qed
  have "received f t0 ({} \<union> set (map fst es)) (fst ?r) ([] @ snd ?r)"
    by (rule received_run) (use start assms(1,3) len seqs in auto)
  then have *: "{1..<next_expected (fst ?r)} \<subseteq> {1..n}" "next_expected (fst ?r) \<notin> {1..n}"
      "snd ?r = map f [1..<next_expected (fst ?r)]"
    using assms(2) by (auto simp: received_def)
  have "1 \<le> next_expected (fst ?r)"
  proof -
    have "src_ok cap (fst ?r)" by (rule accept_run_ok) (use seqs in auto)
    then show ?thesis by (simp add: src_ok_def)
  qed
  moreover have "next_expected (fst ?r) \<le> Suc n"
  proof (rule ccontr)
    assume "\<not> next_expected (fst ?r) \<le> Suc n"
    then have "Suc n \<in> {1..<next_expected (fst ?r)}" by simp
    with *(1) have "Suc n \<in> {1..n}" by (rule subsetD)
    then show False by simp
  qed
  ultimately have "next_expected (fst ?r) = Suc n" using *(2) by simp
  with *(3) show ?thesis by simp
qed

theorem reorder_delivers_in_order_witness:
  "snd (accept_run 4 10 (map (\<lambda>(seq, now). (seq, seq * 10, now)) [(2, 1), (1, 2), (3, 3)])
      (source_state_new 0)) = map (\<lambda>i. i * 10) [1..<Suc 3 :: nat]"
  by (rule reorder_delivers_in_order [where n = 3 and es = "[(2, 1), (1, 2), (3, 3)]"])
    (auto simp: u64_max_def)



text \<open>
  No gap outlives a periodic flush: after \<open>flush_expired\<close> no source has a gap as old as
  the timeout, and what a stale source held is handed out in sequence order.
\<close>

lemma flush_expired_releases:
  assumes "reorder_ok b"
  shows "(\<forall>(i, s) \<in> set (sources (snd (flush_expired now b))).
      \<forall>t. gap_since s = Some t \<longrightarrow> now - t < gap_timeout b)
    \<and> (\<forall>(i, s) \<in> set (sources b). \<forall>t. gap_since s = Some t \<longrightarrow> gap_timeout b \<le> now - t \<longrightarrow>
      (i, map snd (buffered s)) \<in> set (fst (flush_expired now b)) \<and> bt_ok (buffered s))"
proof (rule conjI)
  have m: "sources (snd (flush_expired now b)) = map (\<lambda>(i, s). (i, flush_source (gap_timeout b) now s)) (sources b)"
    using flush_sources_states [of "gap_timeout b" now "sources b"]
    by (auto simp: flush_expired_def split: prod.splits)
  have "gap_since (flush_source (gap_timeout b) now s) = Some t \<Longrightarrow> now - t < gap_timeout b" for s :: "'a source_state" and t
    by (cases rule: flush_if_stale_cases [of "gap_timeout b" now s]) (auto simp: flush_source_def)
  then show "\<forall>(i, s) \<in> set (sources (snd (flush_expired now b))).
      \<forall>t. gap_since s = Some t \<longrightarrow> now - t < gap_timeout b"
    unfolding m by auto
  show "\<forall>(i, s) \<in> set (sources b). \<forall>t. gap_since s = Some t \<longrightarrow> gap_timeout b \<le> now - t \<longrightarrow>
      (i, map snd (buffered s)) \<in> set (fst (flush_expired now b)) \<and> bt_ok (buffered s)"
    using assms flush_sources_out [of _ _ "sources b" _ "gap_timeout b" now]
    by (fastforce simp: flush_expired_def reorder_ok_def src_ok_def case_prod_beta Let_def)
qed

theorem flush_expired_releases_witness:
  "(NodeId ''a'', [7 :: nat]) \<in> set (fst (flush_expired 30 (snd (accept_at (NodeId ''a'') 3 7 0 (reorder_new 4 4 10)))))"
proof -
  define b where "b = snd (accept_at (NodeId ''a'') 3 (7 :: nat) 0 (reorder_new 4 4 10))"
  have "reorder_ok b"
    unfolding b_def by (rule accept_at_ok) (simp_all add: reorder_ok_def reorder_new_def u64_max_def)
  moreover have "b = \<lparr>sources = [(NodeId ''a'', \<lparr>next_expected = 1, buffered = [(3, 7)], gap_since = Some 0, last_activity = 0\<rparr>)],
      max_per_source = 4, max_sources = 4, gap_timeout = 10\<rparr>"
    unfolding b_def by code_simp
  ultimately show ?thesis
    unfolding b_def [symmetric] using flush_expired_releases [of b 30] by simp
qed

text \<open>
  Sources do not interfere: an arrival from one source leaves the state of every other
  source unchanged, as long as the arrival's source is already tracked or there is room for it.
\<close>

lemma reorder_sources_independent:
  assumes "hm_contains (sources b) i \<or> length (sources b) < max_sources b" and "j \<noteq> i"
  shows "hm_get (sources (snd (accept_at i seq c now b))) j = hm_get (sources b) j"
proof -
  have "evict_sources_if_needed i b = b" using assms(1) by (auto simp: evict_sources_if_needed_def)
  with assms(2) show ?thesis
    by (simp add: accept_at_def Let_def case_prod_beta split: option.splits)
qed

lemma reorder_sources_independent_witness:
  "hm_get (sources (snd (accept_at (NodeId ''b'') 9 (1 :: nat) 5 (snd (accept_at (NodeId ''a'') 3 7 0 (reorder_new 4 4 10)))))) (NodeId ''a'')
   = hm_get (sources (snd (accept_at (NodeId ''a'') 3 7 0 (reorder_new 4 4 10)))) (NodeId ''a'')"
  by (rule reorder_sources_independent)
    (simp_all add: accept_at_def reorder_new_def evict_sources_if_needed_def Let_def case_prod_beta hm_insert_def)

text \<open>
  Property C20. A sequence number of \<open>u64::MAX\<close>, which any sender can put into an envelope, makes the
  addition in \<open>flush\<close> wrap: the source then expects number 0, and the first message of the
  sender's next stream is held instead of delivered.
\<close>

theorem reorder_max_seq_wraps:
  "next_expected (fst (flush_if_stale timeout (t0 + timeout)
      (fst (accept_seq (Suc k) timeout u64_max c t0 (source_state_new t0))))) = 0
   \<and> snd (accept_seq (Suc k) timeout 1 d (t0 + timeout) (fst (flush_if_stale timeout (t0 + timeout)
      (fst (accept_seq (Suc k) timeout u64_max c t0 (source_state_new t0)))))) = []"
proof -
  let ?s = "\<lparr>next_expected = 1, buffered = [(u64_max, c)], gap_since = Some t0, last_activity = t0\<rparr>"
  have big: "1 < u64_max" by (simp add: u64_max_def)
  have s: "fst (accept_seq (Suc k) timeout u64_max c t0 (source_state_new t0)) = ?s"
    using big by (simp add: accept_seq_def source_state_new_def flush_if_stale_def Let_def)
  have f: "fst (flush_if_stale timeout (t0 + timeout) ?s) = ?s\<lparr>buffered := [], next_expected := 0, gap_since := None\<rparr>"
    by (simp add: flush_if_stale_def flush_def)
  show ?thesis
    unfolding s f by (simp add: accept_seq_def flush_if_stale_def Let_def)
qed

text \<open>
  A first message that arrives after the gap timeout is taken for a restart of the
  sender: it is delivered after its successor instead of being dropped as late, the source
  expects number 2 again, and number 3 is then held although 1 and 2 were delivered.
\<close>

lemma reorder_late_first_message:
  assumes "t0 + timeout \<le> t1"
  shows "snd (accept_seq (Suc k) timeout 1 a t1 (fst (accept_seq (Suc k) timeout 2 b t0 (source_state_new t0)))) = [b, a]
   \<and> snd (accept_seq (Suc k) timeout 3 c t1 (fst (accept_seq (Suc k) timeout 1 a t1
        (fst (accept_seq (Suc k) timeout 2 b t0 (source_state_new t0)))))) = []"
proof -
  let ?s = "\<lparr>next_expected = 1, buffered = [(2, b)], gap_since = Some t0, last_activity = t0\<rparr>"
  let ?s' = "\<lparr>next_expected = 2, buffered = [], gap_since = None, last_activity = t1\<rparr>"
  have s: "fst (accept_seq (Suc k) timeout 2 b t0 (source_state_new t0)) = ?s"
    by (simp add: accept_seq_def source_state_new_def flush_if_stale_def Let_def)
  have "timeout \<le> t1 - t0" using assms by simp
  then have s': "accept_seq (Suc k) timeout 1 a t1 ?s = (?s', [b, a])"
    by (simp add: accept_seq_def flush_if_stale_def flush_def Let_def wrap64_def)
  show ?thesis
    unfolding s s' fst_conv snd_conv by (simp add: accept_seq_def flush_if_stale_def Let_def)
qed

lemma reorder_late_first_message_witness:
  "snd (accept_seq (Suc 3) 10 1 ''a'' 10 (fst (accept_seq (Suc 3) 10 2 ''b'' 0 (source_state_new 0)))) = [''b'', ''a'']"
  using reorder_late_first_message [of 0 10 10 3 "''a''" "''b''"] by simp

end
