(* ===== verification/Ttl_Cache.thy ===== *)
theory Ttl_Cache
  imports Core_Types
begin

text \<open>
  The time-boxed cache of \<open>util.rs\<close> and the two duplicate filters built on it: the overlay
  router's \<open>OverlaySeenCache\<close> (\<open>overlay/router/dedupe.rs\<close>) and the signaling layer's
  \<open>DedupeCache\<close> (\<open>signaling/nostr/dedupe.rs\<close>). \<open>Instant::now()\<close> is an argument. The interface
  the clients use, the locale \<open>dedupe\<close>, is interpreted on both filters.
\<close>

section \<open>TtlCache\<close>

record 'k ttl_cache =
  ttl :: duration
  max_entries :: nat
  entries :: "('k, instant) hmap"

definition ttl_new :: "duration \<Rightarrow> nat \<Rightarrow> 'k ttl_cache" where
  "ttl_new t n = \<lparr>ttl = t, max_entries = n, entries = []\<rparr>"

definition ttl_sweep :: "instant \<Rightarrow> 'k ttl_cache \<Rightarrow> 'k ttl_cache" where
  "ttl_sweep now c = c\<lparr>entries := hm_retain (\<lambda>_ inserted_at. now - inserted_at < ttl c) (entries c)\<rparr>"

function evict_loop :: "nat \<Rightarrow> ('k, instant) hmap \<Rightarrow> ('k, instant) hmap" where
  "evict_loop limit m =
     (if limit \<le> length m then
        (case min_by_key snd m of
           None \<Rightarrow> m
         | Some oldest \<Rightarrow> evict_loop limit (hm_remove (fst oldest) m))
      else m)"
  by pat_completeness auto
termination
proof (relation "measure (\<lambda>(limit, m). length m)", goal_cases)
  case 1
  then show ?case by simp
next
  case (2 limit m oldest)
  then have "hm_contains m (fst oldest)"
    by (auto simp: hm_contains_def dest: min_by_key_in)
  then show ?case by (simp add: hm_length_remove_less)
qed

declare evict_loop.simps [simp del]

definition evict_oldest_until_below_limit :: "'k ttl_cache \<Rightarrow> 'k ttl_cache" where
  "evict_oldest_until_below_limit c = c\<lparr>entries := evict_loop (max_entries c) (entries c)\<rparr>"

section \<open>The two duplicate filters\<close>

definition OVERLAY_SEEN_TTL :: duration where "OVERLAY_SEEN_TTL = 30000"
definition OVERLAY_SEEN_MAX_ENTRIES :: nat where "OVERLAY_SEEN_MAX_ENTRIES = 4096"

type_synonym overlay_seen_cache = "(node_id \<times> nat) ttl_cache"

definition overlay_seen_new :: "duration \<Rightarrow> nat \<Rightarrow> overlay_seen_cache" where
  "overlay_seen_new t n = ttl_new t n"

definition overlay_seen_sweep :: "instant \<Rightarrow> overlay_seen_cache \<Rightarrow> overlay_seen_cache" where
  "overlay_seen_sweep now c = ttl_sweep now c"

definition overlay_check_and_insert ::
  "instant \<Rightarrow> node_id \<Rightarrow> nat \<Rightarrow> overlay_seen_cache \<Rightarrow> bool \<times> overlay_seen_cache" where
  "overlay_check_and_insert now from mid c =
     (if mid = 0 then (True, c)
      else
        let c = overlay_seen_sweep now c; key = (from, mid) in
        if hm_contains (entries c) key then (False, c)
        else
          let c = evict_oldest_until_below_limit c in
          (True, c\<lparr>entries := hm_insert key now (entries c)\<rparr>))"

definition DEDUPE_DEFAULT_MAX_ENTRIES :: nat where "DEDUPE_DEFAULT_MAX_ENTRIES = 4096"

type_synonym dedupe_cache = "string ttl_cache"

definition dedupe_new :: "duration \<Rightarrow> dedupe_cache" where
  "dedupe_new t = ttl_new t DEDUPE_DEFAULT_MAX_ENTRIES"

definition dedupe_sweep :: "instant \<Rightarrow> dedupe_cache \<Rightarrow> dedupe_cache" where
  "dedupe_sweep now c = ttl_sweep now c"

definition dedupe_check_and_insert ::
  "instant \<Rightarrow> string \<Rightarrow> dedupe_cache \<Rightarrow> bool \<times> dedupe_cache" where
  "dedupe_check_and_insert now event_id c =
     (let c = dedupe_sweep now c in
      if hm_contains (entries c) event_id then (False, c)
      else
        let c = evict_oldest_until_below_limit c in
        (True, c\<lparr>entries := hm_insert event_id now (entries c)\<rparr>))"

definition dedupe_clear :: "dedupe_cache \<Rightarrow> dedupe_cache" where
  "dedupe_clear c = c\<lparr>entries := []\<rparr>"

section \<open>Eviction\<close>

lemma evict_loop_below: "limit \<noteq> 0 \<Longrightarrow> length (evict_loop limit m) < limit"
proof (induction limit m rule: evict_loop.induct)
  case (1 limit m)
  show ?case
  proof (cases "limit \<le> length m")
    case True
    with \<open>limit \<noteq> 0\<close> have "m \<noteq> []" by auto
    then obtain x where x: "min_by_key snd m = Some x"
      using min_by_key_Some by blast
    from "1.IH" [OF True x] \<open>limit \<noteq> 0\<close> x True show ?thesis
      by (simp add: evict_loop.simps [of limit m])
  next
    case False
    then show ?thesis by (simp add: evict_loop.simps [of limit m])
  qed
qed

lemma evict_loop_sublist: "set (evict_loop limit m) \<subseteq> set m"
proof (induction limit m rule: evict_loop.induct)
  case (1 limit m)
  then show ?case
    by (auto simp: evict_loop.simps [of limit m] hm_set_remove split: option.splits)
qed

lemma evict_loop_ok: "hm_ok m \<Longrightarrow> hm_ok (evict_loop limit m)"
proof (induction limit m rule: evict_loop.induct)
  case (1 limit m)
  then show ?case
    by (subst evict_loop.simps) (auto split: option.splits)
qed

lemma evict_loop_noop: "length m < limit \<Longrightarrow> evict_loop limit m = m"
  by (subst evict_loop.simps) simp

text \<open>
  An entry survives eviction while fewer than \<open>limit\<close> entries are as recent as it is: what is
  evicted is always an oldest entry.
\<close>

lemma evict_loop_keeps_recent:
  assumes "hm_ok m" and "(k, t) \<in> set m" and "length (filter (\<lambda>p. t \<le> snd p) m) < limit"
  shows "(k, t) \<in> set (evict_loop limit m)"
  using assms
proof (induction limit m rule: evict_loop.induct)
  case (1 limit m)
  show ?case
  proof (cases "limit \<le> length m")
    case False
    with "1.prems" show ?thesis by (simp add: evict_loop.simps [of limit m])
  next
    case True
    from "1.prems"(2) obtain old where old: "min_by_key snd m = Some old"
      using min_by_key_Some by (metis empty_iff empty_set)
    have "snd old < t"
    proof (rule ccontr)
      assume "\<not> snd old < t"
      then have "\<forall>p \<in> set m. t \<le> snd p"
        using min_by_key_le [OF old] by force
      with "1.prems"(3) True show False by simp
    qed
    moreover have "old \<in> set m" using old by (rule min_by_key_in)
    ultimately have "fst old \<noteq> k"
      using "1.prems"(1,2) hm_in_get by (metis less_irrefl option.inject prod.collapse)
    then have keep: "(k, t) \<in> set (hm_remove (fst old) m)"
      using "1.prems"(2) by (auto simp: hm_set_remove)
    have "length (filter (\<lambda>p. t \<le> snd p) (hm_remove (fst old) m)) < limit"
      using "1.prems"(3) length_filter_le_mono [of m "\<lambda>p. fst p \<noteq> fst old \<and> t \<le> snd p" "\<lambda>p. t \<le> snd p"]
      by (auto simp: hm_remove_def)
    with "1.IH" [OF True old] "1.prems"(1) keep True old show ?thesis
      by (simp add: evict_loop.simps [of limit m])
  qed
qed

section \<open>The interface of a duplicate filter\<close>

text \<open>
  What a client of a duplicate filter relies on: \<open>check\<close> answers whether a key is new and
  records it, \<open>stamp\<close> is when a key was recorded, \<open>recent c t\<close> how many keys were recorded at
  \<open>t\<close> or later, \<open>tracked\<close> which keys are recorded at all.
\<close>

locale dedupe =
  fixes check :: "instant \<Rightarrow> 'k \<Rightarrow> 'c \<Rightarrow> bool \<times> 'c"
    and stamp :: "'c \<Rightarrow> 'k \<Rightarrow> instant option"
    and recent :: "'c \<Rightarrow> instant \<Rightarrow> nat"
    and life :: "'c \<Rightarrow> duration"
    and cap :: "'c \<Rightarrow> nat"
    and tracked :: "'k \<Rightarrow> bool"
    and ok :: "'c \<Rightarrow> bool"
  assumes ok_check: "ok c \<Longrightarrow> ok (snd (check now k c))"
    and life_check: "life (snd (check now k c)) = life c"
    and cap_check: "cap (snd (check now k c)) = cap c"
    and check_iff: "ok c \<Longrightarrow> tracked k \<Longrightarrow>
        fst (check now k c) \<longleftrightarrow> (\<forall>t. stamp c k = Some t \<longrightarrow> \<not> now - t < life c)"
    and check_stamps: "ok c \<Longrightarrow> tracked k \<Longrightarrow> fst (check now k c) \<Longrightarrow>
        stamp (snd (check now k c)) k = Some now"
    and check_keeps: "ok c \<Longrightarrow> stamp c k = Some t \<Longrightarrow> now - t < life c \<Longrightarrow> recent c t < cap c \<Longrightarrow>
        stamp (snd (check now k' c)) k = Some t"
    and check_recent: "ok c \<Longrightarrow> recent (snd (check now k c)) t \<le> Suc (recent c t)"
begin

lemma run_ok: "ok c \<Longrightarrow> ok (fold (\<lambda>(now, k) c. snd (check now k c)) es c)"
  by (induction es arbitrary: c) (auto simp: ok_check)

lemma stamp_survives:
  assumes "ok c" and "stamp c k = Some t" and "\<forall>(now, _) \<in> set es. now - t < life c"
    and "recent c t + length es \<le> cap c"
  shows "stamp (fold (\<lambda>(now, k) c. snd (check now k c)) es c) k = Some t
    \<and> life (fold (\<lambda>(now, k) c. snd (check now k c)) es c) = life c"
  using assms
proof (induction es arbitrary: c)
  case Nil
  then show ?case by simp
next
  case (Cons e es)
  obtain now k' where e: "e = (now, k')" by fastforce
  let ?c = "snd (check now k' c)"
  from Cons.prems have t: "now - t < life c" and lt: "recent c t < cap c"
    by (auto simp: e)
  have "stamp ?c k = Some t"
    using Cons.prems(1,2) t lt by (rule check_keeps)
  moreover have "recent ?c t + length es \<le> cap ?c"
    using Cons.prems(4) check_recent [OF Cons.prems(1), of now k' t] by (simp add: cap_check)
  ultimately show ?case
    using Cons.IH [of ?c] Cons.prems by (simp add: e ok_check life_check)
qed

lemma accepted_at_most_once:
  assumes "ok c" and "tracked k" and "fst (check t k c)"
    and "\<forall>(now, _) \<in> set es. now - t < life c" and "now - t < life c"
    and "recent (snd (check t k c)) t + length es \<le> cap c"
  shows "\<not> fst (check now k (fold (\<lambda>(now, k) c. snd (check now k c)) es (snd (check t k c))))"
proof -
  let ?c = "snd (check t k c)"
  let ?d = "fold (\<lambda>(now, k) c. snd (check now k c)) es ?c"
  have "stamp ?d k = Some t \<and> life ?d = life ?c"
    using assms by (intro stamp_survives) (auto simp: ok_check check_stamps life_check cap_check)
  then show ?thesis
    using assms by (auto simp: check_iff run_ok ok_check life_check)
qed

end

section \<open>Both filters provide it\<close>

definition ttl_record :: "instant \<Rightarrow> 'k \<Rightarrow> 'k ttl_cache \<Rightarrow> bool \<times> 'k ttl_cache" where
  "ttl_record now k c =
     (let c = ttl_sweep now c in
      if hm_contains (entries c) k then (False, c)
      else (True, c\<lparr>entries := hm_insert k now (evict_loop (max_entries c) (entries c))\<rparr>))"

definition ttl_ok :: "'k ttl_cache \<Rightarrow> bool" where
  "ttl_ok c \<longleftrightarrow> hm_ok (entries c)"

definition ttl_stamp :: "'k ttl_cache \<Rightarrow> 'k \<Rightarrow> instant option" where
  "ttl_stamp c k = hm_get (entries c) k"

definition ttl_recent :: "'k ttl_cache \<Rightarrow> instant \<Rightarrow> nat" where
  "ttl_recent c t = length (filter (\<lambda>p. t \<le> snd p) (entries c))"

lemma overlay_check_eq:
  "overlay_check_and_insert now from mid c = (if mid = 0 then (True, c) else ttl_record now (from, mid) c)"
  by (simp add: overlay_check_and_insert_def ttl_record_def overlay_seen_sweep_def
      evict_oldest_until_below_limit_def Let_def)

lemma dedupe_check_eq: "dedupe_check_and_insert now e c = ttl_record now e c"
  by (simp add: dedupe_check_and_insert_def ttl_record_def dedupe_sweep_def
      evict_oldest_until_below_limit_def Let_def)

lemma ttl_sweep_fields [simp]:
  "ttl (ttl_sweep now c) = ttl c" "max_entries (ttl_sweep now c) = max_entries c"
  by (simp_all add: ttl_sweep_def)

lemma ttl_sweep_get:
  "ttl_ok c \<Longrightarrow> hm_get (entries (ttl_sweep now c)) k =
     (case ttl_stamp c k of None \<Rightarrow> None | Some t \<Rightarrow> if now - t < ttl c then Some t else None)"
  by (simp add: ttl_sweep_def ttl_ok_def ttl_stamp_def hm_get_retain split: option.splits)

lemma ttl_sweep_ok: "ttl_ok c \<Longrightarrow> hm_ok (entries (ttl_sweep now c))"
  by (simp add: ttl_sweep_def ttl_ok_def)

lemma ttl_sweep_recent:
  "length (filter (\<lambda>p. t \<le> snd p) (entries (ttl_sweep now c))) \<le> ttl_recent c t"
  by (auto simp: ttl_sweep_def ttl_recent_def hm_retain_def intro: length_filter_le_mono)

lemma ttl_record_ok: "ttl_ok c \<Longrightarrow> ttl_ok (snd (ttl_record now k c))"
  by (auto simp: ttl_record_def Let_def ttl_ok_def evict_loop_ok ttl_sweep_ok [unfolded ttl_ok_def])

lemma ttl_record_fields [simp]:
  "ttl (snd (ttl_record now k c)) = ttl c" "max_entries (snd (ttl_record now k c)) = max_entries c"
  by (simp_all add: ttl_record_def Let_def)

lemma ttl_record_iff:
  "ttl_ok c \<Longrightarrow> fst (ttl_record now k c) \<longleftrightarrow> (\<forall>t. ttl_stamp c k = Some t \<longrightarrow> \<not> now - t < ttl c)"
  by (auto simp: ttl_record_def Let_def hm_contains_get ttl_sweep_get split: option.splits if_splits)

lemma ttl_record_stamps:
  "fst (ttl_record now k c) \<Longrightarrow> ttl_stamp (snd (ttl_record now k c)) k = Some now"
  by (auto simp: ttl_record_def Let_def ttl_stamp_def split: if_splits)

lemma evict_loop_recent:
  "length (filter P (evict_loop limit m)) \<le> length (filter P m)"
proof (induction limit m rule: evict_loop.induct)
  case (1 limit m)
  have "length (filter P (hm_remove k m)) \<le> length (filter P m)" for k
    by (auto simp: hm_remove_def intro: length_filter_le_mono)
  with 1 show ?case
    by (auto simp: evict_loop.simps [of limit m] split: option.splits intro: order.trans)
qed

lemma ttl_record_recent: "ttl_recent (snd (ttl_record now k c)) t \<le> Suc (ttl_recent c t)"
proof (cases "hm_contains (entries (ttl_sweep now c)) k")
  case True
  then show ?thesis
    using ttl_sweep_recent [of t now c] by (simp add: ttl_record_def ttl_recent_def)
next
  case False
  let ?m = "evict_loop (max_entries c) (entries (ttl_sweep now c))"
  have "\<not> hm_contains ?m k"
    using False evict_loop_sublist by (fastforce simp: hm_contains_def)
  then have "length (filter (\<lambda>p. t \<le> snd p) (hm_insert k now ?m)) \<le> Suc (length (filter (\<lambda>p. t \<le> snd p) ?m))"
    by (simp add: hm_insert_fresh)
  also have "\<dots> \<le> Suc (ttl_recent c t)"
    using evict_loop_recent [of "\<lambda>p. t \<le> snd p" "max_entries c" "entries (ttl_sweep now c)"]
      ttl_sweep_recent [of t now c] by linarith
  finally show ?thesis
    using False by (simp add: ttl_record_def ttl_recent_def Let_def)
qed

lemma ttl_record_keeps:
  assumes "ttl_ok c" and "ttl_stamp c k = Some t" and "now - t < ttl c"
    and "ttl_recent c t < max_entries c"
  shows "ttl_stamp (snd (ttl_record now k' c)) k = Some t"
proof -
  let ?m = "entries (ttl_sweep now c)"
  have m: "hm_get ?m k = Some t"
    using assms by (simp add: ttl_sweep_get)
  show ?thesis
  proof (cases "hm_contains ?m k'")
    case True
    with m show ?thesis by (simp add: ttl_record_def ttl_stamp_def)
  next
    case False
    with m have "k \<noteq> k'" by (auto simp: hm_contains_get)
    have "(k, t) \<in> set (evict_loop (max_entries c) ?m)"
    proof (rule evict_loop_keeps_recent)
      show "hm_ok ?m" using assms(1) by (rule ttl_sweep_ok)
      show "(k, t) \<in> set ?m" using m by (rule hm_get_in)
      show "length (filter (\<lambda>p. t \<le> snd p) ?m) < max_entries c"
        using ttl_sweep_recent [of t now c] assms(4) by linarith
    qed
    then have "hm_get (evict_loop (max_entries c) ?m) k = Some t"
      using assms(1) by (intro hm_in_get evict_loop_ok ttl_sweep_ok)
    with False \<open>k \<noteq> k'\<close> show ?thesis by (simp add: ttl_record_def ttl_stamp_def Let_def)
  qed
qed

interpretation nostr_seen: dedupe dedupe_check_and_insert ttl_stamp ttl_recent ttl max_entries "\<lambda>_. True" ttl_ok
  by unfold_locales
    (auto simp: dedupe_check_eq ttl_record_ok ttl_record_iff ttl_record_stamps ttl_record_recent ttl_record_keeps)

interpretation overlay_seen: dedupe "\<lambda>now k. overlay_check_and_insert now (fst k) (snd k)"
    ttl_stamp ttl_recent ttl max_entries "\<lambda>k. snd k \<noteq> 0" ttl_ok
  by unfold_locales
    (auto simp: overlay_check_eq ttl_record_ok ttl_record_iff ttl_record_stamps ttl_record_recent ttl_record_keeps)

section \<open>Runs of a filter\<close>

definition overlay_seen_run ::
  "(instant \<times> node_id \<times> nat) list \<Rightarrow> overlay_seen_cache \<Rightarrow> overlay_seen_cache" where
  "overlay_seen_run es c = fold (\<lambda>(now, from, mid) c. snd (overlay_check_and_insert now from mid c)) es c"

definition dedupe_run :: "(instant \<times> string) list \<Rightarrow> dedupe_cache \<Rightarrow> dedupe_cache" where
  "dedupe_run es c = fold (\<lambda>(now, e) c. snd (dedupe_check_and_insert now e c)) es c"

lemma overlay_seen_run_fold:
  "overlay_seen_run es c = fold (\<lambda>(now, k) c. snd (overlay_check_and_insert now (fst k) (snd k) c)) es c"
proof -
  have "(\<lambda>(now, from, mid) c. snd (overlay_check_and_insert now from mid c)) =
      (\<lambda>(now, k) c. snd (overlay_check_and_insert now (fst k) (snd k) c))"
    by (auto intro!: ext)
  then show ?thesis by (simp only: overlay_seen_run_def)
qed

lemma ttl_record_bounded:
  "0 < max_entries c \<Longrightarrow> length (entries c) \<le> max_entries c \<Longrightarrow>
   length (entries (snd (ttl_record now k c))) \<le> max_entries c"
proof -
  assume cap: "0 < max_entries c" and len: "length (entries c) \<le> max_entries c"
  have "length (entries (ttl_sweep now c)) \<le> max_entries c"
    using len hm_length_retain [of _ "entries c"] by (simp add: ttl_sweep_def) (meson order.trans)
  moreover have "length (evict_loop (max_entries c) (entries (ttl_sweep now c))) < max_entries c"
    using cap by (simp add: evict_loop_below)
  ultimately show ?thesis
    by (auto simp: ttl_record_def Let_def hm_length_insert)
qed

lemma overlay_seen_run_bounded:
  "0 < max_entries c \<Longrightarrow> length (entries c) \<le> max_entries c \<Longrightarrow>
   length (entries (overlay_seen_run es c)) \<le> max_entries c"
proof (induction es arbitrary: c)
  case Nil
  then show ?case by (simp add: overlay_seen_run_def)
next
  case (Cons e es)
  obtain now "from" mid where e: "e = (now, from, mid)" by (cases e) auto
  let ?c = "snd (overlay_check_and_insert now from mid c)"
  have "max_entries ?c = max_entries c \<and> length (entries ?c) \<le> max_entries c"
    using Cons.prems by (simp add: overlay_check_eq ttl_record_bounded)
  with Cons.IH [of ?c] Cons.prems show ?case by (simp add: overlay_seen_run_def e)
qed

section \<open>Properties\<close>

text \<open>
  The overlay accepts an envelope at most once: once \<open>(from, msg_id)\<close> with a nonzero
  message id has been accepted at time \<open>t\<close>, every later copy that arrives within the time to live is
  reported as a duplicate, whatever arrives in between, as long as the cache's capacity is not
  exceeded by the entries recorded at \<open>t\<close> or later.
\<close>

lemma overlay_seen_at_most_once:
  assumes "ttl_ok c" and "mid \<noteq> 0" and "fst (overlay_check_and_insert t from mid c)"
    and "\<forall>e \<in> set es. fst e - t < ttl c" and "now - t < ttl c"
    and "ttl_recent (snd (overlay_check_and_insert t from mid c)) t + length es \<le> max_entries c"
  shows "\<not> fst (overlay_check_and_insert now from mid
            (overlay_seen_run es (snd (overlay_check_and_insert t from mid c))))"
  using overlay_seen.accepted_at_most_once [of c "(from, mid)" t es now] assms
  by (simp add: overlay_seen_run_fold case_prod_beta)

theorem overlay_seen_at_most_once_witness:
  "\<not> fst (overlay_check_and_insert 9 (NodeId ''a'') 7
        (overlay_seen_run [(6, NodeId ''b'', 7), (8, NodeId ''a'', 7)]
          (snd (overlay_check_and_insert 5 (NodeId ''a'') 7 (overlay_seen_new 30 8)))))"
  by (rule overlay_seen_at_most_once) code_simp+

text \<open>
  The signaling layer processes a relay event at most once: relays that replay an event
  within the time to live are filtered out, whatever other events arrive in between and whichever
  relay delivered it, while the capacity lasts.
\<close>

lemma nostr_event_at_most_once:
  assumes "ttl_ok c" and "fst (dedupe_check_and_insert t event_id c)"
    and "\<forall>e \<in> set es. fst e - t < ttl c" and "now - t < ttl c"
    and "ttl_recent (snd (dedupe_check_and_insert t event_id c)) t + length es \<le> max_entries c"
  shows "\<not> fst (dedupe_check_and_insert now event_id
            (dedupe_run es (snd (dedupe_check_and_insert t event_id c))))"
  using nostr_seen.accepted_at_most_once [where c = c and k = event_id and t = t and es = es and now = now] assms
  by (simp add: dedupe_run_def case_prod_beta)

theorem nostr_event_at_most_once_witness:
  "\<not> fst (dedupe_check_and_insert 9 ''e1''
        (dedupe_run [(6, ''e2''), (8, ''e1'')] (snd (dedupe_check_and_insert 5 ''e1'' (dedupe_new 30)))))"
  by (rule nostr_event_at_most_once) code_simp+

text \<open>
  The duplicate filter's memory is bounded by its configured capacity over every run
  that starts from an empty cache.
\<close>

lemma overlay_seen_bounded:
  "0 < n \<Longrightarrow> length (entries (overlay_seen_run es (overlay_seen_new life n))) \<le> n"
  using overlay_seen_run_bounded [of "overlay_seen_new life n" es]
  by (simp add: overlay_seen_new_def ttl_new_def)

lemma overlay_seen_bounded_witness:
  "0 < (2::nat) \<and> length (entries (overlay_seen_run
      [(1, NodeId ''a'', 1), (2, NodeId ''a'', 2), (3, NodeId ''a'', 3)] (overlay_seen_new 30 2))) \<le> 2"
  using overlay_seen_bounded [of 2 "[(1, NodeId ''a'', 1), (2, NodeId ''a'', 2), (3, NodeId ''a'', 3)]" 30] by simp

end
