(* ===== verification/Link_Stats.thy ===== *)
theory Link_Stats
  imports Storage_Frames
begin

text \<open>
  Traffic counters and PING/PONG liveness (\<open>stats.rs\<close>, \<open>stats/ping.rs\<close>). The process-wide
  \<open>STATS\<close> is an explicit state. The envelope encoding (the bincode crate) is the argument
  \<open>ser\<close>/\<open>deser\<close>; the random message identifiers and the clock are arguments too. Round-trip
  times are kept in the microseconds they are measured in; the conversion to \<open>f32\<close> milliseconds
  is left out.
\<close>

section \<open>Receive counter of a transport generation\<close>

record transport_receive_counter =
  baseline :: "(string \<times> nat) option"

definition receive_observe :: "string \<Rightarrow> nat \<Rightarrow> transport_receive_counter \<Rightarrow> bool \<times> transport_receive_counter" where
  "receive_observe report_id bytes_received c =
     (let grew = (case baseline c of None \<Rightarrow> False | Some (i, previous) \<Rightarrow> i = report_id \<and> bytes_received > previous) in
      (grew, c\<lparr>baseline :=
        (case baseline c of
           Some (i, previous) \<Rightarrow> if i = report_id then Some (i, bytes_received) else Some (report_id, bytes_received)
         | None \<Rightarrow> Some (report_id, bytes_received))\<rparr>))"

section \<open>Statistics\<close>

record ping_health =
  awaiting :: bool
  consecutive_misses :: nat
  suspect :: bool

definition ping_health_default :: ping_health where
  "ping_health_default = \<lparr>awaiting = False, consecutive_misses = 0, suspect = False\<rparr>"

record mist_stats =
  total_send_bytes :: nat
  total_receive_bytes :: nat
  total_message_count :: nat
  total_world_send_bytes :: nat
  total_world_receive_bytes :: nat
  total_world_message_count :: nat
  total_relay_send_bytes :: nat
  total_relay_receive_bytes :: nat
  total_relay_message_count :: nat
  dropped_receive_events :: nat
  dropped_ffi_events :: nat
  rtt_micros :: "(node_id, nat) hmap"
  ping_healths :: "(node_id, ping_health) hmap"

definition mist_stats_new :: mist_stats where
  "mist_stats_new = \<lparr>total_send_bytes = 0, total_receive_bytes = 0, total_message_count = 0,
     total_world_send_bytes = 0, total_world_receive_bytes = 0, total_world_message_count = 0,
     total_relay_send_bytes = 0, total_relay_receive_bytes = 0, total_relay_message_count = 0,
     dropped_receive_events = 0, dropped_ffi_events = 0, rtt_micros = [], ping_healths = []\<rparr>"

definition add_send :: "nat \<Rightarrow> mist_stats \<Rightarrow> mist_stats" where
  "add_send n s = s\<lparr>total_send_bytes := wrap64 (total_send_bytes s + n), total_message_count := wrap64 (total_message_count s + 1)\<rparr>"

definition add_receive :: "nat \<Rightarrow> mist_stats \<Rightarrow> mist_stats" where
  "add_receive n s = s\<lparr>total_receive_bytes := wrap64 (total_receive_bytes s + n)\<rparr>"

definition add_world_send :: "nat \<Rightarrow> mist_stats \<Rightarrow> mist_stats" where
  "add_world_send n s = s\<lparr>total_world_send_bytes := wrap64 (total_world_send_bytes s + n),
     total_world_message_count := wrap64 (total_world_message_count s + 1)\<rparr>"

definition add_world_receive :: "nat \<Rightarrow> mist_stats \<Rightarrow> mist_stats" where
  "add_world_receive n s = s\<lparr>total_world_receive_bytes := wrap64 (total_world_receive_bytes s + n)\<rparr>"

definition add_relay_send :: "nat \<Rightarrow> mist_stats \<Rightarrow> mist_stats" where
  "add_relay_send n s = s\<lparr>total_relay_send_bytes := wrap64 (total_relay_send_bytes s + n),
     total_relay_message_count := wrap64 (total_relay_message_count s + 1)\<rparr>"

definition add_relay_receive :: "nat \<Rightarrow> mist_stats \<Rightarrow> mist_stats" where
  "add_relay_receive n s = s\<lparr>total_relay_receive_bytes := wrap64 (total_relay_receive_bytes s + n)\<rparr>"

datatype overlay_frame_class = World nat | Relay nat | Excluded

definition probe_marker :: string where
  "probe_marker = [CHR 0x22] @ ''type'' @ [CHR 0x22] @ '':'' @ [CHR 0x22] @ ''network_partition_probe'' @ [CHR 0x22]"

text \<open>\<open>payload.windows(n).any(|w| w == marker)\<close>.\<close>

fun has_window :: "'a list \<Rightarrow> 'a list \<Rightarrow> bool" where
  "has_window w [] \<longleftrightarrow> w = []"
| "has_window w (x # xs) \<longleftrightarrow> take (length w) (x # xs) = w \<or> has_window w xs"

definition is_network_partition_probe_payload :: "bytes \<Rightarrow> bool" where
  "is_network_partition_probe_payload p = has_window (str_bytes probe_marker) p"

definition is_network_partition_check_frame :: "(bytes \<Rightarrow> overlay_envelope option) \<Rightarrow> bytes \<Rightarrow> bool" where
  "is_network_partition_check_frame deser data =
     (case deser data of
        None \<Rightarrow> False
      | Some e \<Rightarrow> (case content e of Raw p \<Rightarrow> is_network_partition_probe_payload p | _ \<Rightarrow> False))"

definition classify_overlay_frame :: "(bytes \<Rightarrow> overlay_envelope option) \<Rightarrow> bytes \<Rightarrow> overlay_frame_class option" where
  "classify_overlay_frame deser data =
     (case deser data of
        None \<Rightarrow> None
      | Some e \<Rightarrow>
          (case content e of
             Overlay msg \<Rightarrow>
               if message_type msg \<in> {OVERLAY_MSG_HEARTBEAT, OVERLAY_MSG_REQUEST_NODE_LIST, OVERLAY_MSG_NODE_LIST, OVERLAY_MSG_POSITION}
               then Some (World (length data)) else None
           | Raw p \<Rightarrow> if is_network_partition_probe_payload p then Some Excluded else Some (Relay (length data))
           | Data _ \<Rightarrow> Some (Relay (length data))))"

definition add_world_send_frame :: "(bytes \<Rightarrow> overlay_envelope option) \<Rightarrow> bytes \<Rightarrow> mist_stats \<Rightarrow> mist_stats" where
  "add_world_send_frame deser data s =
     (case classify_overlay_frame deser data of
        Some (World n) \<Rightarrow> add_world_send n s | Some (Relay n) \<Rightarrow> add_relay_send n s | _ \<Rightarrow> s)"

definition add_world_receive_frame :: "(bytes \<Rightarrow> overlay_envelope option) \<Rightarrow> bytes \<Rightarrow> mist_stats \<Rightarrow> mist_stats" where
  "add_world_receive_frame deser data s =
     (case classify_overlay_frame deser data of
        Some (World n) \<Rightarrow> add_world_receive n s | Some (Relay n) \<Rightarrow> add_relay_receive n s | _ \<Rightarrow> s)"

definition add_send_frame :: "(bytes \<Rightarrow> overlay_envelope option) \<Rightarrow> bytes \<Rightarrow> mist_stats \<Rightarrow> mist_stats" where
  "add_send_frame deser data s =
     (case classify_overlay_frame deser data of
        Some Excluded \<Rightarrow> s
      | Some (World n) \<Rightarrow> add_world_send n (add_send (length data) s)
      | Some (Relay n) \<Rightarrow> add_relay_send n (add_send (length data) s)
      | None \<Rightarrow> add_send (length data) s)"

definition add_receive_frame :: "(bytes \<Rightarrow> overlay_envelope option) \<Rightarrow> bytes \<Rightarrow> mist_stats \<Rightarrow> mist_stats" where
  "add_receive_frame deser data s =
     (case classify_overlay_frame deser data of
        Some Excluded \<Rightarrow> s
      | Some (World n) \<Rightarrow> add_world_receive n (add_receive (length data) s)
      | Some (Relay n) \<Rightarrow> add_relay_receive n (add_receive (length data) s)
      | None \<Rightarrow> add_receive (length data) s)"

definition add_dropped_receive_event :: "mist_stats \<Rightarrow> mist_stats" where
  "add_dropped_receive_event s = s\<lparr>dropped_receive_events := wrap64 (dropped_receive_events s + 1)\<rparr>"

definition add_dropped_ffi_event :: "mist_stats \<Rightarrow> mist_stats" where
  "add_dropped_ffi_event s = s\<lparr>dropped_ffi_events := wrap64 (dropped_ffi_events s + 1)\<rparr>"

definition set_rtt :: "node_id \<Rightarrow> nat \<Rightarrow> mist_stats \<Rightarrow> mist_stats" where
  "set_rtt n micros s = s\<lparr>rtt_micros := hm_insert n micros (rtt_micros s)\<rparr>"

definition remove_rtt :: "node_id \<Rightarrow> mist_stats \<Rightarrow> mist_stats" where
  "remove_rtt n s = s\<lparr>rtt_micros := hm_remove n (rtt_micros s)\<rparr>"

definition remove_node :: "node_id \<Rightarrow> mist_stats \<Rightarrow> mist_stats" where
  "remove_node n s = s\<lparr>rtt_micros := hm_remove n (rtt_micros s), ping_healths := hm_remove n (ping_healths s)\<rparr>"

definition health_of :: "node_id \<Rightarrow> mist_stats \<Rightarrow> ping_health" where
  "health_of n s = (case hm_get (ping_healths s) n of None \<Rightarrow> ping_health_default | Some h \<Rightarrow> h)"

definition note_ping_sent :: "node_id \<Rightarrow> nat \<Rightarrow> mist_stats \<Rightarrow> nat \<times> mist_stats" where
  "note_ping_sent n timeout_count s =
     (let entry = health_of n s;
          misses = (if awaiting entry then saturating_add32 (consecutive_misses entry) 1 else 0);
          entry = entry\<lparr>consecutive_misses := misses, awaiting := True,
            suspect := (if timeout_count > 0 \<and> misses = timeout_count then True else suspect entry)\<rparr>
      in (misses, s\<lparr>ping_healths := hm_insert n entry (ping_healths s)\<rparr>))"

definition note_inbound_activity :: "node_id \<Rightarrow> mist_stats \<Rightarrow> bool \<times> mist_stats" where
  "note_inbound_activity n s =
     (case hm_get (ping_healths s) n of
        None \<Rightarrow> (False, s)
      | Some entry \<Rightarrow>
          (suspect entry,
           s\<lparr>ping_healths := hm_insert n \<lparr>awaiting = False, consecutive_misses = 0, suspect = False\<rparr> (ping_healths s)\<rparr>))"

definition note_pong_received :: "node_id \<Rightarrow> mist_stats \<Rightarrow> bool \<times> mist_stats" where
  "note_pong_received n s = note_inbound_activity n s"

record stats_snapshot =
  snap_message_count :: nat
  snap_send_bits :: nat
  snap_receive_bits :: nat
  snap_rtt :: "(node_id, nat) hmap"
  snap_world_send_bits :: nat
  snap_world_receive_bits :: nat
  snap_world_message_count :: nat
  snap_relay_send_bits :: nat
  snap_relay_receive_bits :: nat
  snap_relay_message_count :: nat
  snap_dropped_receive_events :: nat
  snap_dropped_ffi_events :: nat

definition snapshot_and_reset :: "mist_stats \<Rightarrow> stats_snapshot \<times> mist_stats" where
  "snapshot_and_reset s =
     (\<lparr>snap_message_count = total_message_count s,
       snap_send_bits = wrap64 (total_send_bytes s * 8), snap_receive_bits = wrap64 (total_receive_bytes s * 8),
       snap_rtt = rtt_micros s,
       snap_world_send_bits = wrap64 (total_world_send_bytes s * 8),
       snap_world_receive_bits = wrap64 (total_world_receive_bytes s * 8),
       snap_world_message_count = total_world_message_count s,
       snap_relay_send_bits = wrap64 (total_relay_send_bytes s * 8),
       snap_relay_receive_bits = wrap64 (total_relay_receive_bytes s * 8),
       snap_relay_message_count = total_relay_message_count s,
       snap_dropped_receive_events = dropped_receive_events s,
       snap_dropped_ffi_events = dropped_ffi_events s\<rparr>,
      mist_stats_new\<lparr>rtt_micros := rtt_micros s, ping_healths := ping_healths s\<rparr>)"

section \<open>PING and PONG\<close>

definition u64_to_le_bytes :: "nat \<Rightarrow> bytes" where
  "u64_to_le_bytes n = map (\<lambda>i. of_nat (n div 256 ^ i)) [0..<8]"

definition u64_from_le_bytes :: "bytes \<Rightarrow> nat" where
  "u64_from_le_bytes bs = sum_list (map (\<lambda>i. unat (bs ! i) * 256 ^ i) [0..<8])"

definition control_envelope :: "nat \<Rightarrow> node_id \<Rightarrow> node_id \<Rightarrow> nat \<Rightarrow> nat \<Rightarrow> bytes \<Rightarrow> overlay_envelope" where
  "control_envelope rid from to hops mtype p =
     envelope_new rid from to hops (Overlay \<lparr>message_type = mtype, payload = p\<rparr>)"

text \<open>\<open>rids k\<close> is the random identifier of the \<open>k\<close>-th envelope.\<close>

definition send_ping_all ::
  "(overlay_envelope \<Rightarrow> bytes option) \<Rightarrow> (nat \<Rightarrow> nat) \<Rightarrow> nat \<Rightarrow> node_id \<Rightarrow> nat \<Rightarrow> node_id list \<Rightarrow> overlay_action list" where
  "send_ping_all ser rids now local hops connected =
     (let p = u64_to_le_bytes now in
      List.map_filter (\<lambda>(k, target).
        case ser (control_envelope (rids k) local target hops OVERLAY_MSG_PING p) of
          None \<Rightarrow> None
        | Some data \<Rightarrow> Some (SendMessage target data Unreliable Control))
      (enumerate 0 connected))"

fun ping_round :: "nat \<Rightarrow> node_id list \<Rightarrow> mist_stats \<Rightarrow> overlay_action list \<times> mist_stats" where
  "ping_round timeout_count [] s = ([], s)"
| "ping_round timeout_count (target # targets) s =
     (let (misses, s) = note_ping_sent target timeout_count s;
          (actions, s) = ping_round timeout_count targets s
      in ((if timeout_count > 0 \<and> misses = timeout_count then [SuspectDisconnected target] else []) @ actions, s))"

definition tick_actions ::
  "(overlay_envelope \<Rightarrow> bytes option) \<Rightarrow> (nat \<Rightarrow> nat) \<Rightarrow> nat \<Rightarrow> node_id \<Rightarrow> nat \<Rightarrow> node_id list \<Rightarrow> nat \<Rightarrow> mist_stats
   \<Rightarrow> overlay_action list \<times> mist_stats" where
  "tick_actions ser rids now local hops connected timeout_count s =
     (let (actions, s) = ping_round timeout_count connected s in
      (actions @ send_ping_all ser rids now local hops connected, s))"

definition handle_ping ::
  "(overlay_envelope \<Rightarrow> bytes option) \<Rightarrow> nat \<Rightarrow> node_id \<Rightarrow> node_id \<Rightarrow> nat \<Rightarrow> bytes \<Rightarrow> overlay_action list" where
  "handle_ping ser rid local from hops p =
     (case ser (control_envelope rid local from hops OVERLAY_MSG_PONG p) of
        Some data \<Rightarrow> [SendMessage from data Unreliable Control]
      | None \<Rightarrow> [])"

definition handle_pong :: "nat \<Rightarrow> node_id \<Rightarrow> bytes \<Rightarrow> mist_stats \<Rightarrow> overlay_action list \<times> mist_stats" where
  "handle_pong now from p s =
     (if length p < 8 then ([], s)
      else
        let sent_time = u64_from_le_bytes (take 8 p);
            (was_suspect, s) = note_pong_received from s;
            s = set_rtt from (now - sent_time) s
        in (if was_suspect then [ClearSuspect from] else [], s))"

section \<open>The liveness automaton\<close>

datatype link_event =
    PingRound "node_id list"
  | Activity node_id
  | Pong nat node_id bytes

fun link_step :: "nat \<Rightarrow> link_event \<Rightarrow> mist_stats \<Rightarrow> overlay_action list \<times> mist_stats" where
  "link_step timeout_count (PingRound targets) s = ping_round timeout_count targets s"
| "link_step timeout_count (Activity n) s =
     (let (cleared, s) = note_inbound_activity n s in (if cleared then [ClearSuspect n] else [], s))"
| "link_step timeout_count (Pong now n p) s = handle_pong now n p s"

fun link_run :: "nat \<Rightarrow> link_event list \<Rightarrow> mist_stats \<Rightarrow> overlay_action list \<times> mist_stats" where
  "link_run timeout_count [] s = ([], s)"
| "link_run timeout_count (e # es) s =
     (let (out, s) = link_step timeout_count e s; (out', s) = link_run timeout_count es s in (out @ out', s))"

text \<open>
  Reading the suspicions of one peer off a sequence of actions: \<open>None\<close> as soon as a suspicion is
  raised twice without being cleared, or cleared without having been raised.
\<close>

fun latch :: "node_id \<Rightarrow> bool \<Rightarrow> overlay_action list \<Rightarrow> bool option" where
  "latch n b [] = Some b"
| "latch n b (SuspectDisconnected m # as) =
     (if m = n then (if b then None else latch n True as) else latch n b as)"
| "latch n b (ClearSuspect m # as) =
     (if m = n then (if b then latch n False as else None) else latch n b as)"
| "latch n b (_ # as) = latch n b as"

lemma latch_append: "latch n b (xs @ ys) = Option.bind (latch n b xs) (\<lambda>b. latch n b ys)"
  by (induction n b xs rule: latch.induct) auto

definition health_ok :: "nat \<Rightarrow> mist_stats \<Rightarrow> bool" where
  "health_ok timeout_count s \<longleftrightarrow> (\<forall>n. suspect (health_of n s) \<longrightarrow>
     awaiting (health_of n s) \<and> timeout_count \<le> consecutive_misses (health_of n s))"

definition health_step :: "nat \<Rightarrow> ping_health \<Rightarrow> nat \<times> ping_health" where
  "health_step timeout_count h =
     (let misses = (if awaiting h then saturating_add32 (consecutive_misses h) 1 else 0) in
      (misses, \<lparr>awaiting = True, consecutive_misses = misses,
         suspect = (suspect h \<or> timeout_count > 0 \<and> misses = timeout_count)\<rparr>))"

lemma note_ping_sent_health:
  "fst (note_ping_sent n t s) = fst (health_step t (health_of n s))"
  "health_of m (snd (note_ping_sent n t s)) = (if m = n then snd (health_step t (health_of n s)) else health_of m s)"
  by (auto simp: note_ping_sent_def health_step_def health_of_def Let_def)

lemma note_inbound_health:
  "fst (note_inbound_activity n s) = suspect (health_of n s)"
  "health_of m (snd (note_inbound_activity n s)) = (if m = n then ping_health_default else health_of m s)"
  by (auto simp: note_inbound_activity_def health_of_def ping_health_default_def split: option.splits)

lemma health_of_set_rtt [simp]: "health_of m (set_rtt n r s) = health_of m s"
  by (simp add: health_of_def set_rtt_def)

lemma health_step_latch:
  assumes "0 < t" and "t < u32_max" and "suspect h \<longrightarrow> awaiting h \<and> t \<le> consecutive_misses h"
  shows "(fst (health_step t h) = t \<longrightarrow> \<not> suspect h)
    \<and> (suspect (snd (health_step t h)) \<longleftrightarrow> suspect h \<or> fst (health_step t h) = t)
    \<and> (suspect (snd (health_step t h)) \<longrightarrow> awaiting (snd (health_step t h)) \<and> t \<le> consecutive_misses (snd (health_step t h)))"
  using assms by (auto simp: health_step_def Let_def saturating_add32_def min_def)

lemma ping_round_latch:
  assumes "0 < t" and "t < u32_max" and "health_ok t s"
  shows "latch n (suspect (health_of n s)) (fst (ping_round t targets s)) = Some (suspect (health_of n (snd (ping_round t targets s))))
    \<and> health_ok t (snd (ping_round t targets s))"
  using assms(3)
proof (induction targets arbitrary: s)
  case Nil
  then show ?case by simp
next
  case (Cons m targets)
  let ?s = "snd (note_ping_sent m t s)"
  have h: "suspect (health_of m s) \<longrightarrow> awaiting (health_of m s) \<and> t \<le> consecutive_misses (health_of m s)"
    using Cons.prems by (simp add: health_ok_def)
  note step = health_step_latch [OF assms(1,2) h]
  have "health_ok t ?s"
    using Cons.prems step by (simp add: health_ok_def note_ping_sent_health)
  from Cons.IH [OF this] step assms(1) show ?case
    by (auto simp: case_prod_beta note_ping_sent_health latch_append)
qed

lemma link_step_latch:
  assumes "0 < t" and "t < u32_max" and "health_ok t s"
  shows "latch n (suspect (health_of n s)) (fst (link_step t e s)) = Some (suspect (health_of n (snd (link_step t e s))))
    \<and> health_ok t (snd (link_step t e s))"
proof (cases e)
  case (PingRound targets)
  with ping_round_latch [OF assms] show ?thesis by simp
next
  case (Activity m)
  with assms(3) show ?thesis
    by (auto simp: case_prod_beta note_inbound_health health_ok_def ping_health_default_def)
next
  case (Pong now m p)
  with assms(3) show ?thesis
    by (auto simp: handle_pong_def note_pong_received_def case_prod_beta Let_def note_inbound_health health_ok_def
        ping_health_default_def)
qed

lemma link_run_latch:
  assumes "0 < t" and "t < u32_max" and "health_ok t s"
  shows "latch n (suspect (health_of n s)) (fst (link_run t es s)) = Some (suspect (health_of n (snd (link_run t es s))))"
  using assms(3)
proof (induction es arbitrary: s)
  case Nil
  then show ?case by simp
next
  case (Cons e es)
  from link_step_latch [OF assms(1,2) Cons.prems] Cons.IH [of "snd (link_step t e s)"] show ?case
    by (simp add: case_prod_beta latch_append)
qed

section \<open>Digits\<close>

lemma sum_digits: "(\<Sum>i<k. n div b ^ i mod b * b ^ i) = n mod b ^ k" for n b :: nat
proof (induction k)
  case 0
  then show ?case by simp
next
  case (Suc k)
  have "n mod (b ^ k * b) = b ^ k * (n div b ^ k mod b) + n mod b ^ k" by (rule mod_mult2_eq)
  with Suc show ?case by (simp add: mult.commute)
qed

lemma u64_le_roundtrip: "n \<le> u64_max \<Longrightarrow> u64_from_le_bytes (u64_to_le_bytes n) = n"
proof -
  assume n: "n \<le> u64_max"
  have "unat (of_nat m :: u8) = m mod 256" for m by (simp add: unsigned_of_nat take_bit_eq_mod)
  then have "u64_from_le_bytes (u64_to_le_bytes n) = (\<Sum>i<8. n div 256 ^ i mod 256 * 256 ^ i)"
    unfolding u64_from_le_bytes_def u64_to_le_bytes_def
    by (simp add: interv_sum_list_conv_sum_set_nat atLeast0LessThan)
  also have "\<dots> = n mod 256 ^ 8" by (rule sum_digits)
  finally show ?thesis using n by (simp add: u64_max_def)
qed

lemma length_u64_to_le_bytes [simp]: "length (u64_to_le_bytes n) = 8"
  by (simp add: u64_to_le_bytes_def)

section \<open>Properties\<close>

text \<open>
  Suspicions and clearances of a peer alternate: over every sequence of ping rounds,
  inbound frames and pongs, a peer is reported as suspect at most once until inbound traffic
  clears it, it is cleared only after it was reported, and the latch in the statistics says
  which of the two came last.
\<close>

lemma suspicion_alternates:
  assumes "0 < timeout_count" and "timeout_count < u32_max"
  shows "latch n False (fst (link_run timeout_count es mist_stats_new))
    = Some (suspect (health_of n (snd (link_run timeout_count es mist_stats_new))))"
proof -
  have fresh: "health_of m mist_stats_new = ping_health_default" for m
    by (simp add: health_of_def mist_stats_new_def)
  then have "health_ok timeout_count mist_stats_new" by (simp add: health_ok_def ping_health_default_def)
  from link_run_latch [OF assms this, of n es] show ?thesis by (simp add: fresh ping_health_default_def)
qed

theorem suspicion_alternates_witness:
  "latch (NodeId ''a'') False (fst (link_run 2 [PingRound [NodeId ''a''], PingRound [NodeId ''a''], PingRound [NodeId ''a''],
      PingRound [NodeId ''a''], Activity (NodeId ''a'')] mist_stats_new))
   = Some (suspect (health_of (NodeId ''a'') (snd (link_run 2 [PingRound [NodeId ''a''], PingRound [NodeId ''a''],
      PingRound [NodeId ''a''], PingRound [NodeId ''a''], Activity (NodeId ''a'')] mist_stats_new))))"
  by (rule suspicion_alternates) (simp_all add: u32_max_def)

lemma link_run_append:
  "link_run t (xs @ ys) s = (fst (link_run t xs s) @ fst (link_run t ys (snd (link_run t xs s))), snd (link_run t ys (snd (link_run t xs s))))"
  by (induction xs arbitrary: s) (auto simp: case_prod_beta)

lemma silent_rounds:
  assumes "0 < t" and "t < u32_max"
  shows "fst (link_run t (replicate (Suc k) (PingRound [n])) mist_stats_new) = (if t \<le> k then [SuspectDisconnected n] else [])
    \<and> health_of n (snd (link_run t (replicate (Suc k) (PingRound [n])) mist_stats_new)) =
        \<lparr>awaiting = True, consecutive_misses = min k u32_max, suspect = (t \<le> k)\<rparr>"
proof (induction k)
  case 0
  have "health_of n mist_stats_new = ping_health_default" by (simp add: health_of_def mist_stats_new_def)
  with assms show ?case
    by (simp add: case_prod_beta note_ping_sent_health health_step_def ping_health_default_def)
next
  case (Suc k)
  have "replicate (Suc (Suc k)) (PingRound [n]) = replicate (Suc k) (PingRound [n]) @ [PingRound [n]]"
    by (simp add: replicate_append_same)
  with Suc assms show ?case
    by (auto simp: link_run_append case_prod_beta note_ping_sent_health health_step_def Let_def
        saturating_add32_def min_def simp del: replicate.simps)
qed

text \<open>
  A silent peer is reported: of \<open>k\<close> ping rounds without any inbound traffic, the round
  after \<open>timeout_count\<close> misses reports the peer as suspect, exactly once, however long the silence
  lasts; fewer rounds report nothing.
\<close>

lemma silent_peer_suspected_once:
  assumes "0 < timeout_count" and "timeout_count < u32_max"
  shows "fst (link_run timeout_count (replicate k (PingRound [n])) mist_stats_new)
    = (if timeout_count < k then [SuspectDisconnected n] else [])"
  using silent_rounds [OF assms, of "k - 1" n] by (cases k) (auto simp: less_Suc_eq_le simp del: replicate_Suc)

theorem silent_peer_suspected_once_witness:
  "fst (link_run 3 (replicate 10 (PingRound [NodeId ''a''])) mist_stats_new) = [SuspectDisconnected (NodeId ''a'')]"
  using silent_peer_suspected_once [of 3 10 "NodeId ''a''"] by (simp add: u32_max_def)

text \<open>
  The round-trip time recorded for a pong that echoes our ping payload is the time that
  elapsed since the ping was sent (zero should the clock run backwards), and the pong marks the peer
  as alive.
\<close>

lemma pong_measures_round_trip:
  assumes "sent \<le> u64_max"
  shows "hm_get (rtt_micros (snd (handle_pong now n (u64_to_le_bytes sent) s))) n = Some (now - sent)
    \<and> \<not> suspect (health_of n (snd (handle_pong now n (u64_to_le_bytes sent) s)))
    \<and> fst (handle_pong now n (u64_to_le_bytes sent) s) = (if suspect (health_of n s) then [ClearSuspect n] else [])"
  using assms
  by (simp add: handle_pong_def note_pong_received_def case_prod_beta Let_def u64_le_roundtrip note_inbound_health)
    (simp add: set_rtt_def ping_health_default_def)

lemma pong_measures_round_trip_witness:
  "hm_get (rtt_micros (snd (handle_pong 90 (NodeId ''a'') (u64_to_le_bytes 40) mist_stats_new))) (NodeId ''a'') = Some 50"
  using pong_measures_round_trip [of 40 90 "NodeId ''a''" mist_stats_new] by (simp add: u64_max_def)

end
