(* ===== verification/Send_Lanes.thy ===== *)
theory Send_Lanes
  imports Storage_Frames
begin

text \<open>
  Send admission and lane scheduling (\<open>transport/send.rs\<close>), the capability of the optional
  unordered channel (\<open>transport/reliable_unordered.rs\<close>), the track audience
  (\<open>transport/track_audience.rs\<close>) and the transfer configuration (\<open>config.rs\<close>). A byte budget is
  the state behind its mutex plus the outstanding permits, named by number; one turn of the
  waiting loop of \<open>reserve_owned\<close> is \<open>budget_acquire\<close>. The wake-up machinery (\<open>Notify\<close>, the turn
  semaphore) is not represented: \<open>try_reserve\<close> takes as an argument whether the turn is free.
\<close>

section \<open>Configuration and delivery\<close>

record storage_transfer_config =
  unsequenced_bulk :: bool
  control_priority :: bool
  bulk_queue_bytes :: nat
  bulk_target_delay_ms :: nat
  bulk_channel :: bool
  get_concurrency :: nat
  max_fetches_per_provider :: nat
  coalesce_fetches :: bool
  native_sctp_receive_buffer_bytes :: nat

definition transfer_default :: storage_transfer_config where
  "transfer_default = \<lparr>unsequenced_bulk = True, control_priority = True, bulk_queue_bytes = 1024 * 1024,
     bulk_target_delay_ms = 50, bulk_channel = True, get_concurrency = 4, max_fetches_per_provider = 0,
     coalesce_fetches = False, native_sctp_receive_buffer_bytes = 0\<rparr>"

definition pipeline_enabled :: "storage_transfer_config \<Rightarrow> bool" where
  "pipeline_enabled config \<longleftrightarrow> unsequenced_bulk config \<or> control_priority config \<or> bulk_channel config
     \<or> bulk_target_delay_ms config > 0 \<or> bulk_queue_bytes config \<noteq> bulk_queue_bytes transfer_default"

definition storage_delivery :: "delivery_method \<Rightarrow> send_lane \<Rightarrow> nat \<Rightarrow> bool \<Rightarrow> delivery_method" where
  "storage_delivery m lane seq use_bulk_channel =
     (if use_bulk_channel \<and> m = ReliableOrdered \<and> lane = Bulk \<and> seq = 0 then ReliableUnordered else m)"

definition closed_send :: mist_error where
  "closed_send = Network ''send queue or channel closed''"

datatype write_failure = Uncommitted mist_error | FailedWrite mist_error

text \<open>The two futures are represented by their results; the fallback's runs only when it is used.\<close>

definition with_reliable_fallback :: "write_failure + unit \<Rightarrow> (unit \<Rightarrow> unit result) \<Rightarrow> unit result" where
  "with_reliable_fallback primary fallback =
     (case primary of
        Inr _ \<Rightarrow> Inr ()
      | Inl (Uncommitted _) \<Rightarrow> fallback ()
      | Inl (FailedWrite err) \<Rightarrow> Inl err)"

section \<open>Byte budget\<close>

record byte_budget =
  ceiling_bytes :: nat
  limit_bytes :: nat
  used_bytes :: nat
  budget_closed :: bool
  permits :: "(nat, nat) hmap"

definition budget_new :: "nat \<Rightarrow> byte_budget" where
  "budget_new limit = \<lparr>ceiling_bytes = limit, limit_bytes = limit, used_bytes = 0, budget_closed = False, permits = []\<rparr>"

definition set_limit :: "nat \<Rightarrow> byte_budget \<Rightarrow> byte_budget" where
  "set_limit limit b = b\<lparr>limit_bytes := min limit (ceiling_bytes b)\<rparr>"

definition budget_check :: "nat \<Rightarrow> byte_budget \<Rightarrow> nat result" where
  "budget_check n b = (if n > ceiling_bytes b then Inl (MessageTooLarge n (ceiling_bytes b)) else Inr n)"

text \<open>The new permit gets the number \<open>pid\<close>; \<open>Inr None\<close> makes the caller wait for a change.\<close>

definition budget_acquire :: "nat \<Rightarrow> nat \<Rightarrow> bool \<Rightarrow> byte_budget \<Rightarrow> nat option result \<times> byte_budget" where
  "budget_acquire pid n is_received b =
     (if budget_closed b then (Inl closed_send, b)
      else if used_bytes b + n \<le> limit_bytes b \<or> (is_received \<and> used_bytes b = 0 \<and> n > limit_bytes b) then
        (Inr (Some pid), b\<lparr>used_bytes := used_bytes b + n, permits := hm_insert pid n (permits b)\<rparr>)
      else (Inr None, b))"

definition budget_reserve :: "nat \<Rightarrow> nat \<Rightarrow> byte_budget \<Rightarrow> nat option result \<times> byte_budget" where
  "budget_reserve pid n b =
     (case budget_check n b of Inl e \<Rightarrow> (Inl e, b) | Inr n \<Rightarrow> budget_acquire pid n False b)"

definition reserve_received :: "nat \<Rightarrow> nat \<Rightarrow> byte_budget \<Rightarrow> nat option result \<times> byte_budget" where
  "reserve_received pid n b = budget_acquire pid (min n (ceiling_bytes b)) True b"

definition try_reserve :: "bool \<Rightarrow> nat \<Rightarrow> nat \<Rightarrow> byte_budget \<Rightarrow> nat result \<times> byte_budget" where
  "try_reserve turn_free pid n b =
     (case budget_check n b of
        Inl e \<Rightarrow> (Inl e, b)
      | Inr n \<Rightarrow>
          if \<not> turn_free then (Inl closed_send, b)
          else case budget_acquire pid n False b of
                 (Inl e, b) \<Rightarrow> (Inl e, b)
               | (Inr None, b) \<Rightarrow> (Inl closed_send, b)
               | (Inr (Some p), b) \<Rightarrow> (Inr p, b))"

definition shrink_to :: "nat \<Rightarrow> nat \<Rightarrow> byte_budget \<Rightarrow> byte_budget" where
  "shrink_to pid n b =
     (case hm_get (permits b) pid of
        None \<Rightarrow> b
      | Some held \<Rightarrow>
          let n = min n held in
          b\<lparr>used_bytes := used_bytes b - (held - n), permits := hm_insert pid n (permits b)\<rparr>)"

definition drop_permit :: "nat \<Rightarrow> byte_budget \<Rightarrow> byte_budget" where
  "drop_permit pid b = (let b = shrink_to pid 0 b in b\<lparr>permits := hm_remove pid (permits b)\<rparr>)"

definition shrink_permit :: "nat option \<Rightarrow> nat \<Rightarrow> byte_budget \<Rightarrow> byte_budget" where
  "shrink_permit permit n b = (case permit of None \<Rightarrow> b | Some pid \<Rightarrow> shrink_to pid n b)"

definition budget_close :: "byte_budget \<Rightarrow> byte_budget" where
  "budget_close b = b\<lparr>budget_closed := True\<rparr>"

section \<open>Lane queue\<close>

record send_class =
  sc_lane :: send_lane
  sc_unsequenced_bulk :: bool

definition send_class_default :: send_class where
  "send_class_default = \<lparr>sc_lane = General, sc_unsequenced_bulk = False\<rparr>"

definition from_wire :: "(bytes \<Rightarrow> overlay_envelope option) \<Rightarrow> bytes \<Rightarrow> send_class" where
  "from_wire deser data =
     (case deser data of
        None \<Rightarrow> send_class_default
      | Some e \<Rightarrow>
          let lane = send_lane_classify (content e) (is_broadcast (env_to e)) in
          \<lparr>sc_lane = lane, sc_unsequenced_bulk = (lane = Bulk \<and> env_seq e = 0)\<rparr>)"

text \<open>A scheduled frame: what the trait \<open>ScheduledSend\<close> reports, and the frame itself.\<close>

record 'f frame =
  frame_class :: send_class
  frame_unordered :: bool
  frame_body :: 'f

record 'f lane_queue =
  frames :: "'f frame list"
  priority :: bool
  control_burst :: nat

definition lane_queue_new :: "bool \<Rightarrow> 'f lane_queue" where
  "lane_queue_new prio = \<lparr>frames = [], priority = prio, control_burst = 0\<rparr>"

definition push_back :: "'f frame \<Rightarrow> 'f lane_queue \<Rightarrow> 'f lane_queue" where
  "push_back f q = q\<lparr>frames := frames q @ [f]\<rparr>"

fun position :: "('a \<Rightarrow> bool) \<Rightarrow> 'a list \<Rightarrow> nat option" where
  "position P [] = None"
| "position P (x # xs) = (if P x then Some 0 else map_option Suc (position P xs))"

definition floating :: "bool \<Rightarrow> 'f frame \<Rightarrow> bool" where
  "floating prio f \<longleftrightarrow> frame_unordered f \<or> prio \<and> sc_unsequenced_bulk (frame_class f)"

definition remove_nth :: "nat \<Rightarrow> 'a list \<Rightarrow> 'a list" where
  "remove_nth i xs = take i xs @ drop (Suc i) xs"

definition pop_front :: "'f frame list \<Rightarrow> bool \<Rightarrow> 'f lane_queue \<Rightarrow> ('f frame \<times> bool) option \<times> 'f lane_queue" where
  "pop_front fs unordered q = (Some (hd fs, unordered), q\<lparr>frames := tl fs\<rparr>)"

definition lane_pop :: "bool \<Rightarrow> bool \<Rightarrow> 'f lane_queue \<Rightarrow> ('f frame \<times> bool) option \<times> 'f lane_queue" where
  "lane_pop ordered_ready bulk_ready q =
     (case frames q of
        [] \<Rightarrow> (None, q)
      | first_frame # _ \<Rightarrow>
          let first = frame_class first_frame;
              public_unordered = frame_unordered first_frame
          in
          if \<not> priority q \<and> \<not> public_unordered then
            (if ordered_ready then pop_front (frames q) False q else (None, q))
          else if public_unordered \<or> sc_unsequenced_bulk first then
            let barrier =
                  (if ordered_ready \<and> (control_burst q < 16 \<or> \<not> bulk_ready) then
                     case position (\<lambda>f. \<not> floating (priority q) f) (frames q) of
                       None \<Rightarrow> None
                     | Some index \<Rightarrow>
                         if \<not> priority q \<or> (public_unordered \<and> sc_lane first \<noteq> Bulk)
                            \<or> sc_lane (frame_class (frames q ! index)) \<noteq> Bulk
                         then Some index else None
                   else None)
            in
            (case barrier of
               Some index \<Rightarrow>
                 (Some (frames q ! index, False),
                  q\<lparr>control_burst := control_burst q + 1, frames := remove_nth index (frames q)\<rparr>)
             | None \<Rightarrow>
                 if bulk_ready then pop_front (frames q) True (q\<lparr>control_burst := 0\<rparr>) else (None, q))
          else if ordered_ready then
            pop_front (frames q) False
              (q\<lparr>control_burst := (if sc_lane first = Control then control_burst q + 1 else 0)\<rparr>)
          else (None, q))"

section \<open>Queue telemetry\<close>

record queue_telemetry =
  qt_bytes :: nat
  qt_channel :: nat
  qt_charges :: "(nat, nat) hmap"

definition charge :: "nat \<Rightarrow> nat \<Rightarrow> send_lane \<Rightarrow> queue_telemetry \<Rightarrow> nat option \<times> queue_telemetry" where
  "charge cid n lane t =
     (if lane \<noteq> Bulk then (None, t)
      else (Some cid, t\<lparr>qt_bytes := wrap64 (qt_bytes t + n), qt_charges := hm_insert cid n (qt_charges t)\<rparr>))"

definition submitted_on :: "bool \<Rightarrow> queue_telemetry \<Rightarrow> queue_telemetry" where
  "submitted_on unordered t = t\<lparr>qt_channel := (if unordered then 2 else 1)\<rparr>"

definition telemetry_channel :: "queue_telemetry \<Rightarrow> string option" where
  "telemetry_channel t =
     (if qt_channel t = 1 then Some ''reliable'' else if qt_channel t = 2 then Some ''reliable-unordered'' else None)"

definition drop_charge :: "nat \<Rightarrow> queue_telemetry \<Rightarrow> queue_telemetry" where
  "drop_charge cid t =
     (case hm_get (qt_charges t) cid of
        None \<Rightarrow> t
      | Some n \<Rightarrow> t\<lparr>qt_bytes := wrap64 (qt_bytes t + 2 ^ 64 - n), qt_charges := hm_remove cid (qt_charges t)\<rparr>)"

section \<open>The optional channel and the track audience\<close>

record reliable_unordered_capability =
  cap_local :: bool
  cap_remote :: bool
  initial_offerer :: bool
  attempted :: bool
  disabled :: bool

definition capability_default :: reliable_unordered_capability where
  "capability_default = \<lparr>cap_local = False, cap_remote = False, initial_offerer = False, attempted = False, disabled = False\<rparr>"

definition set_local :: "bool \<Rightarrow> reliable_unordered_capability \<Rightarrow> reliable_unordered_capability" where
  "set_local enabled c = c\<lparr>cap_local := enabled\<rparr>"

definition accept_remote :: "nat option \<Rightarrow> reliable_unordered_capability \<Rightarrow> reliable_unordered_capability" where
  "accept_remote advertised c = (if advertised = Some 1 then c\<lparr>cap_remote := True\<rparr> else c)"

definition set_initial_offerer :: "reliable_unordered_capability \<Rightarrow> reliable_unordered_capability" where
  "set_initial_offerer c = c\<lparr>initial_offerer := True\<rparr>"

definition accepts_channel :: "reliable_unordered_capability \<Rightarrow> bool" where
  "accepts_channel c \<longleftrightarrow> cap_local c \<and> cap_remote c \<and> \<not> disabled c"

text \<open>The conjunction is short-circuiting: \<open>attempted.swap(true)\<close> runs only if the rest holds.\<close>

definition begin_open :: "reliable_unordered_capability \<Rightarrow> bool \<times> reliable_unordered_capability" where
  "begin_open c =
     (if accepts_channel c \<and> initial_offerer c then (\<not> attempted c, c\<lparr>attempted := True\<rparr>) else (False, c))"

definition disable_channel :: "reliable_unordered_capability \<Rightarrow> reliable_unordered_capability" where
  "disable_channel c = c\<lparr>disabled := True\<rparr>"

datatype channel_label = ReliableLabel | UnreliableOrderedLabel | UnreliableLabel | ReliableUnorderedLabel

definition channel_label_of :: "string \<Rightarrow> channel_label option" where
  "channel_label_of label =
     (if label = ''reliable'' then Some ReliableLabel
      else if label = ''unreliable-ordered'' then Some UnreliableOrderedLabel
      else if label = ''unreliable'' then Some UnreliableLabel
      else if label = ''reliable-unordered'' then Some ReliableUnorderedLabel
      else None)"

datatype track_audience = TrackAudience "node_id set option"

definition audience_new :: "node_id list option \<Rightarrow> track_audience" where
  "audience_new nodes = TrackAudience (map_option set nodes)"

fun audience_allows :: "node_id \<Rightarrow> track_audience \<Rightarrow> bool" where
  "audience_allows n (TrackAudience None) \<longleftrightarrow> True"
| "audience_allows n (TrackAudience (Some nodes)) \<longleftrightarrow> n \<in> nodes"

section \<open>Budget accounting\<close>

definition budget_ok :: "nat \<Rightarrow> byte_budget \<Rightarrow> bool" where
  "budget_ok n b \<longleftrightarrow> hm_ok (permits b) \<and> used_bytes b = hm_sum id (permits b)
     \<and> used_bytes b \<le> n \<and> limit_bytes b \<le> n \<and> ceiling_bytes b = n"

definition fresh_permit :: "byte_budget \<Rightarrow> nat" where
  "fresh_permit b = Suc (sum_list (map fst (permits b)))"

datatype budget_event =
    SetLimit nat
  | Reserve nat
  | ReserveReceived nat
  | TryReserve bool nat
  | ShrinkPermit nat nat
  | DropPermit nat
  | CloseBudget

fun budget_step :: "byte_budget \<Rightarrow> budget_event \<Rightarrow> byte_budget" where
  "budget_step b (SetLimit n) = set_limit n b"
| "budget_step b (Reserve n) = snd (budget_reserve (fresh_permit b) n b)"
| "budget_step b (ReserveReceived n) = snd (reserve_received (fresh_permit b) n b)"
| "budget_step b (TryReserve turn n) = snd (try_reserve turn (fresh_permit b) n b)"
| "budget_step b (ShrinkPermit pid n) = shrink_to pid n b"
| "budget_step b (DropPermit pid) = drop_permit pid b"
| "budget_step b CloseBudget = budget_close b"

lemma fresh_permit_new: "hm_get (permits b) (fresh_permit b) = None"
proof -
  have le: "k \<in> set ks \<Longrightarrow> k \<le> sum_list ks" for k :: nat and ks
    by (induction ks) auto
  have "fresh_permit b \<notin> set (map fst (permits b))"
    using le [of "fresh_permit b" "map fst (permits b)"] by (auto simp: fresh_permit_def)
  then show ?thesis by (simp add: hm_get_def map_of_eq_None_iff)
qed

lemma budget_acquire_ok:
  assumes "budget_ok n b" and "m \<le> n"
  shows "budget_ok n (snd (budget_acquire (fresh_permit b) m r b))"
  using assms hm_remove_absent [OF fresh_permit_new [of b]]
  by (auto simp: budget_acquire_def budget_ok_def hm_sum_insert)

lemma shrink_to_ok:
  assumes "budget_ok n b"
  shows "budget_ok n (shrink_to pid m b)"
proof (cases "hm_get (permits b) pid")
  case None
  with assms show ?thesis by (simp add: shrink_to_def)
next
  case (Some held)
  with assms hm_sum_remove [of "permits b" pid held id] show ?thesis
    by (auto simp: shrink_to_def budget_ok_def hm_sum_insert Let_def)
qed

lemma drop_permit_ok:
  assumes "budget_ok n b"
  shows "budget_ok n (drop_permit pid b)"
proof -
  let ?b = "shrink_to pid 0 b"
  have ok: "budget_ok n ?b" using assms by (rule shrink_to_ok)
  have "hm_sum id (hm_remove pid (permits ?b)) = hm_sum id (permits ?b)"
  proof (cases "hm_get (permits b) pid")
    case None
    then show ?thesis by (simp add: shrink_to_def hm_remove_absent)
  next
    case (Some held)
    then have "hm_get (permits ?b) pid = Some 0" by (simp add: shrink_to_def Let_def)
    with ok hm_sum_remove [of "permits ?b" pid 0 id] show ?thesis by (simp add: budget_ok_def)
  qed
  with ok show ?thesis by (simp add: drop_permit_def Let_def budget_ok_def)
qed

lemma try_reserve_state:
  "snd (try_reserve turn pid m b) = (if m \<le> ceiling_bytes b \<and> turn then snd (budget_acquire pid m False b) else b)"
  by (auto simp: try_reserve_def budget_check_def split: sum.splits option.splits prod.splits)

interpretation budget_machine: step_machine budget_step "budget_ok n" "\<lambda>_. True"
proof unfold_locales
  fix b e assume ok: "budget_ok n b"
  then have "ceiling_bytes b = n" by (simp add: budget_ok_def)
  with ok show "budget_ok n (budget_step b e)"
    by (cases e) (auto simp: set_limit_def budget_close_def budget_reserve_def reserve_received_def budget_check_def
        try_reserve_state shrink_to_ok drop_permit_ok intro!: budget_acquire_ok, auto simp: budget_ok_def)
qed

section \<open>Order of a lane queue\<close>

lemma position_Some:
  "position P xs = Some i \<Longrightarrow> i < length xs \<and> P (xs ! i) \<and> (\<forall>x \<in> set (take i xs). \<not> P x)"
  by (induction xs arbitrary: i) (auto split: if_splits)

lemma filter_remove_nth_other: "i < length xs \<Longrightarrow> \<not> Q (xs ! i) \<Longrightarrow> filter Q (remove_nth i xs) = filter Q xs"
  by (subst (2) id_take_nth_drop [of i xs]) (auto simp: remove_nth_def)

lemma filter_remove_nth_first:
  assumes "i < length xs" and "Q (xs ! i)" and "\<forall>x \<in> set (take i xs). \<not> Q x"
  shows "filter Q xs = xs ! i # filter Q (remove_nth i xs)"
proof -
  have "filter Q (take i xs) = []" using assms(3) by simp
  then show ?thesis
    using assms(1,2) by (subst (1) id_take_nth_drop [of i xs]) (auto simp: remove_nth_def)
qed

text \<open>One pop takes the first of the frames that may overtake, or the first of those that may not.\<close>

lemma lane_pop_cases:
  assumes "lane_pop ordered_ready bulk_ready q = (Some (f, unordered), q')" and "frames q = g # gs"
  obtains
      (front_ordered) "\<not> floating (priority q) g" "f = g" "\<not> unordered" "frames q' = gs" "priority q' = priority q"
    | (front_bulk) "floating (priority q) g" "f = g" "unordered" "frames q' = gs" "priority q' = priority q"
    | (barrier) i where "floating (priority q) g" "position (\<lambda>f. \<not> floating (priority q) f) (frames q) = Some i" "f = frames q ! i" "\<not> unordered"
        "frames q' = remove_nth i (frames q)" "priority q' = priority q" "control_burst q' = control_burst q + 1"
        "control_burst q < 16 \<or> \<not> bulk_ready"
proof -
  let ?first = "frame_class g"
  consider (plain) "\<not> priority q \<and> \<not> frame_unordered g"
    | (ordered) "priority q" "\<not> frame_unordered g" "\<not> sc_unsequenced_bulk ?first"
    | (float) "\<not> (\<not> priority q \<and> \<not> frame_unordered g)" "frame_unordered g \<or> sc_unsequenced_bulk ?first"
    by blast
  then show thesis
  proof cases
    case plain
    with assms have "ordered_ready" by (auto simp: lane_pop_def split: if_splits)
    with plain assms show ?thesis by (intro front_ordered) (auto simp: lane_pop_def pop_front_def floating_def)
  next
    case ordered
    with assms have "ordered_ready" by (auto simp: lane_pop_def split: if_splits)
    with ordered assms show ?thesis
      by (intro front_ordered) (auto simp: lane_pop_def pop_front_def floating_def Let_def)
  next
    case float
    define bar where "bar =
        (if ordered_ready \<and> (control_burst q < 16 \<or> \<not> bulk_ready) then
           case position (\<lambda>f. \<not> floating (priority q) f) (frames q) of
             None \<Rightarrow> None
           | Some index \<Rightarrow>
               if \<not> priority q \<or> (frame_unordered g \<and> sc_lane ?first \<noteq> Bulk)
                  \<or> sc_lane (frame_class (frames q ! index)) \<noteq> Bulk
               then Some index else None
         else None)"
    have g: "floating (priority q) g" using float by (auto simp: floating_def)
    have pop: "lane_pop ordered_ready bulk_ready q =
        (case bar of
           Some index \<Rightarrow>
             (Some (frames q ! index, False),
              q\<lparr>control_burst := control_burst q + 1, frames := remove_nth index (frames q)\<rparr>)
         | None \<Rightarrow>
             if bulk_ready then pop_front (frames q) True (q\<lparr>control_burst := 0\<rparr>) else (None, q))"
      unfolding bar_def lane_pop_def assms(2) list.case Let_def using float by (simp only: if_False if_True simp_thms)
    show ?thesis
    proof (cases bar)
      case None
      with pop assms g show ?thesis by (intro front_bulk) (auto simp: pop_front_def split: if_splits)
    next
      case (Some i)
      then have "position (\<lambda>f. \<not> floating (priority q) f) (frames q) = Some i" "control_burst q < 16 \<or> \<not> bulk_ready"
        by (auto simp: bar_def split: if_splits option.splits)
      with Some pop assms(1) g show ?thesis by (intro barrier) auto
    qed
  qed
qed

lemma lane_pop_class:
  assumes "lane_pop ordered_ready bulk_ready q = (Some (f, unordered), q')"
  shows "priority q' = priority q \<and> unordered = floating (priority q) f
    \<and> filter (floating (priority q)) (frames q) = (if unordered then [f] else []) @ filter (floating (priority q)) (frames q')
    \<and> filter (\<lambda>g. \<not> floating (priority q) g) (frames q) =
        (if unordered then [] else [f]) @ filter (\<lambda>g. \<not> floating (priority q) g) (frames q')"
proof -
  obtain g gs where fr: "frames q = g # gs" using assms by (cases "frames q") (auto simp: lane_pop_def)
  from assms fr show ?thesis
  proof (cases rule: lane_pop_cases)
    case front_ordered
    then show ?thesis by (simp add: fr)
  next
    case front_bulk
    then show ?thesis by (simp add: fr)
  next
    case (barrier i)
    then show ?thesis
      using position_Some [OF barrier(2)]
        filter_remove_nth_first [of i "frames q" "\<lambda>g. \<not> floating (priority q) g"]
        filter_remove_nth_other [of i "frames q" "floating (priority q)"]
      by simp
  qed
qed

lemma lane_pop_None: "lane_pop ordered_ready bulk_ready q = (None, q') \<Longrightarrow> q' = q"
  by (auto simp: lane_pop_def pop_front_def Let_def split: if_splits option.splits list.splits)

datatype 'f lane_event = Push "'f frame" | Pop bool bool

text \<open>A run returns what left on the ordered channel, what left on the unordered one, and the queue.\<close>

fun lane_run :: "'f lane_event list \<Rightarrow> 'f lane_queue \<Rightarrow> 'f frame list \<times> 'f frame list \<times> 'f lane_queue" where
  "lane_run [] q = ([], [], q)"
| "lane_run (Push f # es) q = lane_run es (push_back f q)"
| "lane_run (Pop ordered_ready bulk_ready # es) q =
     (case lane_pop ordered_ready bulk_ready q of
        (None, q) \<Rightarrow> lane_run es q
      | (Some (f, unordered), q) \<Rightarrow>
          let (os, us, q) = lane_run es q in
          if unordered then (os, f # us, q) else (f # os, us, q))"

fun pushed :: "'f lane_event list \<Rightarrow> 'f frame list" where
  "pushed [] = []"
| "pushed (Push f # es) = f # pushed es"
| "pushed (Pop _ _ # es) = pushed es"

lemma lane_run_split:
  "priority (snd (snd (lane_run es q))) = priority q
   \<and> fst (lane_run es q) @ filter (\<lambda>f. \<not> floating (priority q) f) (frames (snd (snd (lane_run es q))))
     = filter (\<lambda>f. \<not> floating (priority q) f) (frames q @ pushed es)
   \<and> fst (snd (lane_run es q)) @ filter (floating (priority q)) (frames (snd (snd (lane_run es q))))
     = filter (floating (priority q)) (frames q @ pushed es)"
proof (induction es q rule: lane_run.induct)
  case (1 q)
  then show ?case by simp
next
  case (2 f es q)
  then show ?case by (simp add: push_back_def)
next
  case (3 ordered_ready bulk_ready es q)
  obtain r q1 where pop: "lane_pop ordered_ready bulk_ready q = (r, q1)" by fastforce
  show ?case
  proof (cases r)
    case None
    with pop lane_pop_None have "q1 = q" by blast
    with "3.IH"(1) [of r q1] pop None show ?thesis by simp
  next
    case (Some p)
    obtain f unordered where p: "p = (f, unordered)" by fastforce
    obtain os us q2 where run: "lane_run es q1 = (os, us, q2)" by (metis prod_cases3)
    note c = lane_pop_class [of ordered_ready bulk_ready q f unordered q1]
    note IH = "3.IH"(2) [of r q1 p f unordered]
    show ?thesis
    proof (cases unordered)
      case True
      with c IH pop Some p run show ?thesis by simp
    next
      case False
      with c IH pop Some p run show ?thesis by simp
    qed
  qed
qed

text \<open>Pops with the bulk writer always ready: whether each took the unordered channel.\<close>

fun bulk_pops :: "bool list \<Rightarrow> 'f lane_queue \<Rightarrow> bool option list" where
  "bulk_pops [] q = []"
| "bulk_pops (r # rs) q =
     (let (out, q) = lane_pop r True q in map_option snd out # bulk_pops rs q)"

lemma remove_nth_Suc_hd: "0 < i \<Longrightarrow> remove_nth i (x # xs) = x # remove_nth (i - 1) xs"
  by (cases i) (auto simp: remove_nth_def)

lemma lane_pop_bulk_ready:
  assumes "frames q = g # gs" and "floating (priority q) g"
  shows "\<exists>f unordered q'. lane_pop r True q = (Some (f, unordered), q')"
  using assms unfolding lane_pop_def floating_def
  by (auto simp: pop_front_def Let_def split: option.splits)

lemma bulk_pops_not_starved:
  assumes "frames q = g # gs" and "floating (priority q) g" and "16 < control_burst q + length rs"
    and "control_burst q \<le> 16"
  shows "Some True \<in> set (bulk_pops rs q)"
  using assms
proof (induction rs arbitrary: q gs)
  case Nil
  then show ?case by simp
next
  case (Cons r rs)
  obtain f unordered q' where pop: "lane_pop r True q = (Some (f, unordered), q')"
    using lane_pop_bulk_ready [OF Cons.prems(1,2)] by blast
  from pop Cons.prems(1) show ?case
  proof (cases rule: lane_pop_cases)
    case front_ordered
    with Cons.prems(2) show ?thesis by simp
  next
    case front_bulk
    with pop show ?thesis by simp
  next
    case (barrier i)
    have "0 < i"
      using position_Some [OF barrier(2)] Cons.prems(1,2) by (cases i) auto
    then have "frames q' = g # remove_nth (i - 1) gs"
      using barrier(5) Cons.prems(1) by (simp add: remove_nth_Suc_hd)
    then have "Some True \<in> set (bulk_pops rs q')"
      by (rule Cons.IH) (use Cons.prems barrier(6-8) in auto)
    with pop show ?thesis by simp
  qed
qed

lemma bulk_pop_after_burst:
  assumes "frames q = g # gs" and "floating (priority q) g" and "16 \<le> control_burst q" and "rs \<noteq> []"
  shows "Some True \<in> set (bulk_pops rs q)"
proof (cases rs)
  case Nil
  with assms show ?thesis by simp
next
  case (Cons r rs')
  obtain f unordered q' where pop: "lane_pop r True q = (Some (f, unordered), q')"
    using lane_pop_bulk_ready [OF assms(1,2)] by blast
  from pop assms(1) show ?thesis
    by (cases rule: lane_pop_cases) (use assms Cons pop in auto)
qed

section \<open>Properties\<close>

text \<open>
  Property C25. The lane scheduler keeps order per channel and loses nothing: over every sequence of
  pushes and pops, with and without priority, the frames that may not overtake leave on the ordered
  channel in exactly the order they were queued, the others on the unordered channel in theirs, and
  what has not left is still queued.
\<close>

theorem lane_queue_fifo_per_channel:
  "fst (lane_run es (lane_queue_new prio)) @
     filter (\<lambda>f. \<not> floating prio f) (frames (snd (snd (lane_run es (lane_queue_new prio)))))
   = filter (\<lambda>f. \<not> floating prio f) (pushed es)
   \<and> fst (snd (lane_run es (lane_queue_new prio))) @
     filter (floating prio) (frames (snd (snd (lane_run es (lane_queue_new prio)))))
   = filter (floating prio) (pushed es)"
  using lane_run_split [of es "lane_queue_new prio"] by (simp add: lane_queue_new_def)

text \<open>
  Property C26. Bulk traffic is not starved by control traffic: when a frame of the unordered class
  waits at the front and its writer is ready, one of any 17 consecutive pops takes it, however many
  control frames are queued.
\<close>

theorem bulk_not_starved:
  assumes "frames q = g # gs" and "floating (priority q) g" and "length rs = 17"
  shows "Some True \<in> set (bulk_pops rs q)"
proof (cases "control_burst q \<le> 16")
  case True
  with assms show ?thesis by (intro bulk_pops_not_starved) auto
next
  case False
  with assms show ?thesis by (intro bulk_pop_after_burst) auto
qed

theorem bulk_not_starved_witness:
  "Some True \<in> set (bulk_pops (replicate 17 True)
     \<lparr>frames = \<lparr>frame_class = \<lparr>sc_lane = Bulk, sc_unsequenced_bulk = True\<rparr>, frame_unordered = False, frame_body = (0 :: nat)\<rparr>
        # replicate 40 \<lparr>frame_class = \<lparr>sc_lane = Control, sc_unsequenced_bulk = False\<rparr>, frame_unordered = False, frame_body = 1\<rparr>,
      priority = True, control_burst = 0\<rparr>)"
  by (rule bulk_not_starved, simp, simp add: floating_def, simp)

text \<open>
  Property C27. Byte budgets are exact and never exceeded: over every sequence of reservations (awaited,
  tried, or for received frames), shrinks, drops, limit changes and closing, the charged bytes are the
  sum of the outstanding permits and stay within the ceiling, so the 32-bit counter neither overflows
  nor underflows.
\<close>

theorem byte_budget_exact:
  "used_bytes (foldl budget_step (budget_new n) es) = hm_sum id (permits (foldl budget_step (budget_new n) es))
   \<and> used_bytes (foldl budget_step (budget_new n) es) \<le> n"
proof -
  have "budget_ok n (foldl budget_step (budget_new n) es)"
    by (rule budget_machine.run_inv) (simp_all add: budget_ok_def budget_new_def)
  then show ?thesis by (simp add: budget_ok_def)
qed

datatype capability_event = SetLocal bool | AcceptRemote "nat option" | SetInitialOfferer | BeginOpen | DisableChannel

fun capability_step :: "capability_event \<Rightarrow> reliable_unordered_capability \<Rightarrow> bool \<times> reliable_unordered_capability" where
  "capability_step (SetLocal b) c = (False, set_local b c)"
| "capability_step (AcceptRemote a) c = (False, accept_remote a c)"
| "capability_step SetInitialOfferer c = (False, set_initial_offerer c)"
| "capability_step BeginOpen c = begin_open c"
| "capability_step DisableChannel c = (False, disable_channel c)"

text \<open>The events of a run at which the channel is opened, with the capabilities at that moment.\<close>

fun capability_opens :: "capability_event list \<Rightarrow> reliable_unordered_capability \<Rightarrow> reliable_unordered_capability list" where
  "capability_opens [] c = []"
| "capability_opens (ev # evs) c =
     (let (opened, c') = capability_step ev c in (if opened then [c] else []) @ capability_opens evs c')"

lemmas capability_defs = set_local_def accept_remote_def set_initial_offerer_def begin_open_def disable_channel_def

lemma capability_step_attempted: "attempted c \<Longrightarrow> attempted (snd (capability_step ev c)) \<and> \<not> fst (capability_step ev c)"
  by (cases ev) (auto simp: capability_defs)

lemma capability_step_opened:
  "fst (capability_step ev c) \<Longrightarrow> accepts_channel c \<and> initial_offerer c \<and> attempted (snd (capability_step ev c))"
  by (cases ev) (auto simp: capability_defs split: if_splits)

lemma no_opens_after_attempt: "attempted c \<Longrightarrow> capability_opens evs c = []"
  by (induction evs arbitrary: c) (auto simp: case_prod_beta dest: capability_step_attempted)

lemma capability_opens_bound:
  "length (capability_opens evs c) \<le> 1
   \<and> list_all (\<lambda>c. accepts_channel c \<and> initial_offerer c) (capability_opens evs c)"
  by (induction evs arbitrary: c)
    (auto simp: case_prod_beta no_opens_after_attempt dest: capability_step_opened)

text \<open>
  The optional unordered channel is opened at most once in the life of a peer connection:
  over every sequence of operations on its capability state, at most one attempt to open succeeds, and
  it does so only at the initial offerer while both sides have advertised the channel and it has not
  been disabled.
\<close>

lemma begin_open_once:
  "length (capability_opens evs capability_default) \<le> 1
   \<and> list_all (\<lambda>c. accepts_channel c \<and> initial_offerer c) (capability_opens evs capability_default)"
  by (rule capability_opens_bound)

end
