(* ===== verification/Overlay_Router.thy ===== *)
theory Overlay_Router
  imports Reorder Ttl_Cache Link_Stats Send_Lanes
begin

text \<open>
  The overlay router: routing table (\<open>overlay/routing_table.rs\<close>), sequence counters and inbound
  reordering (\<open>overlay/router.rs\<close>), envelope handling and forwarding (\<open>overlay/router/envelope.rs\<close>),
  sending (\<open>overlay/router/send.rs\<close>), strategies (\<open>overlay/router/strategies.rs\<close>) and the transport
  facade (\<open>overlay/transport.rs\<close>). The wire encoding (the bincode crate, \<open>overlay/wire.rs\<close>) is the
  pair \<open>ser\<close>/\<open>deser\<close>, random message identifiers and the clock are arguments, topology strategies
  are the functions they answer with, and a transport's admission is the function \<open>commit\<close>.
  \<open>ser\<close> answers \<open>None\<close> where bincode reports an error, whose text is not represented.
\<close>

section \<open>Routing table\<close>

record routing_table =
  connected_nodes :: "node_id list"
  routes :: "(node_id, node_id) hmap"

definition routing_table_new :: routing_table where
  "routing_table_new = \<lparr>connected_nodes = [], routes = []\<rparr>"

definition on_connected :: "node_id \<Rightarrow> routing_table \<Rightarrow> routing_table" where
  "on_connected n rt = rt\<lparr>connected_nodes := hs_insert n (connected_nodes rt)\<rparr>"

definition on_disconnected :: "node_id \<Rightarrow> routing_table \<Rightarrow> routing_table" where
  "on_disconnected n rt = rt\<lparr>connected_nodes := hs_remove n (connected_nodes rt),
     routes := hm_retain (\<lambda>target next_hop. target \<noteq> n \<and> next_hop \<noteq> n) (routes rt)\<rparr>"

definition add_route :: "node_id \<Rightarrow> node_id \<Rightarrow> routing_table \<Rightarrow> routing_table" where
  "add_route target next_hop rt =
     (if target = next_hop \<or> target \<in> set (connected_nodes rt) then rt
      else rt\<lparr>routes := hm_insert target next_hop (routes rt)\<rparr>)"

definition remove_route :: "node_id \<Rightarrow> routing_table \<Rightarrow> routing_table" where
  "remove_route target rt = rt\<lparr>routes := hm_remove target (routes rt)\<rparr>"

definition get_next_hop :: "node_id \<Rightarrow> routing_table \<Rightarrow> node_id option" where
  "get_next_hop n rt =
     (if n \<in> set (connected_nodes rt) then Some n
      else case hm_get (routes rt) n of
             None \<Rightarrow> None
           | Some next_hop \<Rightarrow> if next_hop \<in> set (connected_nodes rt) then Some next_hop else None)"

section \<open>Router state\<close>

definition SEQ_COUNTER_MAX_DESTINATIONS :: nat where "SEQ_COUNTER_MAX_DESTINATIONS = 1024"

record seq_counter =
  counter_value :: nat
  last_used :: instant

type_synonym strategy = "node_id \<Rightarrow> nat \<Rightarrow> bytes \<Rightarrow> overlay_action list"

record overlay_router =
  routing :: routing_table
  local_node :: node_id
  router_hops :: nat
  transfer :: storage_transfer_config
  seen_envelopes :: overlay_seen_cache
  seq_counters :: "(node_id, seq_counter) hmap"
  inbound :: "message_content reorder_buffer"

definition router_new :: "nat \<Rightarrow> storage_transfer_config \<Rightarrow> node_id \<Rightarrow> overlay_router" where
  "router_new hops config local =
     \<lparr>routing = routing_table_new, local_node = local, router_hops = hops, transfer = config,
      seen_envelopes = overlay_seen_new OVERLAY_SEEN_TTL OVERLAY_SEEN_MAX_ENTRIES,
      seq_counters = [], inbound = reorder_default\<rparr>"

definition next_seq :: "node_id \<Rightarrow> (node_id, seq_counter) hmap \<Rightarrow> nat" where
  "next_seq to counters = (case hm_get counters to of None \<Rightarrow> 1 | Some c \<Rightarrow> wrap64 (counter_value c + 1))"

definition with_next_seq ::
  "instant \<Rightarrow> node_id \<Rightarrow> (nat \<Rightarrow> 'a result) \<Rightarrow> (node_id, seq_counter) hmap \<Rightarrow> 'a result \<times> (node_id, seq_counter) hmap" where
  "with_next_seq now to build counters =
     (let seq = next_seq to counters in
      case build seq of
        Inl e \<Rightarrow> (Inl e, counters)
      | Inr r \<Rightarrow>
          let counters =
                (if length counters \<ge> SEQ_COUNTER_MAX_DESTINATIONS \<and> \<not> hm_contains counters to then
                   case min_by_key (last_used \<circ> snd) counters of
                     None \<Rightarrow> counters
                   | Some oldest \<Rightarrow> hm_remove (fst oldest) counters
                 else counters)
          in (Inr r, hm_insert to \<lparr>counter_value = seq, last_used = now\<rparr> counters))"

definition reorder_inbound ::
  "instant \<Rightarrow> node_id \<Rightarrow> nat \<Rightarrow> message_content \<Rightarrow> overlay_router \<Rightarrow> message_content list \<times> overlay_router" where
  "reorder_inbound now from seq c r =
     (let (out, buf) = accept_at from seq c now (inbound r) in (out, r\<lparr>inbound := buf\<rparr>))"

definition flush_expired_inbound ::
  "instant \<Rightarrow> overlay_router \<Rightarrow> (node_id \<times> message_content list) list \<times> overlay_router" where
  "flush_expired_inbound now r =
     (let (out, buf) = flush_expired now (inbound r) in (out, r\<lparr>inbound := buf\<rparr>))"

text \<open>\<open>connected\<close> is the iteration order of the snapshot's set.\<close>

definition sync_connected_nodes :: "node_id list \<Rightarrow> overlay_router \<Rightarrow> overlay_router" where
  "sync_connected_nodes connected r =
     (let rt = routing r;
          previous = connected_nodes rt;
          rt = fold on_connected connected rt;
          rt = fold (\<lambda>n rt. if n \<notin> set connected then on_disconnected n rt else rt) previous rt
      in r\<lparr>routing := rt\<rparr>)"

definition sync_connection_states :: "(node_id \<times> connection_state) list \<Rightarrow> overlay_router \<Rightarrow> node_id list \<times> overlay_router" where
  "sync_connection_states states r =
     (let connected = fold hs_insert (map fst (filter (\<lambda>(_, state). state = Connected) states)) [] in
      (connected, sync_connected_nodes connected r))"

section \<open>Envelopes\<close>

datatype forward_targets = BroadcastTo "node_id list" | UnicastTo node_id | NoTargets

fun has_targets :: "forward_targets \<Rightarrow> bool" where
  "has_targets NoTargets = False"
| "has_targets _ = True"

definition mark_seen :: "instant \<Rightarrow> overlay_envelope \<Rightarrow> overlay_router \<Rightarrow> bool \<times> overlay_router" where
  "mark_seen now e r =
     (if env_from e = local_node r then (False, r)
      else let (new, c) = overlay_check_and_insert now (env_from e) (msg_id e) (seen_envelopes r) in
           (new, r\<lparr>seen_envelopes := c\<rparr>))"

definition remember_outgoing :: "instant \<Rightarrow> overlay_envelope \<Rightarrow> overlay_router \<Rightarrow> overlay_router" where
  "remember_outgoing now e r =
     r\<lparr>seen_envelopes := snd (overlay_check_and_insert now (env_from e) (msg_id e) (seen_envelopes r))\<rparr>"

definition should_learn_route :: "node_id \<Rightarrow> node_id \<Rightarrow> overlay_router \<Rightarrow> bool" where
  "should_learn_route source from r \<longleftrightarrow> source \<noteq> local_node r \<and> source \<noteq> from"

definition learn_route :: "node_id \<Rightarrow> node_id \<Rightarrow> overlay_router \<Rightarrow> overlay_router" where
  "learn_route source from r =
     (if \<not> should_learn_route source from r then r else r\<lparr>routing := add_route source from (routing r)\<rparr>)"

definition can_forward :: "overlay_envelope \<Rightarrow> bool" where
  "can_forward e \<longleftrightarrow> hop_count e > 0"

definition should_deliver_to_strategies :: "overlay_envelope \<Rightarrow> bool \<Rightarrow> overlay_router \<Rightarrow> bool" where
  "should_deliver_to_strategies e is_bcast r \<longleftrightarrow> is_bcast \<or> env_to e = local_node r"

definition is_local_destination :: "overlay_envelope \<Rightarrow> overlay_router \<Rightarrow> bool" where
  "is_local_destination e r \<longleftrightarrow> env_to e = local_node r"

definition forward_targets_of :: "overlay_envelope \<Rightarrow> node_id \<Rightarrow> bool \<Rightarrow> overlay_router \<Rightarrow> forward_targets" where
  "forward_targets_of e from is_bcast r =
     (if is_bcast then BroadcastTo (filter (\<lambda>n. n \<noteq> from \<and> n \<noteq> local_node r) (connected_nodes (routing r)))
      else if is_local_destination e r then NoTargets
      else UnicastTo (case get_next_hop (env_to e) (routing r) of None \<Rightarrow> env_to e | Some h \<Rightarrow> h))"

definition handle_overlay_message :: "strategy list \<Rightarrow> node_id \<Rightarrow> nat \<Rightarrow> bytes \<Rightarrow> overlay_action list" where
  "handle_overlay_message strategies from mtype p = concat (map (\<lambda>s. s from mtype p) strategies)"

definition deliver_to_strategies :: "strategy list \<Rightarrow> overlay_envelope \<Rightarrow> bool \<Rightarrow> overlay_router \<Rightarrow> overlay_action list" where
  "deliver_to_strategies strategies e is_bcast r =
     (if \<not> should_deliver_to_strategies e is_bcast r then []
      else case content e of
             Overlay m \<Rightarrow> handle_overlay_message strategies (env_from e) (message_type m) (payload m)
           | _ \<Rightarrow> [])"

definition forward_actions ::
  "(overlay_envelope \<Rightarrow> bytes option) \<Rightarrow> overlay_envelope \<Rightarrow> forward_targets \<Rightarrow> overlay_router \<Rightarrow> overlay_action list" where
  "forward_actions ser e targets r =
     (if \<not> has_targets targets then []
      else
        let lane = send_lane_classify (content e) (is_broadcast (env_to e));
            m = storage_delivery ReliableOrdered lane (env_seq e) (bulk_channel (transfer r));
            e = e\<lparr>hop_count := hop_count e - 1\<rparr>
        in case ser e of
             None \<Rightarrow> []
           | Some data \<Rightarrow>
               (case targets of
                  BroadcastTo neighbors \<Rightarrow> map (\<lambda>to. SendMessage to data m lane) neighbors
                | UnicastTo next_hop \<Rightarrow> [SendMessage next_hop data m lane]
                | NoTargets \<Rightarrow> []))"

record handle_envelope_result =
  actions :: "overlay_action list"
  should_deliver :: bool

definition handle_envelope ::
  "(overlay_envelope \<Rightarrow> bytes option) \<Rightarrow> strategy list \<Rightarrow> instant \<Rightarrow> overlay_envelope \<Rightarrow> node_id
   \<Rightarrow> overlay_router \<times> mist_stats \<Rightarrow> handle_envelope_result \<times> overlay_router \<times> mist_stats" where
  "handle_envelope ser strategies now e from = (\<lambda>(r, stats).
     let (cleared, stats) = note_inbound_activity from stats;
         acts = (if cleared then [ClearSuspect from] else []);
         (new, r) = mark_seen now e r
     in if \<not> new then (\<lparr>actions = acts, should_deliver = False\<rparr>, r, stats)
        else
          let is_bcast = is_broadcast (env_to e);
              acts = acts @ deliver_to_strategies strategies e is_bcast r;
              acts = acts @ (if can_forward e then forward_actions ser e (forward_targets_of e from is_bcast r) r else [])
          in (\<lparr>actions = acts, should_deliver = True\<rparr>, r, stats))"

section \<open>Sending\<close>

definition create_send_action :: "node_id \<Rightarrow> bytes \<Rightarrow> delivery_method \<Rightarrow> send_lane \<Rightarrow> overlay_router \<Rightarrow> overlay_action" where
  "create_send_action n data m lane r =
     SendMessage (case get_next_hop n (routing r) of None \<Rightarrow> n | Some h \<Rightarrow> h) data m lane"

text \<open>The closure \<open>build\<close> of \<open>dispatch_data_via\<close>; it also returns the envelope to remember.\<close>

definition build_frame ::
  "(overlay_envelope \<Rightarrow> bytes option) \<Rightarrow> nat \<Rightarrow> node_id \<Rightarrow> node_id option \<Rightarrow> bytes \<Rightarrow> delivery_method \<Rightarrow> send_lane
   \<Rightarrow> (nat \<Rightarrow> unit result) \<Rightarrow> (overlay_action \<Rightarrow> 'a result) \<Rightarrow> overlay_router \<Rightarrow> nat \<Rightarrow> ('a \<times> overlay_envelope) result" where
  "build_frame ser rid to next_hop data m lane validate commit r seq =
     (let m = storage_delivery m lane seq (bulk_channel (transfer r));
          e = with_seq seq (envelope_new rid (local_node r) to (router_hops r) (Raw data))
      in case ser e of
           None \<Rightarrow> Inl (Internal ''serialization'')
         | Some encoded \<Rightarrow>
             (case validate (length encoded) of
                Inl err \<Rightarrow> Inl err
              | Inr _ \<Rightarrow>
                  let act = (case next_hop of
                               Some h \<Rightarrow> SendMessage h encoded m lane
                             | None \<Rightarrow> create_send_action to encoded m lane r)
                  in case commit act of Inl err \<Rightarrow> Inl err | Inr x \<Rightarrow> Inr (x, e)))"

definition is_sequenced :: "node_id \<Rightarrow> delivery_method \<Rightarrow> send_lane \<Rightarrow> overlay_router \<Rightarrow> bool" where
  "is_sequenced to m lane r \<longleftrightarrow>
     m = ReliableOrdered \<and> \<not> is_broadcast to \<and> \<not> (unsequenced_bulk (transfer r) \<and> lane = Bulk)"

definition dispatch_data_via ::
  "(overlay_envelope \<Rightarrow> bytes option) \<Rightarrow> nat \<Rightarrow> instant \<Rightarrow> node_id \<Rightarrow> node_id option \<Rightarrow> bytes \<Rightarrow> delivery_method
   \<Rightarrow> (nat \<Rightarrow> unit result) \<Rightarrow> (overlay_action \<Rightarrow> 'a result) \<Rightarrow> overlay_router \<Rightarrow> 'a result \<times> overlay_router" where
  "dispatch_data_via ser rid now to next_hop data m validate commit r =
     (let lane = send_lane_classify (Raw data) (is_broadcast to);
          build = build_frame ser rid to next_hop data m lane validate commit r;
          (res, counters) = (if is_sequenced to m lane r then with_next_seq now to build (seq_counters r)
                             else (build 0, seq_counters r))
      in case res of
           Inl err \<Rightarrow> (Inl err, r\<lparr>seq_counters := counters\<rparr>)
         | Inr (x, e) \<Rightarrow> (Inr x, remember_outgoing now e (r\<lparr>seq_counters := counters\<rparr>)))"

definition dispatch_data ::
  "(overlay_envelope \<Rightarrow> bytes option) \<Rightarrow> nat \<Rightarrow> instant \<Rightarrow> node_id \<Rightarrow> bytes \<Rightarrow> delivery_method
   \<Rightarrow> (nat \<Rightarrow> unit result) \<Rightarrow> (overlay_action \<Rightarrow> 'a result) \<Rightarrow> overlay_router \<Rightarrow> 'a result \<times> overlay_router" where
  "dispatch_data ser rid now to data m validate commit r = dispatch_data_via ser rid now to None data m validate commit r"

definition wrap_data_checked ::
  "(overlay_envelope \<Rightarrow> bytes option) \<Rightarrow> nat \<Rightarrow> instant \<Rightarrow> node_id \<Rightarrow> bytes \<Rightarrow> delivery_method
   \<Rightarrow> (nat \<Rightarrow> unit result) \<Rightarrow> overlay_router \<Rightarrow> overlay_action result \<times> overlay_router" where
  "wrap_data_checked ser rid now to data m validate r = dispatch_data ser rid now to data m validate Inr r"

text \<open>\<open>wrap_data\<close> panics on an error; \<open>None\<close> is the panic.\<close>

definition wrap_data ::
  "(overlay_envelope \<Rightarrow> bytes option) \<Rightarrow> nat \<Rightarrow> instant \<Rightarrow> node_id \<Rightarrow> bytes \<Rightarrow> delivery_method
   \<Rightarrow> overlay_router \<Rightarrow> overlay_action option \<times> overlay_router" where
  "wrap_data ser rid now to data m r =
     (case wrap_data_checked ser rid now to data m (\<lambda>_. Inr ()) r of
        (Inl _, r) \<Rightarrow> (None, r)
      | (Inr act, r) \<Rightarrow> (Some act, r))"

section \<open>The transport facade\<close>

definition transport_send ::
  "(overlay_envelope \<Rightarrow> bytes option) \<Rightarrow> nat \<Rightarrow> instant \<Rightarrow> (overlay_action \<Rightarrow> unit result) \<Rightarrow> node_id \<Rightarrow> bytes
   \<Rightarrow> delivery_method \<Rightarrow> overlay_router \<Rightarrow> unit result \<times> overlay_router" where
  "transport_send ser rid now try_dispatch_send to data m r =
     dispatch_data ser rid now to data m (\<lambda>_. Inr ()) try_dispatch_send r"

definition transport_broadcast ::
  "(overlay_envelope \<Rightarrow> bytes option) \<Rightarrow> nat \<Rightarrow> instant \<Rightarrow> (overlay_action \<Rightarrow> unit result) \<Rightarrow> bytes
   \<Rightarrow> delivery_method \<Rightarrow> overlay_router \<Rightarrow> unit result \<times> overlay_router" where
  "transport_broadcast ser rid now try_dispatch_send data m r =
     transport_send ser rid now try_dispatch_send broadcast data m r"

text \<open>
  \<open>send_wait\<close>: \<open>reserve next_hop bound lane\<close> is the awaited reservation, which yields the commit
  function whose result is the receipt's outcome.
\<close>

definition send_wait ::
  "(overlay_envelope \<Rightarrow> bytes option) \<Rightarrow> nat \<Rightarrow> nat \<Rightarrow> instant
   \<Rightarrow> (node_id \<Rightarrow> nat \<Rightarrow> send_lane \<Rightarrow> (overlay_action \<Rightarrow> unit result result) result)
   \<Rightarrow> node_id \<Rightarrow> bytes \<Rightarrow> delivery_method \<Rightarrow> overlay_router \<Rightarrow> unit result \<times> overlay_router" where
  "send_wait ser rid rid' now reserve to data m r =
     (case get_next_hop to (routing r) of
        None \<Rightarrow> (Inl (RouteNotFound to), r)
      | Some next_hop \<Rightarrow>
          let lane = send_lane_classify (Raw data) (is_broadcast to);
              preview = with_seq u64_max (envelope_new rid (local_node r) to (router_hops r) (Raw data));
              preview = preview\<lparr>msg_id := u64_max\<rparr>;
              preview = (if lane = Bulk \<and> unsequenced_bulk (transfer r) then preview\<lparr>env_seq := 0\<rparr> else preview)
          in case ser preview of
               None \<Rightarrow> (Inl (Serialization ''serialization''), r)
             | Some encoded \<Rightarrow>
                 (case reserve next_hop (length encoded) lane of
                    Inl err \<Rightarrow> (Inl err, r)
                  | Inr reservation \<Rightarrow>
                      (case dispatch_data_via ser rid' now to (Some next_hop) data m (\<lambda>_. Inr ()) reservation r of
                         (Inl err, r) \<Rightarrow> (Inl err, r)
                       | (Inr receipt, r) \<Rightarrow> (receipt, r))))"

definition send_response ::
  "(overlay_envelope \<Rightarrow> bytes option) \<Rightarrow> nat \<Rightarrow> nat \<Rightarrow> instant
   \<Rightarrow> (node_id \<Rightarrow> nat \<Rightarrow> send_lane \<Rightarrow> (overlay_action \<Rightarrow> unit result result) result) \<Rightarrow> (overlay_action \<Rightarrow> unit result)
   \<Rightarrow> node_id \<Rightarrow> bytes \<Rightarrow> delivery_method \<Rightarrow> overlay_router \<Rightarrow> unit result \<times> overlay_router" where
  "send_response ser rid rid' now reserve try_dispatch_send to data m r =
     (if pipeline_enabled (transfer r) then send_wait ser rid rid' now reserve to data m r
      else transport_send ser rid' now try_dispatch_send to data m r)"

definition is_reachable :: "node_id \<Rightarrow> overlay_router \<Rightarrow> bool" where
  "is_reachable n r \<longleftrightarrow> get_next_hop n (routing r) \<noteq> None"

definition has_signaling_route :: "node_id \<Rightarrow> overlay_router \<Rightarrow> bool" where
  "has_signaling_route to r \<longleftrightarrow>
     (if is_server to \<or> is_broadcast to then False else get_next_hop to (routing r) \<noteq> None)"

definition send_signaling ::
  "(overlay_envelope \<Rightarrow> bytes option) \<Rightarrow> nat \<Rightarrow> instant \<Rightarrow> node_id \<Rightarrow> message_content \<Rightarrow> overlay_router
   \<Rightarrow> overlay_action result \<times> overlay_router" where
  "send_signaling ser rid now to msg r =
     (let e = envelope_new rid (local_node r) to (router_hops r) msg;
          r = remember_outgoing now e r
      in case ser e of
           None \<Rightarrow> (Inl (Internal ''serialization''), r)
         | Some data \<Rightarrow>
             (case get_next_hop to (routing r) of
                None \<Rightarrow> (Inl (RouteNotFound to), r)
              | Some next_hop \<Rightarrow> (Inr (SendMessage next_hop data ReliableOrdered Control), r)))"

section \<open>Routes\<close>

lemma get_next_hop_connected: "get_next_hop n rt = Some h \<Longrightarrow> h \<in> set (connected_nodes rt)"
  by (auto simp: get_next_hop_def split: if_splits option.splits)

lemma fold_on_connected:
  "set (connected_nodes (fold on_connected ns rt)) = set ns \<union> set (connected_nodes rt)
   \<and> routes (fold on_connected ns rt) = routes rt"
  by (induction ns arbitrary: rt) (auto simp: on_connected_def)

lemma fold_disconnect:
  "set (connected_nodes (fold (\<lambda>n rt. if n \<notin> C then on_disconnected n rt else rt) ns rt)) =
     set (connected_nodes rt) - (set ns - C)
   \<and> (hm_ok (routes rt) \<longrightarrow> hm_ok (routes (fold (\<lambda>n rt. if n \<notin> C then on_disconnected n rt else rt) ns rt)))
   \<and> set (routes (fold (\<lambda>n rt. if n \<notin> C then on_disconnected n rt else rt) ns rt)) =
     {p \<in> set (routes rt). fst p \<notin> set ns - C \<and> snd p \<notin> set ns - C}"
  by (induction ns arbitrary: rt) (auto simp: on_disconnected_def hm_set_retain)

lemma sync_connected_set: "set (connected_nodes (routing (sync_connected_nodes c r))) = set c"
  using fold_on_connected [of c "routing r"] fold_disconnect [of "set c" "connected_nodes (routing r)"]
  by (auto simp: sync_connected_nodes_def Let_def)

section \<open>Sequence numbers\<close>

definition counter_of :: "node_id \<Rightarrow> (node_id, seq_counter) hmap \<Rightarrow> nat" where
  "counter_of to counters = (case hm_get counters to of None \<Rightarrow> 0 | Some c \<Rightarrow> counter_value c)"

text \<open>A run of send attempts: time, destination and whether the frame is built and committed.\<close>

fun seq_run ::
  "(instant \<times> node_id \<times> bool) list \<Rightarrow> (node_id, seq_counter) hmap \<Rightarrow> (node_id \<times> nat) list \<times> (node_id, seq_counter) hmap" where
  "seq_run [] counters = ([], counters)"
| "seq_run ((now, to, committed) # attempts) counters =
     (let (res, counters) = with_next_seq now to (\<lambda>seq. if committed then Inr seq else Inl closed_send) counters;
          (out, counters) = seq_run attempts counters
      in ((case res of Inl _ \<Rightarrow> [] | Inr seq \<Rightarrow> [(to, seq)]) @ out, counters))"

definition commits :: "node_id \<Rightarrow> (instant \<times> node_id \<times> bool) list \<Rightarrow> nat" where
  "commits to attempts = length (filter (\<lambda>(_, n, committed). n = to \<and> committed) attempts)"

lemma no_eviction:
  assumes "hm_ok counters" and "set (map fst counters) \<subseteq> D" and "finite D" and "card D \<le> SEQ_COUNTER_MAX_DESTINATIONS"
    and "to \<in> D" and "\<not> hm_contains counters to"
  shows "length counters < SEQ_COUNTER_MAX_DESTINATIONS"
proof -
  have "length counters = card (set (map fst counters))"
    using assms(1) distinct_card [of "map fst counters"] by (simp add: hm_ok_def)
  also have "\<dots> \<le> card (D - {to})"
    using assms(2,3,6) by (intro card_mono) (auto simp: hm_contains_def)
  also have "\<dots> < card D" using assms(3,5) by (intro psubset_card_mono) auto
  finally show ?thesis using assms(4) by simp
qed

lemma with_next_seq_success:
  assumes "hm_ok counters" and "set (map fst counters) \<subseteq> D" and "finite D" and "card D \<le> SEQ_COUNTER_MAX_DESTINATIONS"
    and "to \<in> D" and "counter_of to counters < u64_max" and "build (counter_of to counters + 1) = Inr x"
  shows "with_next_seq now to build counters =
    (Inr x, hm_insert to \<lparr>counter_value = counter_of to counters + 1, last_used = now\<rparr> counters)"
proof -
  have "next_seq to counters = counter_of to counters + 1"
    using assms(6) by (auto simp: next_seq_def counter_of_def wrap64_def u64_max_def split: option.splits)
  with assms no_eviction [OF assms(1-5)] show ?thesis
    by (auto simp: with_next_seq_def Let_def)
qed

lemma hm_keys_insert: "set (map fst (hm_insert k v m)) = insert k (set (map fst m))"
  by (simp add: hm_insert_def dom_update)

lemma seq_run_contiguous:
  assumes "hm_ok counters" and "set (map fst counters) \<subseteq> D" and "finite D" and "card D \<le> SEQ_COUNTER_MAX_DESTINATIONS"
    and "(\<lambda>(_, to, _). to) ` set attempts \<subseteq> D"
    and "\<forall>to. counter_of to counters + commits to attempts \<le> u64_max"
  shows "map snd (filter (\<lambda>p. fst p = to) (fst (seq_run attempts counters))) =
    [Suc (counter_of to counters)..<Suc (counter_of to counters + commits to attempts)]"
  using assms(1,2,5,6)
proof (induction attempts arbitrary: counters)
  case Nil
  then show ?case by (simp add: commits_def)
next
  case (Cons a attempts)
  obtain now n committed where a: "a = (now, n, committed)" by (cases a) auto
  have n: "n \<in> D" using Cons.prems(3) by (auto simp: a)
  show ?case
  proof (cases committed)
    case False
    have "\<forall>to. counter_of to counters + commits to attempts \<le> u64_max"
      using Cons.prems(4) False by (simp add: a commits_def)
    with Cons.IH [OF Cons.prems(1,2)] Cons.prems(3) False show ?thesis
      by (simp add: a with_next_seq_def Let_def case_prod_beta commits_def)
  next
    case True
    let ?v = "counter_of n counters + 1"
    let ?counters = "hm_insert n \<lparr>counter_value = ?v, last_used = now\<rparr> counters"
    have bound: "?v + commits n attempts \<le> u64_max"
      using Cons.prems(4) [rule_format, of n] True by (simp add: a commits_def)
    have step: "with_next_seq now n (\<lambda>seq. if committed then Inr seq else Inl closed_send) counters = (Inr ?v, ?counters)"
      using True bound with_next_seq_success [OF Cons.prems(1,2) assms(3,4) n, of "\<lambda>seq. if committed then Inr seq else Inl closed_send"]
      by simp
    have cnt: "counter_of m ?counters = (if m = n then ?v else counter_of m counters)" for m
      by (simp add: counter_of_def)
    have "counter_of m ?counters + commits m attempts \<le> u64_max" for m
      using Cons.prems(4) [rule_format, of m] bound
      by (cases "m = n") (simp_all only: cnt if_True if_False, simp_all add: a commits_def)
    then have IH: "map snd (filter (\<lambda>p. fst p = to) (fst (seq_run attempts ?counters))) =
        [Suc (counter_of to ?counters)..<Suc (counter_of to ?counters + commits to attempts)]"
    proof (intro Cons.IH)
      show "set (map fst ?counters) \<subseteq> D" unfolding hm_keys_insert using Cons.prems(2) n by blast
    qed (use Cons.prems in auto)
    have c: "commits to (a # attempts) = (if n = to then Suc (commits to attempts) else commits to attempts)"
      using True by (simp add: a commits_def)
    have run: "fst (seq_run (a # attempts) counters) = (n, ?v) # fst (seq_run attempts ?counters)"
      by (simp only: a seq_run.simps step Let_def case_prod_beta fst_conv snd_conv sum.case append.simps)
    show ?thesis
    proof (cases "n = to")
      case True
      then have "map snd (filter (\<lambda>p. fst p = to) (fst (seq_run (a # attempts) counters))) =
          ?v # [Suc ?v..<Suc (?v + commits to attempts)]"
        using IH cnt [of to] unfolding run by (simp del: upt_Suc)
      also have "\<dots> = [?v..<Suc (?v + commits to attempts)]" by (simp add: upt_rec)
      finally show ?thesis using True c by (simp del: upt_Suc)
    next
      case False
      with IH cnt [of to] c show ?thesis unfolding run by (simp del: upt_Suc)
    qed
  qed
qed

section \<open>Handling an envelope\<close>

definition next_hops_ok :: "overlay_envelope \<Rightarrow> node_id \<Rightarrow> overlay_router \<Rightarrow> node_id \<Rightarrow> bool" where
  "next_hops_ok e from r to \<longleftrightarrow>
     (if is_broadcast (env_to e) then to \<in> set (connected_nodes (routing r)) - {from, local_node r}
      else env_to e \<noteq> local_node r \<and> (to \<in> set (connected_nodes (routing r)) \<or> to = env_to e))"

lemma forward_actions_spec:
  assumes "act \<in> set (forward_actions ser e (forward_targets_of e from (is_broadcast (env_to e)) r) r)"
  shows "\<exists>to data m lane. act = SendMessage to data m lane \<and> ser (e\<lparr>hop_count := hop_count e - 1\<rparr>) = Some data
    \<and> next_hops_ok e from r to"
  using assms
  by (auto simp: forward_actions_def forward_targets_of_def next_hops_ok_def is_local_destination_def Let_def
      dest: get_next_hop_connected split: option.splits forward_targets.splits if_splits)

lemma mark_seen_fields [simp]:
  "routing (snd (mark_seen now e r)) = routing r" "local_node (snd (mark_seen now e r)) = local_node r"
  "transfer (snd (mark_seen now e r)) = transfer r"
  by (simp_all add: mark_seen_def case_prod_beta)

lemma forward_targets_seen [simp]: "forward_targets_of e from b (snd (mark_seen now e r)) = forward_targets_of e from b r"
  by (simp add: forward_targets_of_def is_local_destination_def)

lemma forward_actions_seen [simp]: "forward_actions ser e ts (snd (mark_seen now e r)) = forward_actions ser e ts r"
  by (simp add: forward_actions_def)

lemma deliver_seen [simp]: "deliver_to_strategies st e b (snd (mark_seen now e r)) = deliver_to_strategies st e b r"
  by (simp add: deliver_to_strategies_def should_deliver_to_strategies_def)

lemma handle_envelope_state:
  "fst (snd (handle_envelope ser strategies now e from (r, stats))) = snd (mark_seen now e r)"
  "should_deliver (fst (handle_envelope ser strategies now e from (r, stats))) = fst (mark_seen now e r)"
  by (simp_all add: handle_envelope_def case_prod_beta Let_def)

lemma handle_envelope_actions:
  "actions (fst (handle_envelope ser strategies now e from (r, stats))) =
     (if suspect (health_of from stats) then [ClearSuspect from] else []) @
     (if fst (mark_seen now e r) then
        deliver_to_strategies strategies e (is_broadcast (env_to e)) r @
        (if can_forward e then forward_actions ser e (forward_targets_of e from (is_broadcast (env_to e)) r) r else [])
      else [])"
  by (simp add: handle_envelope_def case_prod_beta Let_def note_inbound_health)

text \<open>Handling a sequence of envelopes only records them in the duplicate filter.\<close>

fun handle_run ::
  "(overlay_envelope \<Rightarrow> bytes option) \<Rightarrow> strategy list \<Rightarrow> (instant \<times> overlay_envelope \<times> node_id) list
   \<Rightarrow> overlay_router \<times> mist_stats \<Rightarrow> overlay_router \<times> mist_stats" where
  "handle_run ser strategies [] s = s"
| "handle_run ser strategies ((now, e, from) # es) s =
     handle_run ser strategies es (snd (handle_envelope ser strategies now e from s))"

definition seen_of :: "node_id \<Rightarrow> (instant \<times> overlay_envelope \<times> node_id) list \<Rightarrow> (instant \<times> node_id \<times> nat) list" where
  "seen_of local es = map (\<lambda>(now, e, _). (now, env_from e, msg_id e)) (filter (\<lambda>(_, e, _). env_from e \<noteq> local) es)"

lemma mark_seen_cache:
  "seen_envelopes (snd (mark_seen now e r)) =
     (if env_from e = local_node r then seen_envelopes r
      else snd (overlay_check_and_insert now (env_from e) (msg_id e) (seen_envelopes r)))"
  by (simp add: mark_seen_def case_prod_beta)

lemma handle_run_seen:
  "seen_envelopes (fst (handle_run ser strategies es (r, stats))) =
     overlay_seen_run (seen_of (local_node r) es) (seen_envelopes r)
   \<and> local_node (fst (handle_run ser strategies es (r, stats))) = local_node r"
proof (induction es arbitrary: r stats)
  case Nil
  then show ?case by (simp add: seen_of_def overlay_seen_run_def)
next
  case (Cons x es)
  obtain now e "from" where x: "x = (now, e, from)" by (cases x) auto
  obtain r' stats' where s: "snd (handle_envelope ser strategies now e from (r, stats)) = (r', stats')" by fastforce
  have r': "r' = snd (mark_seen now e r)"
    using handle_envelope_state(1) [of ser strategies now e "from" r stats] by (simp add: s)
  from Cons.IH [of r' stats'] show ?case
    by (simp add: x s r' mark_seen_cache seen_of_def overlay_seen_run_def)
qed

section \<open>A network of routers\<close>

text \<open>
  The envelopes in flight, each with the node it is for and the neighbour that sent it. A step
  delivers one of them to its node, whose router may forward it, or loses it.
\<close>

type_synonym flight = "node_id \<times> node_id \<times> overlay_envelope"

definition sent :: "(bytes \<Rightarrow> overlay_envelope option) \<Rightarrow> node_id \<Rightarrow> overlay_action list \<Rightarrow> flight list" where
  "sent deser n acts = List.map_filter (\<lambda>act. case act of
     SendMessage to data _ _ \<Rightarrow> map_option (\<lambda>e. (to, n, e)) (deser data) | _ \<Rightarrow> None) acts"

inductive net_step ::
  "(overlay_envelope \<Rightarrow> bytes option) \<Rightarrow> (bytes \<Rightarrow> overlay_envelope option)
   \<Rightarrow> (node_id \<Rightarrow> overlay_router \<times> mist_stats) \<times> flight multiset
   \<Rightarrow> (node_id \<Rightarrow> overlay_router \<times> mist_stats) \<times> flight multiset \<Rightarrow> bool"
  for ser deser where
  net_deliver: "handle_envelope ser [] now e from (nodes n) = (res, st) \<Longrightarrow>
     net_step ser deser (nodes, add_mset (n, from, e) M) (nodes(n := st), M + mset (sent deser n (actions res)))"
| net_lose: "net_step ser deser (nodes, add_mset f M) (nodes, M)"

inductive_cases net_stepE: "net_step ser deser (nodes, M) s'"

definition hops :: "flight multiset \<Rightarrow> nat multiset" where
  "hops M = image_mset (\<lambda>(_, _, e). hop_count e) M"

lemma deliver_no_strategies [simp]: "deliver_to_strategies [] e b r = []"
  by (simp add: deliver_to_strategies_def handle_overlay_message_def split: message_content.splits)

lemma sent_hops_decrease:
  assumes "\<And>e data. ser e = Some data \<Longrightarrow> deser data = Some e"
    and "handle_envelope ser [] now e from s = (res, st)" and "(to, n', e') \<in> set (sent deser n (actions res))"
  shows "hop_count e' < hop_count e"
proof -
  obtain r stats where s: "s = (r, stats)" by fastforce
  have acts: "actions res = (if suspect (health_of from stats) then [ClearSuspect from] else []) @
     (if fst (mark_seen now e r) \<and> can_forward e
      then forward_actions ser e (forward_targets_of e from (is_broadcast (env_to e)) r) r else [])"
    using handle_envelope_actions [of ser "[]" now e "from" r stats] assms(2) by (simp add: s)
  obtain data m lane where act: "SendMessage to data m lane \<in> set (actions res)" and e': "deser data = Some e'"
    using assms(3) by (auto simp: sent_def map_filter_def split: overlay_action.splits)
  then have fwd: "can_forward e" "SendMessage to data m lane \<in> set (forward_actions ser e (forward_targets_of e from (is_broadcast (env_to e)) r) r)"
    by (auto simp: acts split: if_splits)
  then have "ser (e\<lparr>hop_count := hop_count e - 1\<rparr>) = Some data"
    using forward_actions_spec by blast
  with assms(1) e' have "e' = e\<lparr>hop_count := hop_count e - 1\<rparr>" by fastforce
  with fwd(1) show ?thesis by (simp add: can_forward_def)
qed

lemma net_step_decreases:
  assumes "\<And>e data. ser e = Some data \<Longrightarrow> deser data = Some e" and "net_step ser deser s s'"
  shows "(hops (snd s'), hops (snd s)) \<in> mult {(x, y). x < y}"
  using assms(2)
proof cases
  case (net_deliver now e "from" nodes n res st M)
  have "\<forall>h \<in># hops (mset (sent deser n (actions res))). \<exists>k \<in># {#hop_count e#}. (h, k) \<in> {(x, y). x < y}"
    using sent_hops_decrease [OF assms(1) net_deliver(3)] by (force simp: hops_def)
  then have "(hops M + hops (mset (sent deser n (actions res))), hops M + {#hop_count e#}) \<in> mult {(x, y). x < y}"
    by (intro one_step_implies_mult) auto
  then show ?thesis by (simp add: net_deliver hops_def)
next
  case (net_lose nodes f M)
  have "(hops M + {#}, hops M + hops {#f#}) \<in> mult {(x, y). x < y}"
    by (intro one_step_implies_mult) (auto simp: hops_def)
  then show ?thesis by (simp add: net_lose hops_def)
qed

text \<open>A small wire codec for concrete instances: the copies of one envelope, told apart by their hop count.\<close>

definition demo_envelope :: overlay_envelope where
  "demo_envelope = envelope_new 7 (NodeId ''a'') (NodeId ''c'') 0 (Raw [9])"

definition demo_ser :: "overlay_envelope \<Rightarrow> bytes option" where
  "demo_ser e = (if e\<lparr>hop_count := 0\<rparr> = demo_envelope \<and> hop_count e < 256 then Some [of_nat (hop_count e)] else None)"

fun demo_deser :: "bytes \<Rightarrow> overlay_envelope option" where
  "demo_deser [b] = Some (demo_envelope\<lparr>hop_count := unat b\<rparr>)"
| "demo_deser _ = None"

lemma demo_codec: "demo_ser e = Some data \<Longrightarrow> demo_deser data = Some e"
proof -
  assume "demo_ser e = Some data"
  then have e: "e\<lparr>hop_count := 0\<rparr> = demo_envelope" "hop_count e < 256" "data = [of_nat (hop_count e)]"
    by (auto simp: demo_ser_def split: if_splits)
  have "demo_envelope\<lparr>hop_count := hop_count e\<rparr> = e" unfolding e(1) [symmetric] by simp
  with e(2,3) show ?thesis by simp
qed

section \<open>Properties\<close>

text \<open>
  Property C21. Every flood dies out: in a network of routers that forward overlay envelopes, whatever
  the topology, the routing tables, the delivery order and the losses, there is no infinite sequence
  of deliveries. The wire encoding is only assumed to decode what it encoded.
\<close>

theorem flood_terminates:
  assumes "\<And>e data. ser e = Some data \<Longrightarrow> deser data = Some e"
  shows "wfp (\<lambda>s' s. net_step ser deser s s')"
proof -
  have "wf (inv_image (mult {(x, y). x < y}) (\<lambda>s :: (node_id \<Rightarrow> overlay_router \<times> mist_stats) \<times> flight multiset. hops (snd s)))"
    by (intro wf_inv_image wf_mult wf)
  then show ?thesis
    unfolding wfp_def
    by (rule wf_subset) (auto simp: inv_image_def intro: net_step_decreases [OF assms])
qed

theorem flood_terminates_witness: "wfp (\<lambda>s' s. net_step demo_ser demo_deser s s')"
  by (rule flood_terminates) (rule demo_codec)



text \<open>
  Property C23. A copy of an envelope is neither delivered nor forwarded: once a router has accepted an
  envelope with a nonzero identifier, every later copy of it that arrives within the time to live,
  from whichever neighbour and with whatever hop count, is not delivered and triggers no send, whatever
  envelopes were handled in between, while the duplicate filter has room.
\<close>

theorem duplicate_envelope_suppressed:
  assumes "ttl_ok (seen_envelopes r)" and "msg_id e \<noteq> 0"
    and "should_deliver (fst (handle_envelope ser strategies t e nbr (r, stats)))"
    and "env_from e' = env_from e" and "msg_id e' = msg_id e"
    and "\<forall>x \<in> set es. fst x - t < ttl (seen_envelopes r)" and "now - t < ttl (seen_envelopes r)"
    and "ttl_recent (seen_envelopes (fst (snd (handle_envelope ser strategies t e nbr (r, stats))))) t + length es
           \<le> max_entries (seen_envelopes r)"
    and "s = handle_run ser strategies es (snd (handle_envelope ser strategies t e nbr (r, stats)))"
  shows "\<not> should_deliver (fst (handle_envelope ser strategies now e' nbr' s))
    \<and> set (actions (fst (handle_envelope ser strategies now e' nbr' s))) \<subseteq> {ClearSuspect nbr'}"
proof -
  let ?k = "env_from e" and ?i = "msg_id e"
  obtain r' stats' where s: "s = (r', stats')" by fastforce
  obtain r1 stats1 where h: "snd (handle_envelope ser strategies t e nbr (r, stats)) = (r1, stats1)" by fastforce
  have r1: "r1 = snd (mark_seen t e r)" using handle_envelope_state(1) [of ser strategies t e nbr r stats] h by simp
  have new: "fst (mark_seen t e r)" using assms(3) by (simp add: handle_envelope_state)
  then have notown: "?k \<noteq> local_node r" by (auto simp: mark_seen_def split: if_splits)
  then have acc: "fst (overlay_check_and_insert t ?k ?i (seen_envelopes r))"
    and c1: "seen_envelopes r1 = snd (overlay_check_and_insert t ?k ?i (seen_envelopes r))"
    using new by (auto simp: mark_seen_def r1 case_prod_beta split: if_splits)
  have run: "seen_envelopes r' = overlay_seen_run (seen_of (local_node r1) es) (seen_envelopes r1)" "local_node r' = local_node r1"
  proof -
    have "handle_run ser strategies es (r1, stats1) = (r', stats')" using assms(9) h s by simp
    with handle_run_seen [of ser strategies es r1 stats1]
    show "seen_envelopes r' = overlay_seen_run (seen_of (local_node r1) es) (seen_envelopes r1)" "local_node r' = local_node r1"
      by simp_all
  qed
  have "length (seen_of (local_node r1) es) \<le> length es" by (simp add: seen_of_def)
  moreover have "\<forall>x \<in> set (seen_of (local_node r1) es). fst x - t < ttl (seen_envelopes r)"
    using assms(6) by (force simp: seen_of_def)
  ultimately have "\<not> fst (overlay_check_and_insert now ?k ?i (seen_envelopes r'))"
    using overlay_seen.accepted_at_most_once [of "seen_envelopes r" "(?k, ?i)" t "seen_of (local_node r1) es" now]
      assms(1,2,7,8) acc run c1 h
    by (simp add: overlay_seen_run_fold case_prod_beta)
  then have "\<not> fst (mark_seen now e' r')"
    using assms(4,5) by (simp add: mark_seen_def case_prod_beta)
  then show ?thesis by (auto simp: s handle_envelope_state handle_envelope_actions)
qed

theorem duplicate_envelope_suppressed_witness:
  "\<not> should_deliver (fst (handle_envelope demo_ser [] 9 (demo_envelope\<lparr>hop_count := 1\<rparr>) (NodeId ''d'')
      (snd (handle_envelope demo_ser [] 5 (demo_envelope\<lparr>hop_count := 2\<rparr>) (NodeId ''a'')
        (router_new 8 transfer_default (NodeId ''b''), mist_stats_new)))))"
proof -
  let ?r = "router_new 8 transfer_default (NodeId ''b'')" and ?e = "demo_envelope\<lparr>hop_count := 2\<rparr>"
  have fresh: "seen_envelopes ?r = overlay_seen_new OVERLAY_SEEN_TTL OVERLAY_SEEN_MAX_ENTRIES" by (simp add: router_new_def)
  have c: "overlay_check_and_insert 5 (NodeId ''a'') 7 (seen_envelopes ?r) =
      (True, \<lparr>ttl = OVERLAY_SEEN_TTL, max_entries = OVERLAY_SEEN_MAX_ENTRIES, entries = [((NodeId ''a'', 7), 5)]\<rparr>)"
    by (simp add: fresh overlay_check_eq ttl_record_def overlay_seen_new_def ttl_new_def ttl_sweep_def hm_retain_def
        hm_contains_def evict_loop_noop OVERLAY_SEEN_MAX_ENTRIES_def hm_insert_def)
  have ids: "env_from ?e = NodeId ''a''" "msg_id ?e = 7" "local_node ?r = NodeId ''b''"
    by (simp_all add: demo_envelope_def envelope_new_def router_new_def)
  show ?thesis
    by (rule conjunct1, rule duplicate_envelope_suppressed [where r = ?r and e = ?e and es = "[]" and t = 5
        and stats = mist_stats_new and nbr = "NodeId ''a''" and nbr' = "NodeId ''d''"])
      (simp_all add: handle_envelope_state mark_seen_def ids c case_prod_beta,
       simp_all add: fresh overlay_seen_new_def ttl_new_def ttl_ok_def OVERLAY_SEEN_TTL_def OVERLAY_SEEN_MAX_ENTRIES_def
         ttl_recent_def demo_envelope_def envelope_new_def)
qed

text \<open>
  Sequence numbers are contiguous per destination and spent only on success: over any run
  of sends to at most 1024 destinations, the frames committed to one destination carry exactly the
  numbers 1, 2, \<dots>, in commit order; an attempt that fails uses up nothing.
\<close>

lemma sequence_numbers_contiguous:
  assumes "card ((\<lambda>(_, to, _). to) ` set attempts) \<le> SEQ_COUNTER_MAX_DESTINATIONS" and "length attempts \<le> u64_max"
  shows "map snd (filter (\<lambda>p. fst p = to) (fst (seq_run attempts []))) = [1..<Suc (commits to attempts)]"
proof -
  have "commits n attempts \<le> length attempts" for n by (simp add: commits_def)
  then have "\<forall>n. counter_of n [] + commits n attempts \<le> u64_max"
    using assms(2) by (auto simp: counter_of_def intro: order.trans)
  then show ?thesis
    using seq_run_contiguous [of "[]" "(\<lambda>(_, to, _). to) ` set attempts" attempts to] assms(1)
    by (simp add: counter_of_def)
qed

theorem sequence_numbers_contiguous_witness:
  "map snd (filter (\<lambda>p. fst p = NodeId ''a'') (fst (seq_run
     [(1, NodeId ''a'', True), (2, NodeId ''b'', True), (3, NodeId ''a'', False), (4, NodeId ''a'', True)] []))) = [1, 2]"
  using sequence_numbers_contiguous [of "[(1, NodeId ''a'', True), (2, NodeId ''b'', True), (3, NodeId ''a'', False), (4, NodeId ''a'', True)]"
      "NodeId ''a''"]
  by (simp add: SEQ_COUNTER_MAX_DESTINATIONS_def u64_max_def commits_def card_insert_if del: seq_run.simps)

text \<open>
  Property C24. Routes follow links: after the table is synchronised with the transport's connected set,
  the direct set is that set, every next hop is connected, a connected node is reached directly, and a
  node whose link was just lost, as well as everything routed through it, is unreachable.
\<close>

theorem routing_follows_links:
  assumes "hm_ok (routes (routing r))" and "rt = routing (sync_connected_nodes connected r)"
  shows "set (connected_nodes rt) = set connected
    \<and> (get_next_hop n rt = Some h \<longrightarrow> h \<in> set connected)
    \<and> (n \<in> set connected \<longrightarrow> get_next_hop n rt = Some n)
    \<and> (n \<in> set (connected_nodes (routing r)) - set connected \<longrightarrow> get_next_hop n rt = None)"
proof -
  have conn: "set (connected_nodes rt) = set connected"
    unfolding assms(2) by (rule sync_connected_set)
  have "get_next_hop n rt = None" if n: "n \<in> set (connected_nodes (routing r)) - set connected"
  proof -
    have "set (routes rt) = {p \<in> set (routes (routing r)). fst p \<notin> set (connected_nodes (routing r)) - set connected
        \<and> snd p \<notin> set (connected_nodes (routing r)) - set connected}"
      using fold_on_connected [of connected "routing r"]
        fold_disconnect [of "set connected" "connected_nodes (routing r)" "fold on_connected connected (routing r)"]
      by (simp add: assms(2) sync_connected_nodes_def Let_def)
    then have "hm_get (routes rt) n = None"
      using n hm_get_in [of "routes rt" n] by (cases "hm_get (routes rt) n") force+
    with n conn show ?thesis by (simp add: get_next_hop_def)
  qed
  with conn get_next_hop_connected [of n rt h] show ?thesis by (auto simp: get_next_hop_def)
qed

theorem routing_follows_links_witness:
  "set (connected_nodes (routing (sync_connected_nodes [NodeId ''b'']
      ((router_new 8 transfer_default (NodeId ''x''))\<lparr>routing := \<lparr>connected_nodes = [NodeId ''a''], routes = [(NodeId ''c'', NodeId ''a'')]\<rparr>\<rparr>))))
   = set [NodeId ''b'']"
  by (rule conjunct1, rule routing_follows_links [OF _ refl]) (simp add: hm_ok_def)

end
