(* ===== verification/Engine.thy ===== *)
theory Engine
  imports Overlay_Router
begin

text \<open>
  The core engine: the node store (\<open>overlay/node_store.rs\<close>), the application events (\<open>events.rs\<close>,
  \<open>engine/types.rs\<close>), the handling of a network event (\<open>engine/network.rs\<close>), the periodic tick
  (\<open>engine/tick.rs\<close>) and joining and leaving a room (\<open>engine/lifecycle.rs\<close>). What a call does to the
  outside is the list of its effects, in order. Positions are a type of their own: the f32 distance
  test, the JSON and bincode texts and the topology strategies' answers are fields of an environment.
  The three session tasks are steps that first look at the run generation, as their loops do.
\<close>

section \<open>Node store\<close>

record 'p node_info =
  ni_id :: node_id
  ni_position :: 'p

record 'p node_store =
  nodes :: "(node_id, 'p node_info) hmap"
  last_updated :: "(node_id, instant) hmap"

definition node_store_new :: "'p node_store" where
  "node_store_new = \<lparr>nodes = [], last_updated = []\<rparr>"

definition update_node_position :: "instant \<Rightarrow> node_id \<Rightarrow> 'p \<Rightarrow> 'p node_store \<Rightarrow> 'p node_store" where
  "update_node_position now i p s =
     \<lparr>nodes = (if hm_contains (nodes s) i then hm_update i (\<lambda>n. n\<lparr>ni_position := p\<rparr>) (nodes s)
               else hm_insert i \<lparr>ni_id = i, ni_position = p\<rparr> (nodes s)),
      last_updated = hm_insert i now (last_updated s)\<rparr>"

definition store_touch_node :: "instant \<Rightarrow> node_id \<Rightarrow> 'p node_store \<Rightarrow> bool \<times> 'p node_store" where
  "store_touch_node now i s =
     (if \<not> hm_contains (nodes s) i then (False, s)
      else (True, s\<lparr>last_updated := hm_insert i now (last_updated s)\<rparr>))"

text \<open>The entries of the three JSON documents; \<open>origin\<close> is the position \<open>(0, 0, 0)\<close>.\<close>

definition get_connected_nodes_json :: "((node_id \<times> 'p) list \<Rightarrow> bytes) \<Rightarrow> 'p \<Rightarrow> node_id list \<Rightarrow> 'p node_store \<Rightarrow> bytes" where
  "get_connected_nodes_json json origin connected_ids s =
     json (map (\<lambda>n. (ni_id n, ni_position n)) (filter (\<lambda>n. ni_id n \<in> set connected_ids) (map snd (nodes s)))
           @ map (\<lambda>i. (i, origin)) (filter (\<lambda>i. \<not> hm_contains (nodes s) i) connected_ids))"

definition get_all_nodes_json :: "((node_id \<times> 'p) list \<Rightarrow> bytes) \<Rightarrow> 'p \<Rightarrow> node_id list \<Rightarrow> 'p node_store \<Rightarrow> bytes" where
  "get_all_nodes_json json origin connected_ids s =
     (let nodes_map = fold (\<lambda>n. hm_insert (ni_id n) (ni_id n, ni_position n)) (map snd (nodes s)) [];
          nodes_map = fold (\<lambda>i m. if hm_contains m i then m else hm_insert i (i, origin) m) connected_ids nodes_map
      in json (map snd nodes_map))"

definition get_nodes_json :: "((node_id \<times> 'p) list \<Rightarrow> bytes) \<Rightarrow> 'p \<Rightarrow> node_id list \<Rightarrow> 'p node_store \<Rightarrow> bytes" where
  "get_nodes_json json origin ids s =
     json (map (\<lambda>i. (i, case hm_get (nodes s) i of None \<Rightarrow> origin | Some n \<Rightarrow> ni_position n)) ids)"

definition retain_recent :: "instant \<Rightarrow> duration \<Rightarrow> 'p node_store \<Rightarrow> 'p node_store" where
  "retain_recent now duration s =
     (let expired = map fst (filter (\<lambda>(_, t). \<not> now - t < duration) (last_updated s));
          lu = hm_retain (\<lambda>_ t. now - t < duration) (last_updated s)
      in \<lparr>nodes = (if expired \<noteq> [] then hm_retain (\<lambda>i _. i \<notin> set expired) (nodes s) else nodes s), last_updated = lu\<rparr>)"

text \<open>\<open>within p q\<close> is the comparison of the distance of \<open>p\<close> and \<open>q\<close> with the range.\<close>

definition get_nodes_in_range :: "('p \<Rightarrow> 'p \<Rightarrow> bool) \<Rightarrow> node_id \<Rightarrow> 'p node_store \<Rightarrow> node_id list" where
  "get_nodes_in_range within center_id s =
     (case hm_get (nodes s) center_id of
        None \<Rightarrow> []
      | Some c \<Rightarrow> map fst (filter (\<lambda>(i, info). i \<noteq> center_id \<and> within (ni_position info) (ni_position c)) (nodes s)))"

section \<open>Application events\<close>

definition EVENT_RAW :: nat where "EVENT_RAW = 0"
definition EVENT_OVERLAY :: nat where "EVENT_OVERLAY = 1"
definition EVENT_NEIGHBORS :: nat where "EVENT_NEIGHBORS = 4"
definition EVENT_AOI_ENTERED :: nat where "EVENT_AOI_ENTERED = 5"
definition EVENT_AOI_LEFT :: nat where "EVENT_AOI_LEFT = 6"
definition EVENT_NODE_POSITION_UPDATED :: nat where "EVENT_NODE_POSITION_UPDATED = 7"
definition EVENT_AOI_NODES :: nat where "EVENT_AOI_NODES = 8"
definition EVENT_ALL_CONNECTIONS_LOST :: nat where "EVENT_ALL_CONNECTIONS_LOST = 9"

datatype engine_event =
    RawMessage node_id bytes
  | OverlayMessage node_id bytes
  | NeighborsUpdated bytes
  | AoiEntered node_id
  | AoiLeft node_id
  | AoiNodesUpdated bytes
  | NodePositionUpdated node_id bytes
  | AllConnectionsLost node_id

definition ALL_CONNECTIONS_LOST_PAYLOAD :: bytes where
  "ALL_CONNECTIONS_LOST_PAYLOAD = str_bytes (''{'' @ [CHR 0x22] @ ''reason'' @ [CHR 0x22] @ '':'' @ [CHR 0x22] @ ''allConnectionsLost''
     @ [CHR 0x22] @ '','' @ [CHR 0x22] @ ''connectedCount'' @ [CHR 0x22] @ '':0}'')"

fun into_application_event :: "engine_event \<Rightarrow> nat \<times> node_id \<times> bytes" where
  "into_application_event (RawMessage i data) = (EVENT_RAW, i, data)"
| "into_application_event (OverlayMessage i data) = (EVENT_OVERLAY, i, data)"
| "into_application_event (NeighborsUpdated data) = (EVENT_NEIGHBORS, NodeId ''rust'', data)"
| "into_application_event (AoiEntered i) = (EVENT_AOI_ENTERED, i, str_bytes ''entered'')"
| "into_application_event (AoiLeft i) = (EVENT_AOI_LEFT, i, str_bytes ''left'')"
| "into_application_event (AoiNodesUpdated data) = (EVENT_AOI_NODES, NodeId ''rust'', data)"
| "into_application_event (NodePositionUpdated i data) = (EVENT_NODE_POSITION_UPDATED, i, data)"
| "into_application_event (AllConnectionsLost i) = (EVENT_ALL_CONNECTIONS_LOST, i, ALL_CONNECTIONS_LOST_PAYLOAD)"

text \<open>\<open>ConnectionLossTracker::update\<close> on its flag.\<close>

definition loss_update :: "nat \<Rightarrow> bool \<Rightarrow> bool \<times> bool" where
  "loss_update connected_count armed = (if connected_count > 0 then (False, True) else (armed, False))"

definition loss_reset :: "bool \<Rightarrow> bool" where
  "loss_reset armed = False"

section \<open>The engine\<close>

text \<open>A running context is identified by a number; its transports are the environment's.\<close>

record running_context =
  rc_id :: nat
  rc_overlay :: "overlay_router option"

datatype engine_state = Idle | Running running_context

record 'p engine =
  self_id :: node_id
  node_store :: "'p node_store"
  state :: engine_state
  aoi_nodes :: "node_id list"
  run_generation :: nat
  connection_loss :: bool
  stats :: mist_stats

record 'p engine_env =
  ee_ser :: "overlay_envelope \<Rightarrow> bytes option"
  ee_deser :: "bytes \<Rightarrow> overlay_envelope option"
  ee_strategies :: "strategy list"
  ee_tick :: "(node_id \<times> connection_state) list \<Rightarrow> overlay_action list"
  ee_on_disconnected :: "(node_id \<times> connection_state) list \<Rightarrow> overlay_action list"
  ee_json :: "(node_id \<times> 'p) list \<Rightarrow> bytes"
  ee_position_payload :: "'p \<Rightarrow> bytes"
  ee_origin :: 'p
  ee_within :: "'p \<Rightarrow> 'p \<Rightarrow> bool"
  ee_sync_pos :: "bytes \<Rightarrow> 'p option"
  ee_vector :: "bytes \<Rightarrow> 'p option"

datatype effect =
    Emit engine_event
  | HandleAction overlay_action
  | ReceivedAction overlay_action
  | HandleSignaling message_content

definition engine_new :: "mist_stats \<Rightarrow> 'p engine" where
  "engine_new st =
     \<lparr>self_id = NodeId ''local'', node_store = node_store_new, state = Idle, aoi_nodes = [], run_generation = 0,
      connection_loss = False, stats = st\<rparr>"

definition running_context :: "'p engine \<Rightarrow> running_context option" where
  "running_context e = (case state e of Running c \<Rightarrow> Some c | Idle \<Rightarrow> None)"

definition engine_overlay :: "'p engine \<Rightarrow> overlay_router option" where
  "engine_overlay e = Option.bind (running_context e) rc_overlay"

text \<open>The overlay router behind the shared pointer, as changed by a call.\<close>

definition set_overlay :: "overlay_router \<Rightarrow> 'p engine \<Rightarrow> 'p engine" where
  "set_overlay r e = e\<lparr>state := (case state e of Running c \<Rightarrow> Running (c\<lparr>rc_overlay := Some r\<rparr>) | Idle \<Rightarrow> Idle)\<rparr>"

section \<open>Network events\<close>

definition MSG_TYPE_SYNC_POS :: nat where "MSG_TYPE_SYNC_POS = 100"
definition MSG_TYPE_SYNC_POS_BIN :: nat where "MSG_TYPE_SYNC_POS_BIN = 200"

definition ensure_node_registered :: "'p engine_env \<Rightarrow> instant \<Rightarrow> node_id \<Rightarrow> 'p engine \<Rightarrow> 'p engine" where
  "ensure_node_registered env now i e =
     (if is_server i then e
      else if \<not> hm_contains (nodes (node_store e)) i
        then e\<lparr>node_store := update_node_position now i (ee_origin env) (node_store e)\<rparr> else e)"

definition touch_node :: "instant \<Rightarrow> node_id \<Rightarrow> 'p engine \<Rightarrow> 'p engine" where
  "touch_node now i e = (if is_server i then e else e\<lparr>node_store := snd (store_touch_node now i (node_store e))\<rparr>)"

text \<open>\<open>ee_sync_pos\<close> reads the JSON document; it is \<open>None\<close> where the code returns early.\<close>

definition try_apply_sync_pos :: "'p engine_env \<Rightarrow> instant \<Rightarrow> node_id \<Rightarrow> bytes \<Rightarrow> 'p engine \<Rightarrow> 'p engine" where
  "try_apply_sync_pos env now from p e =
     (case ee_sync_pos env p of None \<Rightarrow> e | Some pos \<Rightarrow> e\<lparr>node_store := update_node_position now from pos (node_store e)\<rparr>)"

definition try_apply_sync_pos_bin :: "'p engine_env \<Rightarrow> instant \<Rightarrow> node_id \<Rightarrow> bytes \<Rightarrow> 'p engine \<Rightarrow> 'p engine" where
  "try_apply_sync_pos_bin env now from p e =
     (if length p \<noteq> 4 * 3 then e
      else case ee_vector env p of None \<Rightarrow> e | Some pos \<Rightarrow> e\<lparr>node_store := update_node_position now from pos (node_store e)\<rparr>)"

fun handle_message_content ::
  "'p engine_env \<Rightarrow> instant \<Rightarrow> node_id \<Rightarrow> message_content \<Rightarrow> 'p engine \<Rightarrow> effect list \<times> 'p engine" where
  "handle_message_content env now from (Raw p) e = ([Emit (RawMessage from p)], e)"
| "handle_message_content env now from (Overlay msg) e =
     (if is_internal_control msg then ([], e)
      else
        let e = (if message_type msg = MSG_TYPE_SYNC_POS then try_apply_sync_pos env now from (payload msg) e else e);
            e = (if message_type msg = MSG_TYPE_SYNC_POS_BIN then try_apply_sync_pos_bin env now from (payload msg) e else e)
        in ([Emit (OverlayMessage from (payload msg))], e))"
| "handle_message_content env now from (Data d) e =
     (let e = ensure_node_registered env now (sender_id d) e
      in (if running_context e = None then [] else [HandleSignaling (Data d)], e))"

text \<open>The loops that hand over the contents released for one source, or for several.\<close>

fun deliver_contents ::
  "'p engine_env \<Rightarrow> instant \<Rightarrow> node_id \<Rightarrow> message_content list \<Rightarrow> 'p engine \<Rightarrow> effect list \<times> 'p engine" where
  "deliver_contents env now from [] e = ([], e)"
| "deliver_contents env now from (c # cs) e =
     (let (out, e) = handle_message_content env now from c e; (outs, e) = deliver_contents env now from cs e in (out @ outs, e))"

fun deliver_flushed ::
  "'p engine_env \<Rightarrow> instant \<Rightarrow> (node_id \<times> message_content list) list \<Rightarrow> 'p engine \<Rightarrow> effect list \<times> 'p engine" where
  "deliver_flushed env now [] e = ([], e)"
| "deliver_flushed env now ((from, cs) # rest) e =
     (let (out, e) = deliver_contents env now from cs e; (outs, e) = deliver_flushed env now rest e in (out @ outs, e))"

definition process_network_event :: "'p engine_env \<Rightarrow> instant \<Rightarrow> node_id \<Rightarrow> bytes \<Rightarrow> 'p engine \<Rightarrow> effect list \<times> 'p engine" where
  "process_network_event env now from data e =
     (case ee_deser env data of
        None \<Rightarrow> ([Emit (RawMessage from data)], touch_node now from e)
      | Some envelope \<Rightarrow>
          let source = env_from envelope;
              e = (case engine_overlay e of None \<Rightarrow> e | Some ov \<Rightarrow> set_overlay (learn_route source from ov) e);
              e = touch_node now source (touch_node now from e);
              to_self = (env_to envelope = self_id e \<or> is_broadcast (env_to envelope))
          in case engine_overlay e of
               None \<Rightarrow> if to_self then handle_message_content env now source (content envelope) e else ([], e)
             | Some ov \<Rightarrow>
                 let (res, ov, st) = handle_envelope (ee_ser env) (ee_strategies env) now envelope from (ov, stats e);
                     e = set_overlay ov (e\<lparr>stats := st\<rparr>);
                     acts = map ReceivedAction (actions res)
                 in if to_self \<and> should_deliver res then
                      let (ordered, ov) = reorder_inbound now source (env_seq envelope) (content envelope) ov;
                          (outs, e) = deliver_contents env now source ordered (set_overlay ov e)
                      in (acts @ outs, e)
                    else (acts, e))"

section \<open>Tick\<close>

definition step_connections :: "(node_id \<times> connection_state) list \<Rightarrow> 'p engine
   \<Rightarrow> (node_id list \<times> (node_id \<times> connection_state) list) \<times> 'p engine" where
  "step_connections active e =
     (case engine_overlay e of
        None \<Rightarrow> (([], []), e)
      | Some ov \<Rightarrow> let (connected, ov) = sync_connection_states active ov in ((connected, active), set_overlay ov e))"

definition step_aoi ::
  "'p engine_env \<Rightarrow> instant \<Rightarrow> duration \<Rightarrow> node_id list \<Rightarrow> 'p engine \<Rightarrow> (node_id list \<times> node_id list) \<times> 'p engine" where
  "step_aoi env now expire_duration connected_ids e =
     (let store = fold (\<lambda>i s. snd (store_touch_node now i s)) connected_ids (node_store e);
          store = retain_recent now expire_duration store;
          current_aoi = get_nodes_in_range (ee_within env) (self_id e) store;
          entered = filter (\<lambda>i. i \<notin> set (aoi_nodes e)) current_aoi;
          left = filter (\<lambda>i. i \<notin> set current_aoi) (aoi_nodes e)
      in ((entered, left), e\<lparr>node_store := store, aoi_nodes := current_aoi\<rparr>))"

definition step_overlay_tick :: "'p engine_env \<Rightarrow> (node_id \<times> connection_state) list \<Rightarrow> 'p engine \<Rightarrow> overlay_action list" where
  "step_overlay_tick env states e = (case engine_overlay e of None \<Rightarrow> [] | Some _ \<Rightarrow> ee_tick env states)"

definition step_reorder_flush :: "'p engine_env \<Rightarrow> instant \<Rightarrow> 'p engine \<Rightarrow> effect list \<times> 'p engine" where
  "step_reorder_flush env now e =
     (case engine_overlay e of
        None \<Rightarrow> ([], e)
      | Some ov \<Rightarrow> let (flushed, ov) = flush_expired_inbound now ov in deliver_flushed env now flushed (set_overlay ov e))"

text \<open>The position reports of one tick.\<close>

definition aoi_positions :: "'p engine_env \<Rightarrow> 'p engine \<Rightarrow> engine_event list" where
  "aoi_positions env e = List.map_filter (\<lambda>i. map_option
     (\<lambda>n. NodePositionUpdated i (ee_position_payload env (ni_position n))) (hm_get (nodes (node_store e)) i)) (aoi_nodes e)"

definition tick ::
  "'p engine_env \<Rightarrow> instant \<Rightarrow> duration \<Rightarrow> (node_id \<times> connection_state) list \<Rightarrow> 'p engine \<Rightarrow> effect list \<times> 'p engine" where
  "tick env now expire_duration active e =
     (let ((connected_ids, states), e) = step_connections active e;
          ((entered, left), e) = step_aoi env now expire_duration connected_ids e;
          aoi_json = get_nodes_json (ee_json env) (ee_origin env) (aoi_nodes e) (node_store e);
          (lost, armed) = loss_update (length connected_ids) (connection_loss e);
          e = e\<lparr>connection_loss := armed\<rparr>;
          neighbors = get_connected_nodes_json (ee_json env) (ee_origin env) connected_ids (node_store e);
          events = map AoiEntered entered @ map AoiLeft left @ [AoiNodesUpdated aoi_json] @ aoi_positions env e
                   @ (if lost then [AllConnectionsLost (self_id e)] else [])
                   @ (if neighbors \<noteq> [] then [NeighborsUpdated neighbors] else []);
          acts = map HandleAction (step_overlay_tick env states e);
          (flushed, e) = step_reorder_flush env now e
      in (map Emit events @ acts @ flushed, e))"

definition notify_peer_disconnected :: "'p engine_env \<Rightarrow> (node_id \<times> connection_state) list \<Rightarrow> 'p engine \<Rightarrow> effect list" where
  "notify_peer_disconnected env active e =
     (case engine_overlay e of None \<Rightarrow> [] | Some _ \<Rightarrow> map HandleAction (ee_on_disconnected env active))"

section \<open>Joining and leaving\<close>

text \<open>
  \<open>prepare_leave\<close> without the send queues: the peers to disconnect, if a session was running.
  \<open>peers\<close> are the connected nodes of its transports.
\<close>

definition prepare_leave :: "node_id list \<Rightarrow> 'p engine \<Rightarrow> node_id list option \<times> 'p engine" where
  "prepare_leave peers e =
     (let cleanup = (case state e of Running _ \<Rightarrow> Some (fold hs_insert peers []) | Idle \<Rightarrow> None)
      in (cleanup,
          e\<lparr>run_generation := wrap64 (run_generation e + 1), state := Idle, node_store := node_store_new, aoi_nodes := []\<rparr>))"

text \<open>\<open>run\<close> up to the start of its tasks: the generation they are started with, or the error of a start.\<close>

definition run_session :: "unit result option \<Rightarrow> unit result \<Rightarrow> running_context \<Rightarrow> 'p engine \<Rightarrow> (mist_error + nat) \<times> 'p engine" where
  "run_session network_start transport_start ctx e =
     (let generation = wrap64 (run_generation e + 1);
          e = e\<lparr>connection_loss := loss_reset (connection_loss e), run_generation := generation, state := Running ctx\<rparr>
      in case network_start of
           Some (Inl err) \<Rightarrow> (Inl err, e)
         | _ \<Rightarrow> (case transport_start of Inl err \<Rightarrow> (Inl err, e) | Inr _ \<Rightarrow> (Inr generation, e)))"

text \<open>One turn of the network task and of the tick task of the session with the given generation.\<close>

definition network_task :: "'p engine_env \<Rightarrow> nat \<Rightarrow> instant \<Rightarrow> node_id \<Rightarrow> bytes \<Rightarrow> 'p engine \<Rightarrow> effect list \<times> 'p engine" where
  "network_task env generation now from data e =
     (if run_generation e \<noteq> generation then ([], e) else process_network_event env now from data e)"

definition tick_task ::
  "'p engine_env \<Rightarrow> nat \<Rightarrow> instant \<Rightarrow> duration \<Rightarrow> (node_id \<times> connection_state) list \<Rightarrow> 'p engine \<Rightarrow> effect list \<times> 'p engine" where
  "tick_task env generation now expire_duration active e =
     (if run_generation e \<noteq> generation then ([], e) else tick env now expire_duration active e)"

definition signaling_task :: "nat \<Rightarrow> message_content \<Rightarrow> 'p engine \<Rightarrow> effect list" where
  "signaling_task generation msg e = (if run_generation e \<noteq> generation then [] else [HandleSignaling msg])"

section \<open>The node store keeps its two maps in step\<close>

definition store_ok :: "'p node_store \<Rightarrow> bool" where
  "store_ok s \<longleftrightarrow> hm_ok (nodes s) \<and> hm_ok (last_updated s)
     \<and> (\<forall>i. hm_get (nodes s) i = None \<longleftrightarrow> hm_get (last_updated s) i = None)
     \<and> (\<forall>i n. hm_get (nodes s) i = Some n \<longrightarrow> ni_id n = i)"

lemma store_ok_new [simp]: "store_ok node_store_new"
  by (simp add: store_ok_def node_store_new_def)

lemma store_ok_update [simp]: "store_ok s \<Longrightarrow> store_ok (update_node_position now i p s)"
  by (auto simp: store_ok_def update_node_position_def hm_contains_get split: if_splits)

lemma store_ok_touch [simp]: "store_ok s \<Longrightarrow> store_ok (snd (store_touch_node now i s))"
  by (auto simp: store_ok_def store_touch_node_def hm_contains_get split: if_splits)

lemma retain_recent_get:
  assumes "store_ok s"
  shows "hm_get (last_updated (retain_recent now d s)) i =
      (case hm_get (last_updated s) i of None \<Rightarrow> None | Some t \<Rightarrow> if now - t < d then Some t else None)"
    and "hm_get (nodes (retain_recent now d s)) i =
      (case hm_get (last_updated s) i of None \<Rightarrow> None | Some t \<Rightarrow> if now - t < d then hm_get (nodes s) i else None)"
proof -
  have ok: "hm_ok (nodes s)" "hm_ok (last_updated s)" and dom: "hm_get (nodes s) i = None \<longleftrightarrow> hm_get (last_updated s) i = None"
    using assms by (auto simp: store_ok_def)
  show "hm_get (last_updated (retain_recent now d s)) i =
      (case hm_get (last_updated s) i of None \<Rightarrow> None | Some t \<Rightarrow> if now - t < d then Some t else None)"
    using ok(2) by (simp add: retain_recent_def Let_def hm_get_retain)
  have exp: "i \<in> fst ` {x \<in> set (last_updated s). case x of (_, t) \<Rightarrow> \<not> now - t < d} \<longleftrightarrow>
      (\<exists>t. hm_get (last_updated s) i = Some t \<and> \<not> now - t < d)"
    using ok(2) by (force dest: hm_in_get hm_get_in)
  show "hm_get (nodes (retain_recent now d s)) i =
      (case hm_get (last_updated s) i of None \<Rightarrow> None | Some t \<Rightarrow> if now - t < d then hm_get (nodes s) i else None)"
  proof (cases "filter (\<lambda>(_, t). \<not> now - t < d) (last_updated s) = []")
    case True
    then have "hm_get (last_updated s) i = Some t \<Longrightarrow> now - t < d" for t
      by (auto simp: filter_empty_conv dest: hm_get_in)
    with True dom show ?thesis by (auto simp: retain_recent_def Let_def split: option.splits)
  next
    case False
    with ok(1) dom exp show ?thesis
      by (auto simp: retain_recent_def Let_def hm_get_retain split: option.splits)
  qed
qed

lemma store_ok_retain [simp]: "store_ok s \<Longrightarrow> store_ok (retain_recent now d s)"
  using retain_recent_get [of s now d]
  by (auto simp: store_ok_def retain_recent_def Let_def split: option.splits if_splits)

lemma touch_all:
  "store_ok s \<Longrightarrow> store_ok (fold (\<lambda>i s. snd (store_touch_node now i s)) is s)
   \<and> nodes (fold (\<lambda>i s. snd (store_touch_node now i s)) is s) = nodes s
   \<and> (\<forall>k. hm_get (last_updated (fold (\<lambda>i s. snd (store_touch_node now i s)) is s)) k =
        (if k \<in> set is \<and> hm_get (nodes s) k \<noteq> None then Some now else hm_get (last_updated s) k))"
proof (induction "is" arbitrary: s)
  case Nil
  then show ?case by simp
next
  case (Cons i "is")
  have "nodes (snd (store_touch_node now i s)) = nodes s" by (simp add: store_touch_node_def)
  moreover have "hm_get (last_updated (snd (store_touch_node now i s))) k =
      (if k = i \<and> hm_get (nodes s) i \<noteq> None then Some now else hm_get (last_updated s) k)" for k
    by (auto simp: store_touch_node_def hm_contains_get)
  ultimately show ?case using Cons.IH [of "snd (store_touch_node now i s)"] Cons.prems by auto
qed

section \<open>What the operations leave alone\<close>

text \<open>An application that follows the AOI events: \<open>None\<close> when an event contradicts its set.\<close>

fun aoi_replay :: "effect list \<Rightarrow> node_id set \<Rightarrow> node_id set option" where
  "aoi_replay [] A = Some A"
| "aoi_replay (Emit (AoiEntered i) # es) A = (if i \<in> A then None else aoi_replay es (insert i A))"
| "aoi_replay (Emit (AoiLeft i) # es) A = (if i \<in> A then aoi_replay es (A - {i}) else None)"
| "aoi_replay (_ # es) A = aoi_replay es A"

definition engine_ok :: "'p engine \<Rightarrow> bool" where
  "engine_ok e \<longleftrightarrow> store_ok (node_store e) \<and> distinct (aoi_nodes e)"

definition quiet :: "effect list \<Rightarrow> bool" where
  "quiet es \<longleftrightarrow> (\<forall>x \<in> set es. \<forall>i. x \<noteq> Emit (AoiEntered i) \<and> x \<noteq> Emit (AoiLeft i) \<and> x \<noteq> Emit (AllConnectionsLost i))"

lemma quiet_simps [simp]:
  "quiet []" "quiet (x @ y) \<longleftrightarrow> quiet x \<and> quiet y" "quiet (map ReceivedAction acts)" "quiet (map HandleAction acts)"
  "quiet [HandleSignaling m]" "quiet [Emit (RawMessage i p)]" "quiet [Emit (OverlayMessage i p)]"
  by (auto simp: quiet_def)

lemma aoi_replay_append: "aoi_replay (x @ y) A = Option.bind (aoi_replay x A) (aoi_replay y)"
  by (induction x A rule: aoi_replay.induct) auto

lemma aoi_replay_quiet: "quiet x \<Longrightarrow> aoi_replay x A = Some A"
  by (induction x A rule: aoi_replay.induct) (auto simp: quiet_def)

lemma aoi_replay_entered:
  "distinct is \<Longrightarrow> set is \<inter> A = {} \<Longrightarrow> aoi_replay (map (Emit \<circ> AoiEntered) is) A = Some (A \<union> set is)"
  by (induction "is" arbitrary: A) auto

lemma aoi_replay_left:
  "distinct is \<Longrightarrow> set is \<subseteq> A \<Longrightarrow> aoi_replay (map (Emit \<circ> AoiLeft) is) A = Some (A - set is)"
proof (induction "is" arbitrary: A)
  case (Cons i "is")
  have "A - {i} - set is = A - set (i # is)" by auto
  moreover have "set is \<subseteq> A - {i}" using Cons.prems by auto
  ultimately show ?case using Cons by simp
qed simp

lemma aoi_transition:
  assumes "distinct old" and "distinct new"
  shows "aoi_replay (map (Emit \<circ> AoiEntered) (filter (\<lambda>i. i \<notin> set old) new) @ map (Emit \<circ> AoiLeft) (filter (\<lambda>i. i \<notin> set new) old))
    (set old) = Some (set new)"
proof -
  let ?in = "filter (\<lambda>i. i \<notin> set old) new" and ?out = "filter (\<lambda>i. i \<notin> set new) old"
  have 1: "aoi_replay (map (Emit \<circ> AoiEntered) ?in) (set old) = Some (set old \<union> set ?in)"
    by (rule aoi_replay_entered) (use assms in auto)
  have "aoi_replay (map (Emit \<circ> AoiLeft) ?out) (set old \<union> set ?in) = Some (set old \<union> set ?in - set ?out)"
    by (rule aoi_replay_left) (use assms in auto)
  moreover have "set old \<union> set ?in - set ?out = set new" by auto
  ultimately show ?thesis by (simp only: aoi_replay_append 1 Option.bind.simps)
qed

text \<open>What every handler of messages keeps: everything but the node store, the router and the statistics.\<close>

definition same_view :: "'p engine \<Rightarrow> 'p engine \<Rightarrow> bool" where
  "same_view e e' \<longleftrightarrow> aoi_nodes e' = aoi_nodes e \<and> self_id e' = self_id e \<and> run_generation e' = run_generation e
     \<and> connection_loss e' = connection_loss e \<and> (state e' = Idle \<longleftrightarrow> state e = Idle) \<and> (engine_ok e \<longrightarrow> engine_ok e')"

lemma same_view_refl [simp]: "same_view e e"
  by (simp add: same_view_def)

lemma same_view_trans [trans]: "same_view a b \<Longrightarrow> same_view b c \<Longrightarrow> same_view a c"
  by (auto simp: same_view_def)

lemma same_view_steps [simp]:
  "same_view e (set_overlay r e)" "same_view e (e\<lparr>stats := st\<rparr>)" "same_view e (touch_node now i e)"
  "same_view e (ensure_node_registered env now i e)" "same_view e (try_apply_sync_pos env now i p e)"
  "same_view e (try_apply_sync_pos_bin env now i p e)"
  by (auto simp: same_view_def set_overlay_def touch_node_def ensure_node_registered_def try_apply_sync_pos_def
      try_apply_sync_pos_bin_def engine_ok_def split: engine_state.splits option.splits)

lemma handle_content_view: "quiet (fst (handle_message_content env now from c e)) \<and> same_view e (snd (handle_message_content env now from c e))"
proof (cases c)
  case (Overlay msg)
  have "same_view e (try_apply_sync_pos_bin env now from (payload msg) (try_apply_sync_pos env now from (payload msg) e))"
    by (rule same_view_trans [OF same_view_steps(5) same_view_steps(6)])
  with Overlay show ?thesis by (simp add: Let_def)
qed (simp_all add: Let_def)

lemma deliver_contents_view: "quiet (fst (deliver_contents env now from cs e)) \<and> same_view e (snd (deliver_contents env now from cs e))"
proof (induction cs arbitrary: e)
  case (Cons c cs)
  show ?case
    using handle_content_view [of env now "from" c e] Cons.IH [of "snd (handle_message_content env now from c e)"] same_view_trans
    by (auto simp: case_prod_beta Let_def)
qed simp

lemma deliver_flushed_view: "quiet (fst (deliver_flushed env now fl e)) \<and> same_view e (snd (deliver_flushed env now fl e))"
proof (induction fl arbitrary: e)
  case (Cons x fl)
  obtain i cs where x: "x = (i, cs)" by (cases x)
  show ?case
    using deliver_contents_view [of env now i cs e] Cons.IH [of "snd (deliver_contents env now i cs e)"] same_view_trans
    by (auto simp: x case_prod_beta Let_def)
qed simp

lemma reorder_flush_view: "quiet (fst (step_reorder_flush env now e)) \<and> same_view e (snd (step_reorder_flush env now e))"
proof (cases "engine_overlay e")
  case (Some ov)
  show ?thesis
    using deliver_flushed_view [of env now "fst (flush_expired_inbound now ov)" "set_overlay (snd (flush_expired_inbound now ov)) e"]
      same_view_trans [OF same_view_steps(1) [of e "snd (flush_expired_inbound now ov)"]]
    by (auto simp: step_reorder_flush_def Some case_prod_beta Let_def)
qed (simp add: step_reorder_flush_def)

lemma network_event_view:
  "quiet (fst (process_network_event env now from data e)) \<and> same_view e (snd (process_network_event env now from data e))"
proof (cases "ee_deser env data")
  case None
  then show ?thesis by (simp add: process_network_event_def)
next
  case (Some x)
  define e1 where "e1 = (case engine_overlay e of None \<Rightarrow> e | Some ov \<Rightarrow> set_overlay (learn_route (env_from x) from ov) e)"
  define e2 where "e2 = touch_node now (env_from x) (touch_node now from e1)"
  have "same_view e e1" by (simp add: e1_def split: option.splits)
  then have v2: "same_view e e2" unfolding e2_def by (rule same_view_trans [OF same_view_trans [OF _ same_view_steps(3)] same_view_steps(3)])
  show ?thesis
  proof (cases "engine_overlay e2")
    case None
    let ?h = "handle_message_content env now (env_from x) (content x) e2"
    have "process_network_event env now from data e =
        (if env_to x = self_id e2 \<or> is_broadcast (env_to x) then ?h else ([], e2))"
      unfolding process_network_event_def Some option.case Let_def e1_def [symmetric] e2_def [symmetric] by (simp add: None)
    moreover have "same_view e (snd ?h)"
      by (rule same_view_trans [OF v2 conjunct2 [OF handle_content_view]])
    ultimately show ?thesis using v2 handle_content_view [of env now "env_from x" "content x" e2] by simp
  next
    case ov: (Some ov)
    obtain res ov' st where h: "handle_envelope (ee_ser env) (ee_strategies env) now x from (ov, stats e2) = (res, ov', st)"
      by (metis prod_cases3)
    obtain ordered ov'' where r: "reorder_inbound now (env_from x) (env_seq x) (content x) ov' = (ordered, ov'')" by fastforce
    define e3 where "e3 = set_overlay ov' (e2\<lparr>stats := st\<rparr>)"
    have v3: "same_view e e3" unfolding e3_def by (rule same_view_trans [OF same_view_trans [OF v2 same_view_steps(2)] same_view_steps(1)])
    let ?d = "deliver_contents env now (env_from x) ordered (set_overlay ov'' e3)"
    have "process_network_event env now from data e =
        (if (env_to x = self_id e2 \<or> is_broadcast (env_to x)) \<and> should_deliver res
         then (map ReceivedAction (actions res) @ fst ?d, snd ?d) else (map ReceivedAction (actions res), e3))"
      unfolding process_network_event_def Some option.case Let_def e1_def [symmetric] e2_def [symmetric]
      by (simp add: ov h r e3_def case_prod_beta)
    moreover have "same_view e (snd ?d)"
      by (rule same_view_trans [OF same_view_trans [OF v3 same_view_steps(1)] conjunct2 [OF deliver_contents_view]])
    ultimately show ?thesis using v3 deliver_contents_view [of env now "env_from x" ordered "set_overlay ov'' e3"] by simp
  qed
qed

section \<open>The tick\<close>

text \<open>The store a tick leaves, and the AOI events it emits.\<close>

definition tick_store :: "instant \<Rightarrow> duration \<Rightarrow> node_id list \<Rightarrow> 'p node_store \<Rightarrow> 'p node_store" where
  "tick_store now d connected s = retain_recent now d (fold (\<lambda>i s. snd (store_touch_node now i s)) connected s)"

lemma tick_store_ok: "store_ok s \<Longrightarrow> store_ok (tick_store now d connected s)"
  using touch_all [of s now connected] by (auto simp: tick_store_def)

lemma in_range_distinct: "store_ok s \<Longrightarrow> distinct (get_nodes_in_range within c s)"
  by (auto simp: get_nodes_in_range_def store_ok_def hm_ok_def distinct_map_filter split: option.splits)

lemma step_connections_view: "same_view e (snd (step_connections active e))"
  "node_store (snd (step_connections active e)) = node_store e"
  "fst (fst (step_connections active e)) = (case engine_overlay e of None \<Rightarrow> [] | Some ov \<Rightarrow> fst (sync_connection_states active ov))"
  by (auto simp: step_connections_def case_prod_beta Let_def set_overlay_def same_view_def engine_ok_def
      split: option.splits engine_state.splits)

lemma tick_result:
  fixes e :: "'p engine"
  assumes "connected = fst (fst (step_connections active e))" and "store = tick_store now d connected (node_store e)"
    and "current = get_nodes_in_range (ee_within env) (self_id e) store"
  obtains pre post e' where "tick env now d active e =
      (map (Emit \<circ> AoiEntered) (filter (\<lambda>i. i \<notin> set (aoi_nodes e)) current)
       @ map (Emit \<circ> AoiLeft) (filter (\<lambda>i. i \<notin> set current) (aoi_nodes e)) @ pre
       @ (if connection_loss e \<and> connected = [] then [Emit (AllConnectionsLost (self_id e))] else []) @ post, e')"
    and "quiet pre" and "quiet post" and "aoi_nodes e' = current" and "connection_loss e' = (connected \<noteq> [])"
    and "self_id e' = self_id e" and "run_generation e' = run_generation e" and "engine_ok e \<longrightarrow> engine_ok e'"
proof -
  obtain states e1 where c: "step_connections active e = ((connected, states), e1)"
    using assms(1) by (metis prod.collapse)
  have v1: "same_view e e1" and n1: "node_store e1 = node_store e"
    using step_connections_view(1) [of e active] step_connections_view(2) [of active e] c by auto
  define e2 where "e2 = e1\<lparr>node_store := store, aoi_nodes := current\<rparr>"
  have self: "self_id e1 = self_id e" "aoi_nodes e1 = aoi_nodes e" using v1 by (auto simp: same_view_def)
  have aoi: "step_aoi env now d connected e1 =
      ((filter (\<lambda>i. i \<notin> set (aoi_nodes e)) current, filter (\<lambda>i. i \<notin> set current) (aoi_nodes e)), e2)"
    using assms(2,3) n1 self by (simp add: step_aoi_def tick_store_def Let_def e2_def)
  define e3 where "e3 = e2\<lparr>connection_loss := (connected \<noteq> [])\<rparr>"
  have cl: "connection_loss e2 = connection_loss e" using v1 by (simp add: e2_def same_view_def)
  have loss: "loss_update (length connected) (connection_loss e2) = (connection_loss e \<and> connected = [], connected \<noteq> [])"
    by (auto simp: loss_update_def cl)
  obtain flushed e4 where f: "step_reorder_flush env now e3 = (flushed, e4)" by fastforce
  have v4: "quiet flushed" "same_view e3 e4" using reorder_flush_view [of env now e3] f by auto
  define neighbors where "neighbors = get_connected_nodes_json (ee_json env) (ee_origin env) connected (node_store e3)"
  define pre where "pre = map Emit (AoiNodesUpdated (get_nodes_json (ee_json env) (ee_origin env) (aoi_nodes e2) (node_store e2)) # aoi_positions env e3)"
  define post where "post = (if neighbors \<noteq> [] then [Emit (NeighborsUpdated neighbors)] else [])
      @ map HandleAction (step_overlay_tick env states e3) @ flushed"
  have "quiet pre" by (auto simp: quiet_def pre_def aoi_positions_def map_filter_def)
  moreover have "quiet post" using v4(1) by (auto simp: post_def quiet_def)
  moreover have "aoi_nodes e4 = current" "connection_loss e4 = (connected \<noteq> [])" "self_id e4 = self_id e"
      "run_generation e4 = run_generation e"
    using v4(2) v1 by (auto simp: same_view_def e3_def e2_def)
  moreover have "engine_ok e4" if "engine_ok e"
  proof -
    have "store_ok store" using that by (simp add: assms(2) engine_ok_def tick_store_ok)
    then have "engine_ok e3" by (simp add: engine_ok_def e3_def e2_def assms(3) in_range_distinct)
    then show ?thesis using v4(2) by (simp add: same_view_def)
  qed
  moreover have "self_id e3 = self_id e" using self by (simp add: e3_def e2_def)
  then have "tick env now d active e =
      (map (Emit \<circ> AoiEntered) (filter (\<lambda>i. i \<notin> set (aoi_nodes e)) current)
       @ map (Emit \<circ> AoiLeft) (filter (\<lambda>i. i \<notin> set current) (aoi_nodes e)) @ pre
       @ (if connection_loss e \<and> connected = [] then [Emit (AllConnectionsLost (self_id e))] else []) @ post, e4)"
    unfolding tick_def c prod.case Let_def aoi loss unfolding e3_def [symmetric] f prod.case neighbors_def [symmetric] pre_def post_def
    by simp
  ultimately show thesis using that by blast
qed

section \<open>Runs of an engine\<close>

datatype engine_op =
    NetworkOp nat instant node_id bytes
  | TickOp nat instant duration "(node_id \<times> connection_state) list"
  | DisconnectedOp "(node_id \<times> connection_state) list"
  | LeaveOp "node_id list"
  | RunOp "unit result option" "unit result" running_context

text \<open>
  One operation on the engine and the generations its sessions were given so far. A task turn carries
  the generation of the session that started the task.
\<close>

fun engine_step :: "'p engine_env \<Rightarrow> engine_op \<Rightarrow> 'p engine \<times> nat list \<Rightarrow> effect list \<times> 'p engine \<times> nat list" where
  "engine_step env (NetworkOp g now from data) (e, gs) = (let (out, e) = network_task env g now from data e in (out, e, gs))"
| "engine_step env (TickOp g now d active) (e, gs) = (let (out, e) = tick_task env g now d active e in (out, e, gs))"
| "engine_step env (DisconnectedOp active) (e, gs) = (notify_peer_disconnected env active e, e, gs)"
| "engine_step env (LeaveOp peers) (e, gs) = ([], snd (prepare_leave peers e), gs)"
| "engine_step env (RunOp ns ts ctx) (e, gs) =
     (let (res, e) = run_session ns ts ctx e in ([], e, case res of Inl _ \<Rightarrow> gs | Inr g \<Rightarrow> gs @ [g]))"

text \<open>The application's AOI set after an operation: leaving a room empties it, the events change it.\<close>

definition app_view :: "engine_op \<Rightarrow> effect list \<Rightarrow> node_id set \<Rightarrow> node_id set option" where
  "app_view x out A = (case x of LeaveOp _ \<Rightarrow> Some {} | _ \<Rightarrow> aoi_replay out A)"

fun engine_run :: "'p engine_env \<Rightarrow> engine_op list \<Rightarrow> 'p engine \<times> nat list \<Rightarrow> node_id set option \<Rightarrow> ('p engine \<times> nat list) \<times> node_id set option" where
  "engine_run env [] s A = (s, A)"
| "engine_run env (x # xs) s A =
     (let (out, s) = engine_step env x s in engine_run env xs s (Option.bind A (app_view x out)))"

lemma tick_aoi:
  assumes "engine_ok e"
  shows "aoi_replay (fst (tick env now d active e)) (set (aoi_nodes e)) = Some (set (aoi_nodes (snd (tick env now d active e))))"
    and "engine_ok (snd (tick env now d active e))"
proof -
  let ?c = "fst (fst (step_connections active e))"
  let ?s = "tick_store now d ?c (node_store e)"
  let ?cur = "get_nodes_in_range (ee_within env) (self_id e) ?s"
  obtain pre post e' where t: "tick env now d active e =
      (map (Emit \<circ> AoiEntered) (filter (\<lambda>i. i \<notin> set (aoi_nodes e)) ?cur)
       @ map (Emit \<circ> AoiLeft) (filter (\<lambda>i. i \<notin> set ?cur) (aoi_nodes e)) @ pre
       @ (if connection_loss e \<and> ?c = [] then [Emit (AllConnectionsLost (self_id e))] else []) @ post, e')"
    and q: "quiet pre" "quiet post" and e': "aoi_nodes e' = ?cur" "engine_ok e \<longrightarrow> engine_ok e'"
    using tick_result [OF refl refl refl, where active = active and e = e and env = env and now = now and d = d] by blast
  have d: "distinct ?cur" "distinct (aoi_nodes e)"
    using assms by (auto simp: engine_ok_def intro!: in_range_distinct tick_store_ok)
  define tail where "tail = pre @ (if connection_loss e \<and> ?c = [] then [Emit (AllConnectionsLost (self_id e))] else []) @ post"
  have "aoi_replay tail A = Some A" for A by (simp add: tail_def aoi_replay_append aoi_replay_quiet q)
  then have "aoi_replay ((map (Emit \<circ> AoiEntered) (filter (\<lambda>i. i \<notin> set (aoi_nodes e)) ?cur)
       @ map (Emit \<circ> AoiLeft) (filter (\<lambda>i. i \<notin> set ?cur) (aoi_nodes e))) @ tail) (set (aoi_nodes e)) = Some (set ?cur)"
    unfolding aoi_replay_append [of _ tail] aoi_transition [OF d(2,1)] by simp
  then show "aoi_replay (fst (tick env now d active e)) (set (aoi_nodes e)) = Some (set (aoi_nodes (snd (tick env now d active e))))"
    unfolding t fst_conv snd_conv e'(1) tail_def append_assoc .
  show "engine_ok (snd (tick env now d active e))" using t e'(2) assms by simp
qed

lemma engine_step_view:
  assumes "engine_ok e" and "engine_step env x (e, gs) = (out, e', gs')"
  shows "app_view x out (set (aoi_nodes e)) = Some (set (aoi_nodes e'))" and "engine_ok e'"
proof -
  have "app_view x out (set (aoi_nodes e)) = Some (set (aoi_nodes e')) \<and> engine_ok e'"
  proof (cases x)
    case (NetworkOp g now i data)
    have "same_view e e' \<and> quiet out"
      using assms(2) NetworkOp network_event_view [of env now i data e] by (auto simp: network_task_def split: if_splits prod.splits)
    with assms(1) NetworkOp show ?thesis by (simp add: app_view_def aoi_replay_quiet same_view_def)
  next
    case (TickOp g now d active)
    with assms tick_aoi [OF assms(1), of env now d active] show ?thesis
      by (auto simp: app_view_def tick_task_def split: if_splits prod.splits)
  next
    case (DisconnectedOp active)
    with assms show ?thesis
      by (auto simp: app_view_def notify_peer_disconnected_def aoi_replay_quiet split: option.splits)
  next
    case (LeaveOp peers)
    with assms show ?thesis by (auto simp: app_view_def prepare_leave_def Let_def engine_ok_def)
  next
    case (RunOp ns ts ctx)
    with assms show ?thesis
      by (auto simp: app_view_def run_session_def Let_def engine_ok_def split: option.splits sum.splits prod.splits)
  qed
  then show "app_view x out (set (aoi_nodes e)) = Some (set (aoi_nodes e'))" "engine_ok e'" by auto
qed

lemma engine_run_view:
  "engine_ok (fst s) \<Longrightarrow> engine_run env xs s (Some (set (aoi_nodes (fst s)))) = (s', A) \<Longrightarrow>
     A = Some (set (aoi_nodes (fst s'))) \<and> engine_ok (fst s')"
proof (induction xs arbitrary: s)
  case Nil
  then show ?case by auto
next
  case (Cons x xs)
  obtain e gs where s: "s = (e, gs)" by (cases s)
  obtain out e1 gs1 where st: "engine_step env x s = (out, e1, gs1)" by (metis prod_cases3)
  note v = engine_step_view [OF Cons.prems(1) [unfolded s fst_conv] st [unfolded s]]
  show ?case using Cons.IH [of "(e1, gs1)"] Cons.prems(2) v st by (simp add: s)
qed

section \<open>Generations\<close>

definition gens_ok :: "nat \<Rightarrow> 'p engine \<times> nat list \<Rightarrow> bool" where
  "gens_ok n s \<longleftrightarrow> run_generation (fst s) = n \<and> sorted_wrt (<) (snd s) \<and> (\<forall>g \<in> set (snd s). g \<le> n)
     \<and> (n \<in> set (snd s) \<longrightarrow> state (fst s) \<noteq> Idle)"

lemma tick_generation: "run_generation (snd (tick env now d active e)) = run_generation e"
  by (rule tick_result [OF refl refl refl, where active = active and e = e and env = env and now = now and d = d]) auto

lemma tick_state: "state (snd (tick env now d active e)) = Idle \<longleftrightarrow> state e = Idle"
proof -
  have "state (snd (step_connections active e)) = Idle \<longleftrightarrow> state e = Idle"
    using step_connections_view(1) [of e active] by (simp add: same_view_def)
  then have "state (snd (step_aoi env now d c (snd (step_connections active e)))) = Idle \<longleftrightarrow> state e = Idle" for c
    by (simp add: step_aoi_def Let_def)
  then show ?thesis
    using conjunct2 [OF reorder_flush_view [of env now]] by (simp add: tick_def Let_def case_prod_beta same_view_def)
qed

lemma sorted_last_max: "sorted_wrt (<) (xs :: nat list) \<Longrightarrow> x \<in> set xs \<Longrightarrow> \<forall>y \<in> set xs. y \<le> x \<Longrightarrow> last xs = x"
proof (induction xs)
  case (Cons a xs)
  then show ?case by (cases "x = a") (auto simp: not_le [symmetric] split: if_splits)
qed simp

lemma engine_step_gens:
  assumes "gens_ok n s" and "n + 1 < 2 ^ 64" and "engine_step env x s = (out, s')"
  shows "gens_ok n s' \<or> gens_ok (Suc n) s'"
proof -
  obtain e gs where s: "s = (e, gs)" by (cases s)
  have w: "wrap64 (n + 1) = Suc n" using assms(2) by (simp add: wrap64_def)
  show ?thesis
  proof (cases x)
    case (NetworkOp g now i data)
    with assms s network_event_view [of env now i data e] show ?thesis
      by (auto simp: gens_ok_def network_task_def same_view_def split: if_splits prod.splits)
  next
    case (TickOp g now d active)
    with assms s tick_generation [of env now d active e] tick_state [of env now d active e] show ?thesis
      by (auto simp: gens_ok_def tick_task_def split: if_splits prod.splits)
  next
    case (LeaveOp peers)
    then have "s' = (snd (prepare_leave peers e), gs)" using assms(3) s by simp
    then show ?thesis using assms(1) w s by (fastforce simp: gens_ok_def prepare_leave_def Let_def)
  next
    case (RunOp ns ts ctx)
    have "run_generation (snd (run_session ns ts ctx e)) = Suc n" "state (snd (run_session ns ts ctx e)) = Running ctx"
      "fst (run_session ns ts ctx e) = Inr g \<Longrightarrow> g = Suc n" for g
      using assms(1) w s by (auto simp: run_session_def gens_ok_def Let_def split: option.splits sum.splits)
    with RunOp assms(1,3) s show ?thesis
      by (auto simp: gens_ok_def sorted_wrt_append le_SucI less_Suc_eq_le split: prod.splits sum.splits)
  qed (use assms s in auto)
qed

lemma engine_run_gens:
  "gens_ok n s \<Longrightarrow> n + length xs < 2 ^ 64 \<Longrightarrow> engine_run env xs s A = (s', A') \<Longrightarrow> \<exists>m. gens_ok m s'"
proof (induction xs arbitrary: n s A)
  case Nil
  then show ?case by auto
next
  case (Cons x xs)
  obtain out s1 where st: "engine_step env x s = (out, s1)" by (cases "engine_step env x s")
  have "gens_ok n s1 \<or> gens_ok (Suc n) s1"
    by (rule engine_step_gens [OF Cons.prems(1) _ st]) (use Cons.prems(2) in simp)
  then show ?case using Cons.IH [of n s1] Cons.IH [of "Suc n" s1] Cons.prems(2,3) st by auto
qed

section \<open>Properties\<close>

text \<open>
  Property C28. The AOI event stream refines the engine's AOI set: an application that starts with the
  empty set, empties it when it leaves a room and applies the entered and left events in order has exactly
  the engine's set at every point, and no event ever contradicts its set (nobody enters twice, nobody
  leaves who is not in).
\<close>

theorem aoi_events_refine_set:
  "snd (engine_run env xs (engine_new st, []) (Some {})) =
     Some (set (aoi_nodes (fst (fst (engine_run env xs (engine_new st, []) (Some {}))))))"
proof -
  have "engine_ok (engine_new st :: 'a engine)" "aoi_nodes (engine_new st :: 'a engine) = []"
    by (simp_all add: engine_ok_def engine_new_def)
  then show ?thesis
    using engine_run_view [of "(engine_new st :: 'a engine, [])" env xs] by (metis fst_conv list.set(1) prod.collapse)
qed

text \<open>
  Property C33. Only the current session acts: in every history of joins, leaves, task turns and
  notifications, a network or tick turn started by a session has an effect, or changes anything, only if
  that session is the last one started and its room has not been left. (Fewer than \<open>2 ^ 64\<close> operations,
  since the generation counter is a \<open>u64\<close>.)
\<close>

theorem only_current_session_acts:
  assumes "length xs < 2 ^ 64" and "engine_run env xs (engine_new st, []) A = ((e, gs), A')" and "g \<in> set gs"
    and "network_task env g now from data e \<noteq> ([], e) \<or> tick_task env g now d active e \<noteq> ([], e)"
  shows "g = last gs \<and> state e \<noteq> Idle"
proof -
  have "gens_ok 0 (engine_new st :: 'a engine, [])" by (simp add: gens_ok_def engine_new_def)
  then obtain m where m: "gens_ok m (e, gs)" using engine_run_gens [OF _ _ assms(2)] assms(1) by force
  have "run_generation e = g" using assms(4) by (auto simp: network_task_def tick_task_def split: if_splits)
  with m assms(3) show ?thesis using sorted_last_max [of gs g] by (auto simp: gens_ok_def)
qed

definition demo_env :: "unit engine_env" where
  "demo_env = \<lparr>ee_ser = \<lambda>_. None, ee_deser = \<lambda>_. None, ee_strategies = [], ee_tick = \<lambda>_. [], ee_on_disconnected = \<lambda>_. [],
     ee_json = \<lambda>_. [], ee_position_payload = \<lambda>_. [], ee_origin = (), ee_within = \<lambda>_ _. True, ee_sync_pos = \<lambda>_. None,
     ee_vector = \<lambda>_. None\<rparr>"

definition demo_running :: "unit engine" where
  "demo_running = (engine_new mist_stats_new)\<lparr>run_generation := 2, state := Running \<lparr>rc_id = 1, rc_overlay = None\<rparr>\<rparr>"

theorem only_current_session_acts_witness: "(2::nat) = last [2] \<and> state demo_running \<noteq> Idle"
proof (rule only_current_session_acts [where env = demo_env and d = 0 and active = "[]" and now = 0 and data = "[]" and A = None and A' = None])
  show "engine_run demo_env [LeaveOp [], RunOp None (Inr ()) \<lparr>rc_id = 1, rc_overlay = None\<rparr>] (engine_new mist_stats_new, []) None = ((demo_running, [2]), None)"
    by (simp add: run_session_def prepare_leave_def engine_new_def demo_running_def Let_def wrap64_def loss_reset_def node_store_new_def)
  show "network_task demo_env 2 0 (NodeId ''x'') [] demo_running \<noteq> ([], demo_running)
      \<or> tick_task demo_env 2 0 0 [] demo_running \<noteq> ([], demo_running)"
    by (simp add: network_task_def demo_running_def process_network_event_def demo_env_def)
qed simp_all

text \<open>
  A tick forgets exactly the silent nodes: a node is known after a tick if and only if it was
  known before and is connected (and the expiry is not zero) or was heard from within the expiry time; its position is kept.
\<close>

lemma tick_forgets_exactly:
  assumes "store_ok s"
  shows "hm_get (nodes (tick_store now d connected s)) i =
    (if i \<in> set connected \<and> 0 < d \<or> (\<exists>t. hm_get (last_updated s) i = Some t \<and> now - t < d)
     then hm_get (nodes s) i else None)"
proof -
  have t: "store_ok (fold (\<lambda>i s. snd (store_touch_node now i s)) connected s)"
    and n: "nodes (fold (\<lambda>i s. snd (store_touch_node now i s)) connected s) = nodes s"
    and l: "hm_get (last_updated (fold (\<lambda>i s. snd (store_touch_node now i s)) connected s)) i =
        (if i \<in> set connected \<and> hm_get (nodes s) i \<noteq> None then Some now else hm_get (last_updated s) i)"
    using touch_all [OF assms, of now connected] by auto
  have "hm_get (nodes s) i = None \<longleftrightarrow> hm_get (last_updated s) i = None" using assms by (simp add: store_ok_def)
  then show ?thesis unfolding tick_store_def retain_recent_get(2) [OF t] l n by (auto split: option.splits)
qed

theorem tick_forgets_exactly_witness:
  "hm_get (nodes (tick_store 100 10 [NodeId ''b''] \<lparr>nodes = [(NodeId ''a'', \<lparr>ni_id = NodeId ''a'', ni_position = ()\<rparr>)],
     last_updated = [(NodeId ''a'', 0)]\<rparr>)) (NodeId ''a'') = None"
  by (subst tick_forgets_exactly) (simp_all add: store_ok_def hm_ok_def hm_get_def)

end
