(* ===== verification/Engine_Delivery.thy ===== *)
theory Engine_Delivery
  imports Engine
begin

text \<open>
  A stream between two engines: the frames that the sender's router wraps for one destination, and what
  the receiving engine hands to its application when relayed, reordered and duplicated copies of them
  arrive. These lemmas join the sequence counters, the duplicate filter, the reorder buffer and the
  handling of network events; the end-to-end theorem is in the root theory.
\<close>

section \<open>Sender\<close>

text \<open>The frames of a list of sends (message identifier, time, payload), all reliable and ordered.\<close>

fun send_stream ::
  "(overlay_envelope \<Rightarrow> bytes option) \<Rightarrow> node_id \<Rightarrow> (nat \<times> instant \<times> bytes) list \<Rightarrow> overlay_router
   \<Rightarrow> overlay_action result list \<times> overlay_router" where
  "send_stream ser to [] r = ([], r)"
| "send_stream ser to ((rid, now, data) # ms) r =
     (let (res, r) = wrap_data_checked ser rid now to data ReliableOrdered (\<lambda>_. Inr ()) r;
          (out, r) = send_stream ser to ms r
      in (res # out, r))"

definition stream_envelope :: "node_id \<Rightarrow> node_id \<Rightarrow> nat \<Rightarrow> nat \<Rightarrow> nat \<times> instant \<times> bytes \<Rightarrow> overlay_envelope" where
  "stream_envelope from to max_hops k m = with_seq k (envelope_new (fst m) from to max_hops (Raw (snd (snd m))))"

definition stream_sequenced :: "node_id \<Rightarrow> (nat \<times> instant \<times> bytes) list \<Rightarrow> overlay_router \<Rightarrow> bool" where
  "stream_sequenced to ms r \<longleftrightarrow>
     (\<forall>m \<in> set ms. is_sequenced to ReliableOrdered (send_lane_classify (Raw (snd (snd m))) (is_broadcast to)) r)"

lemma remember_outgoing_fields [simp]:
  "seq_counters (remember_outgoing now e r) = seq_counters r" "local_node (remember_outgoing now e r) = local_node r"
  "router_hops (remember_outgoing now e r) = router_hops r" "transfer (remember_outgoing now e r) = transfer r"
  by (simp_all add: remember_outgoing_def)

lemma wrap_data_frame:
  assumes "hm_ok (seq_counters r)" and "set (map fst (seq_counters r)) \<subseteq> {to}" and "counter_of to (seq_counters r) < u64_max"
    and "is_sequenced to ReliableOrdered (send_lane_classify (Raw data) (is_broadcast to)) r"
    and "wrap_data_checked ser rid now to data ReliableOrdered (\<lambda>_. Inr ()) r = (Inr act, r')"
  shows "\<exists>hop encoded m lane. act = SendMessage hop encoded m lane \<and>
      ser (stream_envelope (local_node r) to (router_hops r) (counter_of to (seq_counters r) + 1) (rid, now, data)) = Some encoded"
    and "hm_ok (seq_counters r')" and "set (map fst (seq_counters r')) \<subseteq> {to}"
    and "counter_of to (seq_counters r') = counter_of to (seq_counters r) + 1"
    and "local_node r' = local_node r" and "router_hops r' = router_hops r" and "transfer r' = transfer r"
proof -
  let ?k = "counter_of to (seq_counters r) + 1" and ?lane = "send_lane_classify (Raw data) (is_broadcast to)"
  let ?build = "build_frame ser rid to None data ReliableOrdered ?lane (\<lambda>_. Inr ()) Inr r"
  have seq: "next_seq to (seq_counters r) = ?k"
    using assms(3) by (auto simp: next_seq_def counter_of_def wrap64_def u64_max_def split: option.splits)
  obtain e where b: "?build ?k = Inr (act, e)"
    using assms(4,5) seq
    by (cases "?build ?k") (auto simp: wrap_data_checked_def dispatch_data_def dispatch_data_via_def with_next_seq_def Let_def split: prod.splits)
  have w: "with_next_seq now to ?build (seq_counters r) =
      (Inr (act, e), hm_insert to \<lparr>counter_value = ?k, last_used = now\<rparr> (seq_counters r))"
    by (rule with_next_seq_success [of _ "{to}"]) (use assms(1-3) b in \<open>auto simp: SEQ_COUNTER_MAX_DESTINATIONS_def\<close>)
  have r': "r' = remember_outgoing now e (r\<lparr>seq_counters := hm_insert to \<lparr>counter_value = ?k, last_used = now\<rparr> (seq_counters r)\<rparr>)"
    using assms(4,5) w by (simp add: wrap_data_checked_def dispatch_data_def dispatch_data_via_def Let_def)
  show "\<exists>hop encoded m lane. act = SendMessage hop encoded m lane \<and>
      ser (stream_envelope (local_node r) to (router_hops r) ?k (rid, now, data)) = Some encoded"
    using b by (auto simp: build_frame_def create_send_action_def stream_envelope_def Let_def split: option.splits)
  show "hm_ok (seq_counters r')" "counter_of to (seq_counters r') = ?k"
    "local_node r' = local_node r" "router_hops r' = router_hops r" "transfer r' = transfer r"
    using assms(1) by (simp_all add: r' counter_of_def)
  show "set (map fst (seq_counters r')) \<subseteq> {to}"
    unfolding r' remember_outgoing_fields using assms(2) by (simp add: hm_keys_insert del: set_map)
qed

lemma is_sequenced_cong: "transfer r' = transfer r \<Longrightarrow> is_sequenced to m lane r' = is_sequenced to m lane r"
  by (simp add: is_sequenced_def)

lemma send_stream_frames:
  assumes "hm_ok (seq_counters r)" and "set (map fst (seq_counters r)) \<subseteq> {to}"
    and "counter_of to (seq_counters r) + length ms \<le> u64_max" and "stream_sequenced to ms r"
    and "send_stream ser to ms r = (map Inr acts, r')" and "i < length ms"
  shows "\<exists>hop encoded m lane. acts ! i = SendMessage hop encoded m lane \<and>
    ser (stream_envelope (local_node r) to (router_hops r) (counter_of to (seq_counters r) + 1 + i) (ms ! i)) = Some encoded"
  using assms
proof (induction ms arbitrary: r acts i)
  case Nil
  then show ?case by simp
next
  case (Cons x ms)
  obtain rid now data where x: "x = (rid, now, data)" by (cases x) auto
  obtain res r1 where w: "wrap_data_checked ser rid now to data ReliableOrdered (\<lambda>_. Inr ()) r = (res, r1)" by fastforce
  obtain act acts' where acts: "acts = act # acts'" and res: "res = Inr act" and rest: "send_stream ser to ms r1 = (map Inr acts', r')"
    using Cons.prems(5) w by (cases acts) (auto simp: x split: prod.splits)
  note f = wrap_data_frame [OF Cons.prems(1,2) _ _ w [unfolded res]]
  have lt: "counter_of to (seq_counters r) < u64_max" using Cons.prems(3) by simp
  have seq: "is_sequenced to ReliableOrdered (send_lane_classify (Raw data) (is_broadcast to)) r"
    using Cons.prems(4) by (simp add: stream_sequenced_def x)
  show ?case
  proof (cases i)
    case 0
    then show ?thesis using f(1) [OF lt seq] by (simp add: acts x)
  next
    case (Suc j)
    have "stream_sequenced to ms r1"
      using Cons.prems(4) is_sequenced_cong [OF f(7) [OF lt seq]] by (simp add: stream_sequenced_def)
    moreover have "counter_of to (seq_counters r1) + length ms \<le> u64_max" using f(4) [OF lt seq] Cons.prems(3) by simp
    ultimately show ?thesis
      using Cons.IH [OF f(2,3) [OF lt seq] _ _ rest, of j] f(4,5,6) [OF lt seq] Cons.prems(6) Suc by (simp add: acts)
  qed
qed

section \<open>The receiver's duplicate filter and reorder buffer\<close>

text \<open>After the messages of \<open>R\<close> the filter holds exactly their identifiers, all recorded since \<open>t0\<close>.\<close>

definition seen_exact :: "node_id \<Rightarrow> (nat \<Rightarrow> nat) \<Rightarrow> instant \<Rightarrow> nat set \<Rightarrow> overlay_seen_cache \<Rightarrow> bool" where
  "seen_exact from ids t0 R c \<longleftrightarrow> ttl c = OVERLAY_SEEN_TTL \<and> max_entries c = OVERLAY_SEEN_MAX_ENTRIES \<and> hm_ok (entries c)
     \<and> fst ` set (entries c) = (\<lambda>k. (from, ids k)) ` R \<and> (\<forall>p \<in> set (entries c). t0 \<le> snd p)"

lemma seen_exact_step:
  assumes "seen_exact from ids t0 R c" and "finite R" and "card R < OVERLAY_SEEN_MAX_ENTRIES"
    and "inj_on ids (insert k R)" and "ids k \<noteq> 0" and "t0 \<le> now" and "now < t0 + OVERLAY_SEEN_TTL"
  shows "fst (overlay_check_and_insert now from (ids k) c) \<longleftrightarrow> k \<notin> R"
    and "seen_exact from ids t0 (insert k R) (snd (overlay_check_and_insert now from (ids k) c))"
proof -
  have c: "ttl c = OVERLAY_SEEN_TTL" "max_entries c = OVERLAY_SEEN_MAX_ENTRIES" "hm_ok (entries c)"
    "fst ` set (entries c) = (\<lambda>k. (from, ids k)) ` R" "\<forall>p \<in> set (entries c). t0 \<le> snd p"
    using assms(1) by (auto simp: seen_exact_def)
  have "\<forall>p \<in> set (entries c). now - snd p < OVERLAY_SEEN_TTL"
    using c(5) assms(6,7) by (auto simp: OVERLAY_SEEN_TTL_def)
  then have sweep: "ttl_sweep now c = c" by (simp add: ttl_sweep_def c(1) hm_retain_def filter_id_conv case_prod_beta)
  have "length (entries c) = card (fst ` set (entries c))"
    using c(3) by (metis distinct_card hm_ok_def length_map set_map)
  also have "\<dots> \<le> card R" unfolding c(4) using assms(2) by (rule card_image_le)
  finally have noev: "evict_loop (max_entries c) (entries c) = entries c"
    using assms(3) c(2) by (intro evict_loop_noop) simp
  have mem: "hm_contains (entries c) (from, ids k) \<longleftrightarrow> k \<in> R"
    unfolding hm_contains_def list.set_map c(4) using assms(4) by (auto dest: inj_onD)
  have eq: "overlay_check_and_insert now from (ids k) c =
      (if k \<in> R then (False, c) else (True, c\<lparr>entries := hm_insert (from, ids k) now (entries c)\<rparr>))"
    using assms(5) by (simp add: overlay_check_eq ttl_record_def sweep mem noev)
  show "fst (overlay_check_and_insert now from (ids k) c) \<longleftrightarrow> k \<notin> R" by (simp add: eq)
  show "seen_exact from ids t0 (insert k R) (snd (overlay_check_and_insert now from (ids k) c))"
  proof (cases "k \<in> R")
    case True
    then show ?thesis using assms(1) by (simp add: eq insert_absorb)
  next
    case False
    have "set (hm_insert (from, ids k) now (entries c)) = insert ((from, ids k), now) (set (entries c))"
      using False mem by (simp add: hm_insert_fresh)
    then show ?thesis using False c assms(6) by (auto simp: eq seen_exact_def)
  qed
qed

definition stream_at :: "node_id \<Rightarrow> (nat \<Rightarrow> 'c) \<Rightarrow> instant \<Rightarrow> nat set \<Rightarrow> 'c reorder_buffer \<Rightarrow> 'c list \<Rightarrow> bool" where
  "stream_at from f t0 R b out \<longleftrightarrow> max_per_source b = REORDER_MAX_PER_SOURCE \<and> max_sources b = REORDER_MAX_SOURCES
     \<and> gap_timeout b = REORDER_GAP_TIMEOUT
     \<and> (sources b = [] \<and> R = {} \<and> out = []
        \<or> (\<exists>s. sources b = [(from, s)] \<and> src_ok REORDER_MAX_PER_SOURCE s \<and> received f t0 R s out))"

lemma stream_at_step:
  assumes "stream_at from f t0 R b out" and "finite R" and "card R < REORDER_MAX_PER_SOURCE" and "k \<notin> R" and "0 < k" "k < u64_max"
    and "t0 \<le> now" "now < t0 + REORDER_GAP_TIMEOUT" and "accept_at from k (f k) now b = (released, b')"
  shows "stream_at from f t0 (insert k R) b' (out @ released)"
proof -
  have b: "max_per_source b = REORDER_MAX_PER_SOURCE" "max_sources b = REORDER_MAX_SOURCES" "gap_timeout b = REORDER_GAP_TIMEOUT"
    using assms(1) by (auto simp: stream_at_def)
  have noev: "evict_sources_if_needed from b = b"
    using assms(1) by (auto simp: stream_at_def evict_sources_if_needed_def hm_contains_def REORDER_MAX_SOURCES_def)
  define s where "s = source_of now from b"
  have s: "src_ok REORDER_MAX_PER_SOURCE s" "received f t0 R s out"
  proof (atomize (full), cases "sources b = []")
    case True
    then have "R = {}" "out = []" using assms(1) by (auto simp: stream_at_def)
    with True show "src_ok REORDER_MAX_PER_SOURCE s \<and> received f t0 R s out"
      by (simp add: s_def source_of_def received_def source_state_new_def src_ok_def u64_max_def)
  next
    case False
    with assms(1) show "src_ok REORDER_MAX_PER_SOURCE s \<and> received f t0 R s out"
      by (auto simp: stream_at_def s_def source_of_def hm_get_def)
  qed
  obtain s' where acc: "accept_seq REORDER_MAX_PER_SOURCE REORDER_GAP_TIMEOUT k (f k) now s = (s', released)"
    and b': "b' = b\<lparr>sources := hm_insert from s' (sources b)\<rparr>"
    using assms(5,9) by (auto simp: accept_at_seq Let_def noev b s_def prod_eq_iff)
  have "received f t0 (insert k R) s' (out @ released)"
    by (rule received_step [OF s assms(4-6) assms(2,3) assms(7,8) acc])
  moreover have "src_ok REORDER_MAX_PER_SOURCE s'"
    using accept_seq_ok [OF s(1), of k REORDER_GAP_TIMEOUT "f k" now] acc assms(5,6) by simp
  moreover have "hm_insert from s' (sources b) = [(from, s')]"
    using assms(1) by (auto simp: stream_at_def hm_insert_def)
  ultimately show ?thesis using b by (auto simp: stream_at_def b')
qed

lemma stream_at_out: "stream_at from f t0 R b out \<Longrightarrow> \<exists>m. out = map f [1..<m]"
  by (auto simp: stream_at_def received_def intro: exI [of _ 0])

lemma stream_at_complete:
  assumes "stream_at from f t0 {1..n} b out"
  shows "out = map f [1..<Suc n]"
proof (cases "n = 0")
  case True
  with assms show ?thesis by (auto simp: stream_at_def received_def src_ok_def)
next
  case False
  then obtain s where s: "src_ok REORDER_MAX_PER_SOURCE s" "received f t0 {1..n} s out" using assms by (auto simp: stream_at_def)
  have "1 \<le> next_expected s" using s(1) by (simp add: src_ok_def)
  moreover have "{1..<next_expected s} \<subseteq> {1..n}" "next_expected s \<notin> {1..n}" using s(2) by (auto simp: received_def)
  then have "\<not> Suc n < next_expected s" by (metis Suc_n_not_le_n atLeastAtMost_iff atLeastLessThan_iff le_add1 plus_1_eq_Suc subsetD)
  ultimately have "next_expected s = Suc n" using \<open>next_expected s \<notin> {1..n}\<close> by auto
  with s(2) show ?thesis by (simp add: received_def)
qed

section \<open>The receiving engine\<close>

fun receive_run :: "'p engine_env \<Rightarrow> (instant \<times> node_id \<times> bytes) list \<Rightarrow> 'p engine \<Rightarrow> effect list \<times> 'p engine" where
  "receive_run env [] e = ([], e)"
| "receive_run env ((now, from, data) # xs) e =
     (let (out, e) = process_network_event env now from data e; (outs, e) = receive_run env xs e in (out @ outs, e))"

text \<open>The raw messages of a source that the application is handed, in order.\<close>

definition raw_from :: "node_id \<Rightarrow> effect list \<Rightarrow> bytes list" where
  "raw_from i es = List.map_filter (\<lambda>x. case x of Emit (RawMessage j p) \<Rightarrow> if j = i then Some p else None | _ \<Rightarrow> None) es"

lemma raw_from_simps [simp]:
  "raw_from i [] = []" "raw_from i (x @ y) = raw_from i x @ raw_from i y" "raw_from i (map ReceivedAction acts) = []"
  "raw_from i (map (Emit \<circ> RawMessage i) ps) = ps"
  by (simp_all add: raw_from_def map_filter_def, induction ps) simp_all

lemma deliver_raw: "deliver_contents env now from (map Raw ps) e = (map (Emit \<circ> RawMessage from) ps, e)"
  by (induction ps) simp_all

definition listening ::
  "node_id \<Rightarrow> node_id \<Rightarrow> (nat \<Rightarrow> nat) \<Rightarrow> (nat \<Rightarrow> bytes) \<Rightarrow> instant \<Rightarrow> nat set \<Rightarrow> bytes list \<Rightarrow> 'p engine \<Rightarrow> bool" where
  "listening self from ids p t0 R out e \<longleftrightarrow> self_id e = self
     \<and> (\<exists>ov. engine_overlay e = Some ov \<and> local_node ov = self \<and> seen_exact from ids t0 R (seen_envelopes ov)
           \<and> stream_at from (Raw \<circ> p) t0 R (inbound ov) (map Raw out))"

lemma engine_overlay_simps [simp]:
  "engine_overlay (set_overlay r e) = (if running_context e = None then None else Some r)"
  "engine_overlay (touch_node now i e) = engine_overlay e" "engine_overlay (e\<lparr>stats := st\<rparr>) = engine_overlay e"
  "running_context (set_overlay r e) = None \<longleftrightarrow> running_context e = None" "running_context (touch_node now i e) = running_context e"
  "running_context (e\<lparr>stats := st\<rparr>) = running_context e"
  "self_id (set_overlay r e) = self_id e" "self_id (touch_node now i e) = self_id e"
  by (auto simp: engine_overlay_def running_context_def set_overlay_def touch_node_def split: engine_state.splits)

lemma engine_overlay_running: "engine_overlay e = Some ov \<Longrightarrow> running_context e \<noteq> None"
  by (cases "running_context e") (auto simp: engine_overlay_def)

lemma learn_route_fields [simp]:
  "local_node (learn_route i j r) = local_node r" "seen_envelopes (learn_route i j r) = seen_envelopes r"
  "inbound (learn_route i j r) = inbound r"
  by (simp_all add: learn_route_def)

lemma mark_seen_inbound [simp]: "inbound (snd (mark_seen now e r)) = inbound r"
  by (simp add: mark_seen_def case_prod_beta)

text \<open>The arrival of an envelope for this node, written out.\<close>

lemma arrival:
  fixes e :: "'p engine"
  assumes "ee_deser env data = Some x" and "engine_overlay e = Some ov" and "env_to x = self_id e"
    and "mark_seen now x (learn_route (env_from x) nbr ov) = (fresh, ov1)"
  obtains acts e2 where "engine_overlay e2 \<noteq> None" and "self_id e2 = self_id e"
    and "process_network_event env now nbr data e =
      (if fresh then
         (let r = reorder_inbound now (env_from x) (env_seq x) (content x) ov1;
              d = deliver_contents env now (env_from x) (fst r) (set_overlay (snd r) e2)
          in (map ReceivedAction acts @ fst d, snd d))
       else (map ReceivedAction acts, set_overlay ov1 e2))"
proof -
  let ?ov = "learn_route (env_from x) nbr ov"
  define e1 where "e1 = touch_node now (env_from x) (touch_node now nbr (set_overlay ?ov e))"
  have e1: "engine_overlay e1 = Some ?ov" "self_id e1 = self_id e"
    using engine_overlay_running [OF assms(2)] by (simp_all add: e1_def)
  obtain res ov' st where h: "handle_envelope (ee_ser env) (ee_strategies env) now x nbr (?ov, stats e1) = (res, ov', st)"
    by (metis prod_cases3)
  have ov': "ov' = ov1" and sd: "should_deliver res = fresh"
    using handle_envelope_state [of "ee_ser env" "ee_strategies env" now x nbr ?ov "stats e1"] h assms(4) by simp_all
  have twice: "set_overlay b (set_overlay a y) = set_overlay b y" for a b and y :: "'p engine"
    by (simp add: set_overlay_def split: engine_state.splits)
  have "process_network_event env now nbr data e =
      (if should_deliver res then
         (let r = reorder_inbound now (env_from x) (env_seq x) (content x) ov';
              d = deliver_contents env now (env_from x) (fst r) (set_overlay (snd r) (e1\<lparr>stats := st\<rparr>))
          in (map ReceivedAction (actions res) @ fst d, snd d))
       else (map ReceivedAction (actions res), set_overlay ov' (e1\<lparr>stats := st\<rparr>)))"
    unfolding process_network_event_def assms(1) option.case Let_def assms(2) e1_def [symmetric]
    using e1 h assms(3) by (simp add: case_prod_beta twice)
  then show thesis
    using that [of "e1\<lparr>stats := st\<rparr>" "actions res"] e1 by (simp add: ov' sd Let_def)
qed

lemma listening_step:
  assumes l: "listening self from ids p t0 R out e" and R: "finite R" "card (insert k R) \<le> REORDER_MAX_PER_SOURCE"
    and ids: "inj_on ids (insert k R)" "ids k \<noteq> 0" and k: "0 < k" "k < u64_max"
    and t: "t0 \<le> now" "now < t0 + REORDER_GAP_TIMEOUT" and ne: "from \<noteq> self"
    and x: "ee_deser env data = Some x" "env_from x = from" "env_to x = self" "msg_id x = ids k" "env_seq x = k" "content x = Raw (p k)"
  shows "listening self from ids p t0 (insert k R) (out @ raw_from from (fst (process_network_event env now nbr data e)))
    (snd (process_network_event env now nbr data e))"
proof -
  obtain ov where e: "self_id e = self" and ov: "engine_overlay e = Some ov" "local_node ov = self"
      "seen_exact from ids t0 R (seen_envelopes ov)" "stream_at from (Raw \<circ> p) t0 R (inbound ov) (map Raw out)"
    using l by (auto simp: listening_def)
  have bounds: "now < t0 + OVERLAY_SEEN_TTL" "card R < OVERLAY_SEEN_MAX_ENTRIES"
    using t(2) R(2) card_insert_le [of R k] by (simp_all add: OVERLAY_SEEN_TTL_def REORDER_GAP_TIMEOUT_def OVERLAY_SEEN_MAX_ENTRIES_def REORDER_MAX_PER_SOURCE_def)
  define ov1 where "ov1 = snd (mark_seen now x (learn_route from nbr ov))"
  have seen: "fst (mark_seen now x (learn_route from nbr ov)) \<longleftrightarrow> k \<notin> R"
    "seen_exact from ids t0 (insert k R) (seen_envelopes ov1)" "local_node ov1 = self" "inbound ov1 = inbound ov"
    using seen_exact_step [OF ov(3) R(1) bounds(2) ids t(1) bounds(1)] x ne ov(2)
    by (simp_all add: ov1_def mark_seen_def mark_seen_cache case_prod_beta)
  obtain acts e2 where e2: "engine_overlay e2 \<noteq> None" "self_id e2 = self"
    and ev: "process_network_event env now nbr data e =
      (if k \<notin> R then
         (let r = reorder_inbound now from k (Raw (p k)) ov1;
              d = deliver_contents env now from (fst r) (set_overlay (snd r) e2)
          in (map ReceivedAction acts @ fst d, snd d))
       else (map ReceivedAction acts, set_overlay ov1 e2))"
  proof -
    have "mark_seen now x (learn_route (env_from x) nbr ov) = (k \<notin> R, ov1)" using seen(1) x(2) by (simp add: ov1_def prod_eq_iff)
    from arrival [OF x(1) ov(1) _ this] show thesis using that x e by metis
  qed
  have run: "running_context e2 \<noteq> None" using e2(1) engine_overlay_running by blast
  show ?thesis
  proof (cases "k \<in> R")
    case True
    then show ?thesis using seen e2 run ov(4) by (simp add: ev listening_def insert_absorb)
  next
    case False
    obtain released b where acc: "accept_at from k ((Raw \<circ> p) k) now (inbound ov1) = (released, b)" by fastforce
    have st: "stream_at from (Raw \<circ> p) t0 (insert k R) b (map Raw out @ released)"
      by (rule stream_at_step [OF ov(4) R(1) _ False k t]) (use acc seen(4) R False in simp_all)
    then obtain m where "map Raw out @ released = map (Raw \<circ> p) [1..<m]" using stream_at_out by blast
    then have "released = map Raw (drop (length out) (map p [1..<m]))"
      by (metis append_eq_conv_conj drop_map length_map map_map)
    then obtain ps where ps: "released = map Raw ps" by blast
    have "reorder_inbound now from k (Raw (p k)) ov1 = (map Raw ps, ov1\<lparr>inbound := b\<rparr>)"
      using acc by (simp add: reorder_inbound_def ps)
    then have "process_network_event env now nbr data e =
        (map ReceivedAction acts @ map (Emit \<circ> RawMessage from) ps, set_overlay (ov1\<lparr>inbound := b\<rparr>) e2)"
      using False by (simp add: ev deliver_raw)
    then show ?thesis using seen e2 run st by (simp add: listening_def ps)
  qed
qed

text \<open>A relayed copy of a frame differs from it in the hop count only.\<close>

definition relayed_copy :: "(bytes \<Rightarrow> overlay_envelope option) \<Rightarrow> bytes \<Rightarrow> bytes \<Rightarrow> bool" where
  "relayed_copy deser frame data \<longleftrightarrow>
     (case (deser frame, deser data) of (Some e, Some x) \<Rightarrow> x\<lparr>hop_count := 0\<rparr> = e\<lparr>hop_count := 0\<rparr> | _ \<Rightarrow> False)"

definition stream_message :: "node_id \<Rightarrow> node_id \<Rightarrow> (nat \<Rightarrow> nat) \<Rightarrow> (nat \<Rightarrow> bytes) \<Rightarrow> nat \<Rightarrow> overlay_envelope \<Rightarrow> bool" where
  "stream_message from to ids p k x \<longleftrightarrow>
     env_from x = from \<and> env_to x = to \<and> msg_id x = ids k \<and> env_seq x = k \<and> content x = Raw (p k)"

lemma stream_message_envelope:
  assumes "deser frame = Some (stream_envelope from to h k (ids k, t, p k))" and "relayed_copy deser frame data"
  shows "\<exists>x. deser data = Some x \<and> stream_message from to ids p k x"
  using assms
  by (cases "deser data") (auto simp: relayed_copy_def stream_envelope_def with_seq_def envelope_new_def stream_message_def
      intro: overlay_envelope.equality dest: arg_cong [of _ _ env_from] arg_cong [of _ _ env_to] arg_cong [of _ _ msg_id]
        arg_cong [of _ _ env_seq] arg_cong [of _ _ content])

lemma receive_stream:
  assumes "listening self from ids p t0 R out e" and "R \<subseteq> {1..n}" and "n \<le> REORDER_MAX_PER_SOURCE"
    and "inj_on ids {1..n}" and "0 \<notin> ids ` {1..n}" and "from \<noteq> self"
    and "\<forall>(now, nbr, data) \<in> set xs. t0 \<le> now \<and> now < t0 + REORDER_GAP_TIMEOUT"
    and "length ks = length xs"
    and "\<forall>i < length xs. ks ! i \<in> {1..n} \<and> (\<exists>x. ee_deser env (snd (snd (xs ! i))) = Some x \<and> stream_message from self ids p (ks ! i) x)"
  shows "listening self from ids p t0 (R \<union> set ks) (out @ raw_from from (fst (receive_run env xs e))) (snd (receive_run env xs e))"
  using assms
proof (induction xs arbitrary: ks R out e)
  case Nil
  then show ?case by simp
next
  case (Cons a xs)
  obtain now nbr data where a: "a = (now, nbr, data)" by (cases a) auto
  obtain k ks' where ks: "ks = k # ks'" "length ks' = length xs" using Cons.prems(8) by (cases ks) auto
  have k: "k \<in> {1..n}" using Cons.prems(9) ks by auto
  obtain x where x: "ee_deser env data = Some x" "stream_message from self ids p k x"
    using Cons.prems(9) [rule_format, of 0] ks by (auto simp: a)
  let ?e = "snd (process_network_event env now nbr data e)" and ?o = "raw_from from (fst (process_network_event env now nbr data e))"
  have R: "finite R" "insert k R \<subseteq> {1..n}" using Cons.prems(2) k finite_subset by auto
  have step: "listening self from ids p t0 (insert k R) (out @ ?o) ?e"
  proof (rule listening_step [OF Cons.prems(1) R(1) _ _ _ _ _ _ _ Cons.prems(6) x(1)])
    show "card (insert k R) \<le> REORDER_MAX_PER_SOURCE"
      using card_mono [OF _ R(2)] Cons.prems(3) by simp
    show "inj_on ids (insert k R)" using Cons.prems(4) R(2) by (rule inj_on_subset)
    show "ids k \<noteq> 0" using Cons.prems(5) k by force
    show "k < u64_max" using k Cons.prems(3) by (simp add: REORDER_MAX_PER_SOURCE_def u64_max_def)
  qed (use x(2) k Cons.prems(7) in \<open>auto simp: stream_message_def a\<close>)
  have rest: "\<forall>i < length xs. ks' ! i \<in> {1..n} \<and> (\<exists>x. ee_deser env (snd (snd (xs ! i))) = Some x \<and> stream_message from self ids p (ks' ! i) x)"
    by (intro allI impI) (use Cons.prems(9) [rule_format, of "Suc _"] ks in simp)
  have times: "\<forall>(now, nbr, data) \<in> set xs. t0 \<le> now \<and> now < t0 + REORDER_GAP_TIMEOUT" using Cons.prems(7) by simp
  from Cons.IH [OF step R(2) Cons.prems(3-6) times ks(2) rest]
  show ?case by (simp add: a ks case_prod_beta)
qed

fun action_frame :: "overlay_action \<Rightarrow> bytes" where
  "action_frame (SendMessage to data m lane) = data"
| "action_frame _ = []"

text \<open>A small wire codec for concrete instances: envelopes of one-byte messages from \<open>a\<close> to \<open>b\<close>.\<close>

definition demo_stream_env :: "nat \<Rightarrow> nat \<Rightarrow> nat \<Rightarrow> 8 word \<Rightarrow> overlay_envelope" where
  "demo_stream_env i k h x = (with_seq k (envelope_new i (NodeId ''a'') (NodeId ''b'') h (Raw [x])))"

definition demo_stream_ser :: "overlay_envelope \<Rightarrow> bytes option" where
  "demo_stream_ser e =
     (case content e of
        Raw [x] \<Rightarrow>
          if e = demo_stream_env (msg_id e) (env_seq e) (hop_count e) x \<and> msg_id e < 256 \<and> env_seq e < 256 \<and> hop_count e < 256
          then Some [of_nat (msg_id e), of_nat (env_seq e), of_nat (hop_count e), x] else None
      | _ \<Rightarrow> None)"

fun demo_stream_deser :: "bytes \<Rightarrow> overlay_envelope option" where
  "demo_stream_deser [i, k, h, x] = Some (demo_stream_env (unat i) (unat k) (unat h) x)"
| "demo_stream_deser _ = None"

lemma demo_stream_codec: "demo_stream_ser e = Some data \<Longrightarrow> demo_stream_deser data = Some e"
  by (auto simp: demo_stream_ser_def unat_of_nat split: message_content.splits list.splits if_splits)

end
