(* ===== verification/Send_Queue.thy ===== *)
theory Send_Queue
  imports Send_Lanes
begin

text \<open>
  The engine's send queues (\<open>engine/action.rs\<close>): one queue per peer and connection generation, filled by
  dispatches, reservations and received frames, and emptied by a worker with at most one write in
  flight per channel. Shared objects are list indices: \<open>sq_queues\<close> are the \<open>Arc<PeerQueue>\<close>s ever made,
  \<open>sq_budgets\<close> the byte budgets. The sections a mutex protects are the atomic steps; the worker's loop is
  split at its locks and awaits, and \<open>pq_changed\<close> is the stored permit of its \<open>Notify\<close>. What the
  transport and the engine state answer at a step is a \<open>send_env\<close>. \<open>sq_log\<close> is not part of the program:
  it records what was admitted, started and handed to the transport.
\<close>

section \<open>State\<close>

record pending_send =
  ps_ctx :: nat
  ps_data :: bytes
  ps_method :: delivery_method
  ps_generation :: "nat option"
  ps_completion :: "nat option"
  ps_telemetry :: "nat option"
  ps_budget :: "nat option"
  ps_budget_wait :: "nat option"

type_synonym send_frame = "pending_send frame"

definition scheduled_send :: "(bytes \<Rightarrow> overlay_envelope option) \<Rightarrow> pending_send \<Rightarrow> send_frame" where
  "scheduled_send deser p =
     \<lparr>frame_class = from_wire deser (ps_data p), frame_unordered = (ps_method p = ReliableUnordered), frame_body = p\<rparr>"

text \<open>A started write waits for budget, is about to be checked and sent, is with the transport, or was refused.\<close>

datatype write_phase = AwaitBudget nat | ReadyToSend | InTransport | Refused mist_error

record active_write =
  aw_frame :: send_frame
  aw_bulk :: bool
  aw_phase :: write_phase

datatype worker_phase = Checking | Popping | Waiting

record send_worker =
  wk_phase :: worker_phase
  wk_writes :: "active_write list"
  wk_ordered_busy :: bool
  wk_bulk_busy :: bool

definition worker_new :: send_worker where
  "worker_new = \<lparr>wk_phase = Checking, wk_writes = [], wk_ordered_busy = False, wk_bulk_busy = False\<rparr>"

record peer_queue =
  pq_to :: node_id
  pq_generation :: "nat option"
  pq_telemetry :: queue_telemetry
  pq_frames :: "pending_send lane_queue"
  pq_running :: bool
  pq_reservations :: nat
  pq_closed :: bool
  pq_budget :: "nat option"
  pq_changed :: bool
  pq_worker :: "send_worker option"

text \<open>A future of \<open>reserve_send\<close>, or of \<open>dispatch_received_action\<close> with its frame, that holds a lease.\<close>

datatype reservation_state = RvWaiting nat | RvGranted "nat option"

record reservation =
  rv_to :: node_id
  rv_queue :: nat
  rv_ctx :: nat
  rv_generation :: "nat option"
  rv_received :: "(bytes \<times> delivery_method) option"
  rv_state :: reservation_state

datatype send_log = Admitted nat send_frame | Started nat bool send_frame | ToTransport nat bool send_frame

record send_engine =
  sq_map :: "(node_id, nat) hmap"
  sq_queues :: "peer_queue list"
  sq_budgets :: "byte_budget list"
  sq_reserved :: "(nat, reservation) hmap"
  sq_serial :: nat
  sq_write_errors :: nat
  sq_log :: "send_log list"

record send_env =
  sn_running :: "nat option"
  sn_generation :: "node_id \<Rightarrow> nat option"
  sn_transfer :: storage_transfer_config
  sn_admission :: "node_id \<Rightarrow> nat option"
  sn_deser :: "bytes \<Rightarrow> overlay_envelope option"
  sn_turn :: bool

definition on_queue :: "nat \<Rightarrow> (peer_queue \<Rightarrow> peer_queue) \<Rightarrow> send_engine \<Rightarrow> send_engine" where
  "on_queue i f s = s\<lparr>sq_queues := (sq_queues s)[i := f (sq_queues s ! i)]\<rparr>"

definition on_budget :: "nat option \<Rightarrow> (byte_budget \<Rightarrow> byte_budget) \<Rightarrow> send_engine \<Rightarrow> send_engine" where
  "on_budget b f s = (case b of None \<Rightarrow> s | Some i \<Rightarrow> s\<lparr>sq_budgets := (sq_budgets s)[i := f (sq_budgets s ! i)]\<rparr>)"

section \<open>Leases and queues\<close>

definition lease :: "peer_queue \<Rightarrow> peer_queue" where
  "lease q = q\<lparr>pq_reservations := pq_reservations q + 1\<rparr>"

definition unlease :: "peer_queue \<Rightarrow> peer_queue" where
  "unlease q = q\<lparr>pq_reservations := pq_reservations q - 1, pq_changed := True\<rparr>"

text \<open>Dropping a pending send gives its permit and its charge back.\<close>

definition release_send :: "nat \<Rightarrow> pending_send \<Rightarrow> send_engine \<Rightarrow> send_engine" where
  "release_send i p s =
     (let s = (case ps_budget p of None \<Rightarrow> s | Some pid \<Rightarrow> on_budget (pq_budget (sq_queues s ! i)) (drop_permit pid) s)
      in case ps_telemetry p of None \<Rightarrow> s | Some c \<Rightarrow> on_queue i (\<lambda>q. q\<lparr>pq_telemetry := drop_charge c (pq_telemetry q)\<rparr>) s)"

definition queue_new :: "send_env \<Rightarrow> node_id \<Rightarrow> nat option \<Rightarrow> peer_queue" where
  "queue_new env to budget =
     \<lparr>pq_to = to, pq_generation = sn_generation env to, pq_telemetry = \<lparr>qt_bytes = 0, qt_channel = 0, qt_charges = []\<rparr>,
      pq_frames = lane_queue_new (control_priority (sn_transfer env)), pq_running = False, pq_reservations = 0, pq_closed = False,
      pq_budget = budget, pq_changed = False, pq_worker = None\<rparr>"

definition open_queue :: "send_env \<Rightarrow> node_id \<Rightarrow> send_engine \<Rightarrow> nat \<times> send_engine" where
  "open_queue env to s =
     (let i = length (sq_queues s);
          b = (case sn_admission env to of
                 Some b \<Rightarrow> Some b
               | None \<Rightarrow> if pipeline_enabled (sn_transfer env) then Some (length (sq_budgets s)) else None);
          s = (if sn_admission env to = None \<and> pipeline_enabled (sn_transfer env)
               then s\<lparr>sq_budgets := sq_budgets s @ [budget_new (bulk_queue_bytes (sn_transfer env))]\<rparr> else s)
      in (i, s\<lparr>sq_queues := sq_queues s @ [queue_new env to b], sq_map := hm_insert to i (sq_map s)\<rparr>))"

definition retire_stale :: "send_env \<Rightarrow> node_id \<Rightarrow> send_engine \<Rightarrow> send_engine" where
  "retire_stale env to s =
     (case hm_get (sq_map s) to of
        None \<Rightarrow> s
      | Some i \<Rightarrow>
          if pq_generation (sq_queues s ! i) \<noteq> sn_generation env to then
            on_queue i (\<lambda>q. q\<lparr>pq_changed := True\<rparr>)
              (on_budget (pq_budget (sq_queues s ! i)) budget_close (s\<lparr>sq_map := hm_remove to (sq_map s)\<rparr>))
          else s)"

definition send_queue :: "send_env \<Rightarrow> node_id \<Rightarrow> send_engine \<Rightarrow> nat \<times> send_engine" where
  "send_queue env to s =
     (let s = retire_stale env to s;
          s = s\<lparr>sq_map := hm_retain (\<lambda>_ i. pq_running (sq_queues s ! i) \<or> pq_reservations (sq_queues s ! i) \<noteq> 0) (sq_map s)\<rparr>;
          (i, s) = (case hm_get (sq_map s) to of Some i \<Rightarrow> (i, s) | None \<Rightarrow> open_queue env to s)
      in (i, on_queue i lease s))"

section \<open>Admission\<close>

definition push_send :: "send_frame \<Rightarrow> peer_queue \<Rightarrow> peer_queue" where
  "push_send f q =
     q\<lparr>pq_frames := push_back f (pq_frames q), pq_running := True, pq_changed := True,
       pq_worker := (if pq_running q then pq_worker q else Some worker_new)\<rparr>"

definition admit_to_queue :: "send_env \<Rightarrow> nat \<Rightarrow> pending_send \<Rightarrow> send_engine \<Rightarrow> unit result \<times> send_engine" where
  "admit_to_queue env i p s =
     (let f = scheduled_send (sn_deser env) p;
          (c, t) = charge (sq_serial s) (length (ps_data p)) (sc_lane (frame_class f)) (pq_telemetry (sq_queues s ! i));
          s = on_queue i (\<lambda>q. q\<lparr>pq_telemetry := t\<rparr>) (s\<lparr>sq_serial := sq_serial s + 1\<rparr>);
          p = p\<lparr>ps_telemetry := c\<rparr>;
          f = f\<lparr>frame_body := p\<rparr>
      in if pq_closed (sq_queues s ! i) then (Inl closed_send, on_queue i unlease (release_send i p s))
         else (Inr (), on_queue i unlease (on_queue i (push_send f) (s\<lparr>sq_log := sq_log s @ [Admitted i f]\<rparr>))))"

definition pending_new :: "nat \<Rightarrow> nat option \<Rightarrow> bytes \<Rightarrow> delivery_method \<Rightarrow> pending_send" where
  "pending_new ctx generation data m =
     \<lparr>ps_ctx = ctx, ps_data = data, ps_method = m, ps_generation = generation, ps_completion = None, ps_telemetry = None,
      ps_budget = None, ps_budget_wait = None\<rparr>"

text \<open>What the spawned task of any other action asks of the transport or the signaling layer.\<close>

datatype transport_call = CallConnect node_id | CallDisconnect node_id | CallSuspect node_id | CallClearSuspect node_id
  | CallSignaling node_id message_content

fun spawned_call :: "send_env \<Rightarrow> bool \<Rightarrow> overlay_action \<Rightarrow> transport_call option" where
  "spawned_call env has_signaling (SendMessage _ _ _ _) = None"
| "spawned_call env has_signaling (Connect to) = (if sn_running env = None then None else Some (CallConnect to))"
| "spawned_call env has_signaling (Disconnect to) = (if sn_running env = None then None else Some (CallDisconnect to))"
| "spawned_call env has_signaling (SuspectDisconnected to) = (if sn_running env = None then None else Some (CallSuspect to))"
| "spawned_call env has_signaling (ClearSuspect to) = (if sn_running env = None then None else Some (CallClearSuspect to))"
| "spawned_call env has_signaling (SendSignaling to e) =
     (if sn_running env = None \<or> \<not> has_signaling then None else Some (CallSignaling to (content e)))"

definition try_dispatch_send :: "send_env \<Rightarrow> overlay_action \<Rightarrow> send_engine \<Rightarrow> unit result \<times> send_engine" where
  "try_dispatch_send env action s =
     (case action of
        SendMessage to data m lane \<Rightarrow>
          (case sn_running env of
             None \<Rightarrow> (Inl closed_send, s)
           | Some ctx \<Rightarrow>
               let p = pending_new ctx (sn_generation env to) data m;
                   (i, s) = send_queue env to s
               in case (if lane = Bulk then pq_budget (sq_queues s ! i) else None) of
                    None \<Rightarrow> admit_to_queue env i p s
                  | Some b \<Rightarrow>
                      (case try_reserve (sn_turn env) (fresh_permit (sq_budgets s ! b)) (length data) (sq_budgets s ! b) of
                         (Inl e, _) \<Rightarrow> (Inl e, on_queue i unlease s)
                       | (Inr pid, budget) \<Rightarrow> admit_to_queue env i (p\<lparr>ps_budget := Some pid\<rparr>) (s\<lparr>sq_budgets := (sq_budgets s)[b := budget]\<rparr>)))
      | _ \<Rightarrow> (Inr (), s))"

text \<open>One poll of \<open>reserve_received_owned\<close>: the turn semaphore, then the budget.\<close>

definition poll_received :: "bool \<Rightarrow> nat \<Rightarrow> byte_budget \<Rightarrow> nat option result \<times> byte_budget" where
  "poll_received turn n b =
     (if budget_closed b then (Inl closed_send, b)
      else if turn then reserve_received (fresh_permit b) n b else (Inr None, b))"

definition retain_send :: "send_env \<Rightarrow> node_id \<Rightarrow> bytes \<Rightarrow> delivery_method \<Rightarrow> send_engine \<Rightarrow> unit result \<times> send_engine" where
  "retain_send env to data m s =
     (case sn_running env of
        None \<Rightarrow> (Inl closed_send, s)
      | Some ctx \<Rightarrow>
          let p = pending_new ctx (sn_generation env to) data m;
              (i, s) = send_queue env to s
          in case (if sc_lane (from_wire (sn_deser env) data) = Bulk then pq_budget (sq_queues s ! i) else None) of
               None \<Rightarrow> admit_to_queue env i p s
             | Some b \<Rightarrow>
                 (case poll_received (sn_turn env) (length data) (sq_budgets s ! b) of
                    (Inl e, _) \<Rightarrow> (Inl e, on_queue i unlease s)
                  | (Inr (Some pid), budget) \<Rightarrow> admit_to_queue env i (p\<lparr>ps_budget := Some pid\<rparr>) (s\<lparr>sq_budgets := (sq_budgets s)[b := budget]\<rparr>)
                  | (Inr None, _) \<Rightarrow> admit_to_queue env i (p\<lparr>ps_budget_wait := Some (length data)\<rparr>) s))"

text \<open>\<open>handle_action\<close>: sends are retained and an error is only logged.\<close>

fun handle_action :: "send_env \<Rightarrow> overlay_action \<Rightarrow> send_engine \<Rightarrow> send_engine" where
  "handle_action env (SendMessage to data m _) s = snd (retain_send env to data m s)"
| "handle_action env _ s = s"

section \<open>Reservations\<close>

definition drop_reservation :: "nat \<Rightarrow> send_engine \<Rightarrow> send_engine" where
  "drop_reservation r s =
     (case hm_get (sq_reserved s) r of
        None \<Rightarrow> s
      | Some v \<Rightarrow>
          let s = s\<lparr>sq_reserved := hm_remove r (sq_reserved s)\<rparr>;
              s = (case rv_state v of RvGranted (Some pid) \<Rightarrow> on_budget (pq_budget (sq_queues s ! rv_queue v)) (drop_permit pid) s | _ \<Rightarrow> s)
          in on_queue (rv_queue v) unlease s)"

text \<open>The check after the budget was granted.\<close>

definition reservation_valid :: "send_env \<Rightarrow> reservation \<Rightarrow> send_engine \<Rightarrow> bool" where
  "reservation_valid env v s \<longleftrightarrow> (rv_received v \<noteq> None \<or> \<not> pq_closed (sq_queues s ! rv_queue v)) \<and> sn_generation env (rv_to v) = rv_generation v"

text \<open>A granted received frame is admitted at once; a granted reservation waits for its commit.\<close>

definition settle_reservation :: "send_env \<Rightarrow> nat \<Rightarrow> reservation \<Rightarrow> nat option \<Rightarrow> send_engine \<Rightarrow> unit result \<times> send_engine" where
  "settle_reservation env r v permit s =
     (let s = s\<lparr>sq_reserved := hm_insert r (v\<lparr>rv_state := RvGranted permit\<rparr>) (sq_reserved s)\<rparr>
      in if \<not> reservation_valid env v s then (Inl closed_send, drop_reservation r s)
         else case rv_received v of
                None \<Rightarrow> (Inr (), s)
              | Some (data, m) \<Rightarrow>
                  admit_to_queue env (rv_queue v) ((pending_new (rv_ctx v) (rv_generation v) data m)\<lparr>ps_budget := permit\<rparr>)
                    (s\<lparr>sq_reserved := hm_remove r (sq_reserved s)\<rparr>))"

definition reserve_begin :: "send_env \<Rightarrow> node_id \<Rightarrow> nat \<Rightarrow> send_lane \<Rightarrow> (bytes \<times> delivery_method) option \<Rightarrow> send_engine \<Rightarrow> unit result \<times> send_engine" where
  "reserve_begin env to n lane received s =
     (case sn_running env of
        None \<Rightarrow> (Inl closed_send, s)
      | Some ctx \<Rightarrow>
          let (i, s) = send_queue env to s;
              r = sq_serial s;
              v = \<lparr>rv_to = to, rv_queue = i, rv_ctx = ctx, rv_generation = sn_generation env to, rv_received = received, rv_state = RvWaiting n\<rparr>;
              s = s\<lparr>sq_serial := sq_serial s + 1, sq_reserved := hm_insert r v (sq_reserved s)\<rparr>
          in case (if lane = Bulk then pq_budget (sq_queues s ! i) else None) of
               None \<Rightarrow> settle_reservation env r v None s
             | Some b \<Rightarrow>
                 (case (if received = None then budget_check n (sq_budgets s ! b) else Inr n) of
                    Inl e \<Rightarrow> (Inl e, drop_reservation r s)
                  | Inr _ \<Rightarrow> (Inr (), s)))"

definition reserve_poll :: "send_env \<Rightarrow> nat \<Rightarrow> send_engine \<Rightarrow> unit result \<times> send_engine" where
  "reserve_poll env r s =
     (case hm_get (sq_reserved s) r of
        None \<Rightarrow> (Inr (), s)
      | Some v \<Rightarrow>
          (case (rv_state v, pq_budget (sq_queues s ! rv_queue v)) of
             (RvWaiting n, Some b) \<Rightarrow>
               (let budget = sq_budgets s ! b in
                case (if rv_received v = None then budget_acquire (fresh_permit budget) n False budget
                      else reserve_received (fresh_permit budget) n budget) of
                  (Inl e, _) \<Rightarrow> (Inl e, drop_reservation r s)
                | (Inr None, _) \<Rightarrow> (Inr (), s)
                | (Inr (Some pid), budget) \<Rightarrow> settle_reservation env r v (Some pid) (s\<lparr>sq_budgets := (sq_budgets s)[b := budget]\<rparr>))
           | _ \<Rightarrow> (Inr (), s)))"

definition reserve_commit :: "send_env \<Rightarrow> nat \<Rightarrow> overlay_action \<Rightarrow> send_engine \<Rightarrow> unit result \<times> send_engine" where
  "reserve_commit env r action s =
     (case hm_get (sq_reserved s) r of
        None \<Rightarrow> (Inl closed_send, s)
      | Some v \<Rightarrow>
          (case (rv_state v, action) of
             (RvGranted permit, SendMessage actual data m _) \<Rightarrow>
               if actual \<noteq> rv_to v then (Inl closed_send, drop_reservation r s)
               else
                 let s = on_budget (pq_budget (sq_queues s ! rv_queue v)) (shrink_permit permit (length data)) s
                 in admit_to_queue env (rv_queue v)
                      ((pending_new (rv_ctx v) (rv_generation v) data m)\<lparr>ps_budget := permit, ps_completion := Some (sq_serial s)\<rparr>)
                      (s\<lparr>sq_reserved := hm_remove r (sq_reserved s)\<rparr>)
           | (RvGranted _, _) \<Rightarrow> (Inl closed_send, drop_reservation r s)
           | _ \<Rightarrow> (Inr (), s)))"

text \<open>\<open>reserve_send\<close> and \<open>dispatch_received_action\<close> up to their first await.\<close>

definition reserve_send :: "send_env \<Rightarrow> node_id \<Rightarrow> nat \<Rightarrow> send_lane \<Rightarrow> send_engine \<Rightarrow> unit result \<times> send_engine" where
  "reserve_send env to n lane s = reserve_begin env to n lane None s"

fun dispatch_received_action :: "send_env \<Rightarrow> overlay_action \<Rightarrow> send_engine \<Rightarrow> send_engine" where
  "dispatch_received_action env (SendMessage to data m lane) s = snd (reserve_begin env to (length data) lane (Some (data, m)) s)"
| "dispatch_received_action env action s = handle_action env action s"

section \<open>The worker\<close>

definition on_worker :: "nat \<Rightarrow> (send_worker \<Rightarrow> send_worker) \<Rightarrow> send_engine \<Rightarrow> send_engine" where
  "on_worker i f s = on_queue i (\<lambda>q. q\<lparr>pq_worker := map_option f (pq_worker q)\<rparr>) s"

text \<open>The top of the loop: it ends on a closed queue, dropping its writes, or on an idle one.\<close>

definition worker_check :: "nat \<Rightarrow> send_worker \<Rightarrow> send_engine \<Rightarrow> send_engine" where
  "worker_check i w s =
     (let q = sq_queues s ! i in
      if pq_closed q then
        on_queue i (\<lambda>q. q\<lparr>pq_worker := None\<rparr>) (fold (\<lambda>x. release_send i (frame_body (aw_frame x))) (wk_writes w) s)
      else if frames (pq_frames q) = [] \<and> wk_writes w = [] \<and> pq_reservations q = 0 then
        on_queue i (\<lambda>q. q\<lparr>pq_worker := None\<rparr>)
          (s\<lparr>sq_map := (if hm_get (sq_map s) (pq_to q) = Some i then hm_remove (pq_to q) (sq_map s) else sq_map s)\<rparr>)
      else on_worker i (\<lambda>w. w\<lparr>wk_phase := Popping\<rparr>) s)"

definition start_write :: "send_frame \<Rightarrow> bool \<Rightarrow> send_worker \<Rightarrow> send_worker" where
  "start_write f bulk w =
     w\<lparr>wk_writes := wk_writes w @
          [\<lparr>aw_frame = f, aw_bulk = bulk,
            aw_phase = (case ps_budget_wait (frame_body f) of None \<Rightarrow> ReadyToSend | Some n \<Rightarrow> AwaitBudget n)\<rparr>],
       wk_ordered_busy := wk_ordered_busy w \<or> \<not> bulk, wk_bulk_busy := wk_bulk_busy w \<or> bulk\<rparr>"

definition worker_pop :: "nat \<Rightarrow> send_worker \<Rightarrow> send_engine \<Rightarrow> send_engine" where
  "worker_pop i w s =
     (case lane_pop (\<not> wk_ordered_busy w) (\<not> wk_bulk_busy w) (pq_frames (sq_queues s ! i)) of
        (None, _) \<Rightarrow> on_worker i (\<lambda>w. w\<lparr>wk_phase := Waiting\<rparr>) s
      | (Some (f, bulk), fs) \<Rightarrow>
          on_worker i (start_write f bulk) (on_queue i (\<lambda>q. q\<lparr>pq_frames := fs\<rparr>) (s\<lparr>sq_log := sq_log s @ [Started i bulk f]\<rparr>)))"

definition worker_wake :: "nat \<Rightarrow> send_engine \<Rightarrow> send_engine" where
  "worker_wake i s = on_worker i (\<lambda>w. w\<lparr>wk_phase := Checking\<rparr>) (on_queue i (\<lambda>q. q\<lparr>pq_changed := False\<rparr>) s)"

definition on_write :: "nat \<Rightarrow> nat \<Rightarrow> (active_write \<Rightarrow> active_write) \<Rightarrow> send_engine \<Rightarrow> send_engine" where
  "on_write i k f s = on_worker i (\<lambda>w. w\<lparr>wk_writes := (wk_writes w)[k := f (wk_writes w ! k)]\<rparr>) s"

text \<open>The three parts of a write: its budget, the validity check with the hand-over, and the result.\<close>

definition write_budget :: "nat \<Rightarrow> nat \<Rightarrow> nat \<Rightarrow> send_engine \<Rightarrow> send_engine" where
  "write_budget i k n s =
     (case pq_budget (sq_queues s ! i) of
        None \<Rightarrow> on_write i k (\<lambda>x. x\<lparr>aw_phase := ReadyToSend\<rparr>) s
      | Some b \<Rightarrow>
          (case reserve_received (fresh_permit (sq_budgets s ! b)) n (sq_budgets s ! b) of
             (Inl e, _) \<Rightarrow> on_write i k (\<lambda>x. x\<lparr>aw_phase := Refused e\<rparr>) s
           | (Inr None, _) \<Rightarrow> s
           | (Inr (Some pid), budget) \<Rightarrow>
               on_write i k (\<lambda>x. x\<lparr>aw_phase := ReadyToSend, aw_frame := (aw_frame x)\<lparr>frame_body := (frame_body (aw_frame x))\<lparr>ps_budget := Some pid\<rparr>\<rparr>\<rparr>)
                 (s\<lparr>sq_budgets := (sq_budgets s)[b := budget]\<rparr>)))"

definition write_valid :: "send_env \<Rightarrow> node_id \<Rightarrow> pending_send \<Rightarrow> bool" where
  "write_valid env to p \<longleftrightarrow> sn_running env = Some (ps_ctx p) \<and> sn_generation env to = ps_generation p"

definition write_submit :: "send_env \<Rightarrow> nat \<Rightarrow> nat \<Rightarrow> active_write \<Rightarrow> send_engine \<Rightarrow> send_engine" where
  "write_submit env i k x s =
     (if write_valid env (pq_to (sq_queues s ! i)) (frame_body (aw_frame x))
      then on_write i k (\<lambda>x. x\<lparr>aw_phase := InTransport\<rparr>) (s\<lparr>sq_log := sq_log s @ [ToTransport i (aw_bulk x) (aw_frame x)]\<rparr>)
      else on_write i k (\<lambda>x. x\<lparr>aw_phase := Refused closed_send\<rparr>) s)"

definition finish_write :: "nat \<Rightarrow> bool \<Rightarrow> send_worker \<Rightarrow> send_worker" where
  "finish_write k bulk w =
     w\<lparr>wk_writes := remove_nth k (wk_writes w), wk_phase := Checking,
       wk_bulk_busy := (if bulk then False else wk_bulk_busy w), wk_ordered_busy := (if bulk then wk_ordered_busy w else False)\<rparr>"

definition write_finish :: "nat \<Rightarrow> nat \<Rightarrow> active_write \<Rightarrow> unit result \<Rightarrow> send_engine \<Rightarrow> send_engine" where
  "write_finish i k x res s =
     (let p = frame_body (aw_frame x);
          failed = (case res of Inl _ \<Rightarrow> True | Inr _ \<Rightarrow> False);
          s = (if failed \<and> ps_completion p = None \<and> sc_lane (frame_class (aw_frame x)) = Bulk then s\<lparr>sq_write_errors := sq_write_errors s + 1\<rparr> else s)
      in on_worker i (finish_write k (aw_bulk x)) (release_send i p s))"

section \<open>Closing and statistics\<close>

definition close_queue :: "peer_queue \<Rightarrow> peer_queue" where
  "close_queue q = q\<lparr>pq_closed := True, pq_frames := lane_queue_new False, pq_changed := True\<rparr>"

definition close_one :: "nat \<Rightarrow> send_engine \<Rightarrow> send_engine" where
  "close_one i s =
     (let s = fold (\<lambda>f. release_send i (frame_body f)) (frames (pq_frames (sq_queues s ! i))) s
      in on_budget (pq_budget (sq_queues s ! i)) budget_close (on_queue i close_queue s))"

definition close_send_queues :: "send_engine \<Rightarrow> send_engine" where
  "close_send_queues s = fold (\<lambda>p. close_one (snd p)) (sq_map s) (s\<lparr>sq_map := []\<rparr>)"

definition bulk_queue_stats :: "send_engine \<Rightarrow> (node_id \<times> nat \<times> nat option) list" where
  "bulk_queue_stats s =
     map (\<lambda>(to, i). (to, qt_bytes (pq_telemetry (sq_queues s ! i)), map_option (\<lambda>b. limit_bytes (sq_budgets s ! b)) (pq_budget (sq_queues s ! i)))) (sq_map s)"

section \<open>Interleavings\<close>

text \<open>
  Every order of calls, budget grants, cancellations, worker turns and write results. A write makes
  progress only while its worker waits, which is when the worker polls it.
\<close>

definition worker_in :: "send_engine \<Rightarrow> nat \<Rightarrow> worker_phase \<Rightarrow> send_worker \<Rightarrow> bool" where
  "worker_in s i ph w \<longleftrightarrow> i < length (sq_queues s) \<and> pq_worker (sq_queues s ! i) = Some w \<and> wk_phase w = ph"

inductive send_step :: "send_engine \<Rightarrow> send_engine \<Rightarrow> bool" where
  dispatch: "send_step s (snd (try_dispatch_send env action s))"
| handle: "send_step s (handle_action env action s)"
| reserve: "send_step s (snd (reserve_send env to n lane s))"
| receive: "send_step s (dispatch_received_action env action s)"
| poll: "send_step s (snd (reserve_poll env r s))"
| commit: "hm_get (sq_reserved s) r = Some v \<Longrightarrow> rv_received v = None \<Longrightarrow> send_step s (snd (reserve_commit env r action s))"
| cancel: "send_step s (drop_reservation r s)"
| check: "worker_in s i Checking w \<Longrightarrow> send_step s (worker_check i w s)"
| pop: "worker_in s i Popping w \<Longrightarrow> send_step s (worker_pop i w s)"
| wake: "worker_in s i Waiting w \<Longrightarrow> pq_changed (sq_queues s ! i) \<Longrightarrow> send_step s (worker_wake i s)"
| grant: "worker_in s i Waiting w \<Longrightarrow> k < length (wk_writes w) \<Longrightarrow> aw_phase (wk_writes w ! k) = AwaitBudget n \<Longrightarrow> send_step s (write_budget i k n s)"
| submit: "worker_in s i Waiting w \<Longrightarrow> k < length (wk_writes w) \<Longrightarrow> aw_phase (wk_writes w ! k) = ReadyToSend \<Longrightarrow>
    send_step s (write_submit env i k (wk_writes w ! k) s)"
| finish: "worker_in s i Waiting w \<Longrightarrow> k < length (wk_writes w) \<Longrightarrow> aw_phase (wk_writes w ! k) = InTransport \<Longrightarrow>
    send_step s (write_finish i k (wk_writes w ! k) res s)"
| refuse: "worker_in s i Waiting w \<Longrightarrow> k < length (wk_writes w) \<Longrightarrow> aw_phase (wk_writes w ! k) = Refused e \<Longrightarrow>
    send_step s (write_finish i k (wk_writes w ! k) (Inl e) s)"
| limit: "send_step s (on_budget (Some b) (set_limit n) s)"
| close: "send_step s (close_send_queues s)"

definition send_start :: "byte_budget list \<Rightarrow> send_engine" where
  "send_start budgets =
     \<lparr>sq_map = [], sq_queues = [], sq_budgets = budgets, sq_reserved = [], sq_serial = 0, sq_write_errors = 0, sq_log = []\<rparr>"

definition send_reachable :: "send_engine \<Rightarrow> bool" where
  "send_reachable s \<longleftrightarrow> (\<exists>budgets. send_step\<^sup>*\<^sup>* (send_start budgets) s)"

end
