(* ===== verification/Send_Queue_Order.thy ===== *)
theory Send_Queue_Order
  imports Send_Queue "HOL-Library.Sublist"
begin

text \<open>
  The order and the progress of the send queues: an invariant of one queue with its worker, kept by each
  of the steps that can touch it, and its composition over the engine's queues, leases and map.
\<close>

section \<open>What the log says of a queue\<close>

text \<open>A frame without the permit it may get later.\<close>

definition frame_core :: "send_frame \<Rightarrow> send_frame" where
  "frame_core f = f\<lparr>frame_body := (frame_body f)\<lparr>ps_budget := None\<rparr>\<rparr>"

definition admits :: "nat \<Rightarrow> send_log list \<Rightarrow> send_frame list" where
  "admits i log = concat (map (\<lambda>e. case e of Admitted j f \<Rightarrow> if j = i then [frame_core f] else [] | _ \<Rightarrow> []) log)"

definition starts :: "nat \<Rightarrow> bool \<Rightarrow> send_log list \<Rightarrow> send_frame list" where
  "starts i b log = concat (map (\<lambda>e. case e of Started j c f \<Rightarrow> if j = i \<and> c = b then [frame_core f] else [] | _ \<Rightarrow> []) log)"

definition sents :: "nat \<Rightarrow> bool \<Rightarrow> send_log list \<Rightarrow> send_frame list" where
  "sents i b log = concat (map (\<lambda>e. case e of ToTransport j c f \<Rightarrow> if j = i \<and> c = b then [frame_core f] else [] | _ \<Rightarrow> []) log)"

lemma log_simps [simp]:
  "admits i (log @ [Admitted j f]) = admits i log @ (if j = i then [frame_core f] else [])"
  "admits i (log @ [Started j c f]) = admits i log" "admits i (log @ [ToTransport j c f]) = admits i log"
  "starts i b (log @ [Admitted j f]) = starts i b log" "starts i b (log @ [ToTransport j c f]) = starts i b log"
  "starts i b (log @ [Started j c f]) = starts i b log @ (if j = i \<and> c = b then [frame_core f] else [])"
  "sents i b (log @ [Admitted j f]) = sents i b log" "sents i b (log @ [Started j c f]) = sents i b log"
  "sents i b (log @ [ToTransport j c f]) = sents i b log @ (if j = i \<and> c = b then [frame_core f] else [])"
  "admits i [] = []" "starts i b [] = []" "sents i b [] = []"
  by (simp_all add: admits_def starts_def sents_def)

lemma frame_core_simps [simp]:
  "floating p (frame_core f) = floating p f" "frame_core (f\<lparr>frame_body := (frame_body f)\<lparr>ps_budget := x\<rparr>\<rparr>) = frame_core f"
  by (simp_all add: floating_def frame_core_def)

section \<open>Invariant of a queue\<close>

text \<open>
  For the queue number \<open>i\<close> with \<open>n\<close> leases: a queue with frames has a worker; a worker has at most one write
  per channel; a worker that waits without a write has been notified of whatever there is to do; the
  frames of each channel were admitted, started and sent in one order.
\<close>

definition unsent :: "active_write \<Rightarrow> bool" where
  "unsent x \<longleftrightarrow> (case aw_phase x of AwaitBudget _ \<Rightarrow> True | ReadyToSend \<Rightarrow> True | _ \<Rightarrow> False)"

definition unsent_on :: "bool \<Rightarrow> peer_queue \<Rightarrow> send_frame list" where
  "unsent_on b q = (case pq_worker q of None \<Rightarrow> [] | Some w \<Rightarrow> map (frame_core \<circ> aw_frame) (filter (\<lambda>x. aw_bulk x = b \<and> unsent x) (wk_writes w)))"

definition worker_ok :: "nat \<Rightarrow> peer_queue \<Rightarrow> send_worker \<Rightarrow> bool" where
  "worker_ok n q w \<longleftrightarrow>
     (\<forall>b. length (filter (\<lambda>x. aw_bulk x = b) (wk_writes w)) = of_bool (if b then wk_bulk_busy w else wk_ordered_busy w))
     \<and> (wk_phase w = Waiting \<and> pq_closed q \<longrightarrow> pq_changed q)
     \<and> (wk_phase w = Waiting \<and> wk_writes w = [] \<longrightarrow> pq_changed q \<or> frames (pq_frames q) = [] \<and> n \<noteq> 0)
     \<and> (wk_phase w = Popping \<and> wk_writes w = [] \<longrightarrow> pq_changed q \<or> frames (pq_frames q) \<noteq> [] \<or> n \<noteq> 0)
     \<and> (wk_phase w = Popping \<and> pq_closed q \<longrightarrow> pq_changed q)"

definition flow_ok :: "nat \<Rightarrow> send_log list \<Rightarrow> peer_queue \<Rightarrow> bool" where
  "flow_ok i log q \<longleftrightarrow>
     (\<forall>b. (\<not> pq_closed q \<longrightarrow> filter (\<lambda>f. floating (priority (pq_frames q)) f = b) (admits i log) =
             starts i b log @ map frame_core (filter (\<lambda>f. floating (priority (pq_frames q)) f = b) (frames (pq_frames q))))
        \<and> subseq (starts i b log) (admits i log)
        \<and> (\<exists>pre. starts i b log = pre @ unsent_on b q \<and> subseq (sents i b log) pre))"

definition queue_ok :: "nat \<Rightarrow> bool \<Rightarrow> peer_queue \<Rightarrow> bool" where
  "queue_ok n mapped q \<longleftrightarrow> pq_reservations q = n
     \<and> (pq_worker q = None \<longrightarrow> frames (pq_frames q) = [] \<and> (pq_running q \<longrightarrow> pq_closed q \<or> n = 0 \<and> \<not> mapped))
     \<and> (pq_closed q \<longrightarrow> \<not> mapped \<and> frames (pq_frames q) = [])
     \<and> (\<forall>w. pq_worker q = Some w \<longrightarrow> pq_running q \<and> worker_ok n q w)"

lemma subseq_extend: "subseq xs ys \<Longrightarrow> subseq xs (ys @ zs)"
  by (metis append_Nil2 list_emb_Nil list_emb_append_mono)

lemma queue_ok_lease: "queue_ok n m q \<Longrightarrow> \<not> (pq_worker q = None \<and> pq_running q \<and> \<not> pq_closed q) \<Longrightarrow> queue_ok (Suc n) m (lease q)"
  by (auto simp: queue_ok_def lease_def worker_ok_def)

lemma queue_ok_unlease: "queue_ok (Suc n) m q \<Longrightarrow> queue_ok n m (unlease q)"
  by (auto simp: queue_ok_def unlease_def worker_ok_def)

lemma queue_ok_changed: "queue_ok n m q \<Longrightarrow> queue_ok n m (q\<lparr>pq_changed := True\<rparr>)"
  by (auto simp: queue_ok_def worker_ok_def)

lemma queue_ok_unmapped: "queue_ok n m q \<Longrightarrow> queue_ok n False q"
  by (auto simp: queue_ok_def)

lemma queue_ok_push: "queue_ok (Suc n) m q \<Longrightarrow> \<not> pq_closed q \<Longrightarrow> queue_ok (Suc n) m (push_send f q)"
  by (cases "pq_worker q") (auto simp: queue_ok_def push_send_def worker_ok_def worker_new_def push_back_def)

lemma queue_ok_close: "queue_ok n m q \<Longrightarrow> queue_ok n False (close_queue q)"
  by (auto simp: queue_ok_def close_queue_def worker_ok_def lane_queue_new_def)

lemma queue_ok_frame [simp]:
  "queue_ok n m (q\<lparr>pq_telemetry := t\<rparr>) = queue_ok n m q" "flow_ok i log (q\<lparr>pq_telemetry := t\<rparr>) = flow_ok i log q"
  by (simp_all add: queue_ok_def worker_ok_def flow_ok_def unsent_on_def)

lemma flow_ok_frame [simp]:
  "flow_ok i log (lease q) = flow_ok i log q" "flow_ok i log (unlease q) = flow_ok i log q" "flow_ok i log (q\<lparr>pq_changed := c\<rparr>) = flow_ok i log q"
  by (simp_all add: flow_ok_def unsent_on_def lease_def unlease_def)

lemma flow_ok_log:
  "i \<noteq> j \<Longrightarrow> flow_ok i (log @ [Admitted j f]) q = flow_ok i log q" "i \<noteq> j \<Longrightarrow> flow_ok i (log @ [Started j c f]) q = flow_ok i log q"
  "i \<noteq> j \<Longrightarrow> flow_ok i (log @ [ToTransport j c f]) q = flow_ok i log q"
  by (simp_all add: flow_ok_def)

lemma flow_ok_push:
  assumes "flow_ok i log q" and "queue_ok n m q" and "\<not> pq_closed q"
  shows "flow_ok i (log @ [Admitted i f]) (push_send f q)"
proof -
  have "unsent_on b (push_send f q) = unsent_on b q" for b
    using assms(2) by (cases "pq_worker q") (auto simp: unsent_on_def push_send_def worker_new_def queue_ok_def)
  then show ?thesis using assms(1,3) by (auto simp: flow_ok_def push_send_def push_back_def intro: subseq_extend)
qed

lemma flow_ok_close: "flow_ok i log q \<Longrightarrow> flow_ok i log (close_queue q)"
  by (simp add: flow_ok_def close_queue_def unsent_on_def)

lemma flow_sent: "flow_ok i log q \<Longrightarrow> subseq (sents i b log) (starts i b log)"
proof -
  assume "flow_ok i log q"
  then obtain pre where "starts i b log = pre @ unsent_on b q" "subseq (sents i b log) pre" unfolding flow_ok_def by blast
  then show ?thesis by (simp add: subseq_extend)
qed

lemma flow_ok_stop: "flow_ok i log q \<Longrightarrow> flow_ok i log (q\<lparr>pq_worker := None\<rparr>)"
  using flow_sent [of i log q] by (simp add: flow_ok_def unsent_on_def)

text \<open>The worker's own steps.\<close>

lemma lane_pop_ready: "frames q \<noteq> [] \<Longrightarrow> \<exists>f b q'. lane_pop True True q = (Some (f, b), q')"
proof -
  assume "frames q \<noteq> []"
  then obtain g gs where q: "frames q = g # gs" by (cases "frames q") auto
  show ?thesis
  proof (cases "floating (priority q) g")
    case True
    from lane_pop_bulk_ready [OF q True] show ?thesis by blast
  next
    case False
    then show ?thesis by (auto simp: q lane_pop_def pop_front_def floating_def Let_def)
  qed
qed

lemma lane_pop_busy:
  assumes "lane_pop r1 r2 q = (Some (f, b), q')"
  shows "if b then r2 else r1"
  using assms by (auto simp: lane_pop_def pop_front_def Let_def split: if_splits option.splits list.splits)

lemma queue_ok_popping:
  assumes "queue_ok n m q" and "pq_worker q = Some w" and "\<not> pq_closed q" and "\<not> (frames (pq_frames q) = [] \<and> wk_writes w = [] \<and> n = 0)"
  shows "queue_ok n m (q\<lparr>pq_worker := Some (w\<lparr>wk_phase := Popping\<rparr>)\<rparr>)"
  using assms by (auto simp: queue_ok_def worker_ok_def)

lemma queue_ok_stop:
  assumes "queue_ok n m q" and "pq_closed q \<or> frames (pq_frames q) = [] \<and> n = 0"
  shows "queue_ok n False (q\<lparr>pq_worker := None\<rparr>)"
  using assms by (auto simp: queue_ok_def)

lemma queue_ok_waiting:
  assumes "queue_ok n m q" and w: "pq_worker q = Some w" "wk_phase w = Popping"
    and pop: "lane_pop (\<not> wk_ordered_busy w) (\<not> wk_bulk_busy w) (pq_frames q) = (None, q')"
  shows "queue_ok n m (q\<lparr>pq_worker := Some (w\<lparr>wk_phase := Waiting\<rparr>)\<rparr>)"
proof -
  have ok: "worker_ok n q w" using assms(1) w(1) by (simp add: queue_ok_def)
  have "frames (pq_frames q) = []" if "wk_writes w = []"
  proof (rule ccontr)
    assume ne: "frames (pq_frames q) \<noteq> []"
    have "\<not> wk_bulk_busy w" "\<not> wk_ordered_busy w"
      using ok that by (auto simp: worker_ok_def dest: spec [of _ True] spec [of _ False] split: if_splits)
    with lane_pop_ready [OF ne] pop show False by auto
  qed
  then show ?thesis using assms(1) ok w by (auto simp: queue_ok_def worker_ok_def)
qed

lemma queue_ok_start:
  assumes "queue_ok n m q" and w: "pq_worker q = Some w" "wk_phase w = Popping"
    and pop: "lane_pop (\<not> wk_ordered_busy w) (\<not> wk_bulk_busy w) (pq_frames q) = (Some (f, b), fs)"
  shows "queue_ok n m (q\<lparr>pq_frames := fs, pq_worker := Some (start_write f b w)\<rparr>)"
proof -
  have ok: "worker_ok n q w" using assms(1) w(1) by (simp add: queue_ok_def)
  have cl: "\<not> pq_closed q" using assms(1) pop by (auto simp: queue_ok_def lane_pop_def)
  have "length (filter (\<lambda>x. aw_bulk x = c) (wk_writes (start_write f b w))) =
      of_bool (if c then wk_bulk_busy (start_write f b w) else wk_ordered_busy (start_write f b w))" for c
  proof -
    have "length (filter (\<lambda>x. aw_bulk x = c) (wk_writes w)) = of_bool (if c then wk_bulk_busy w else wk_ordered_busy w)"
      using ok by (simp add: worker_ok_def)
    then show ?thesis using lane_pop_busy [OF pop] by (cases b; cases c) (auto simp: start_write_def)
  qed
  then have "worker_ok n (q\<lparr>pq_frames := fs, pq_worker := Some (start_write f b w)\<rparr>) (start_write f b w)"
    using cl w(2) by (simp add: worker_ok_def) (simp add: start_write_def)
  then show ?thesis using assms(1) w cl by (simp add: queue_ok_def)
qed

lemma no_write_on:
  assumes "worker_ok n q w" and "\<not> (if b then wk_bulk_busy w else wk_ordered_busy w)"
  shows "filter (\<lambda>x. aw_bulk x = b) (wk_writes w) = []"
proof -
  have "length (filter (\<lambda>x. aw_bulk x = b) (wk_writes w)) = of_bool (if b then wk_bulk_busy w else wk_ordered_busy w)"
    using assms(1) by (simp add: worker_ok_def)
  with assms(2) show ?thesis by (simp only: of_bool_eq length_0_conv if_False)
qed

lemma flow_ok_start:
  assumes flow: "flow_ok i log q" and "queue_ok n m q" and w: "pq_worker q = Some w" "wk_phase w = Popping"
    and pop: "lane_pop (\<not> wk_ordered_busy w) (\<not> wk_bulk_busy w) (pq_frames q) = (Some (f, b), fs)"
  shows "flow_ok i (log @ [Started i b f]) (q\<lparr>pq_frames := fs, pq_worker := Some (start_write f b w)\<rparr>)"
proof -
  let ?p = "priority (pq_frames q)" and ?q = "q\<lparr>pq_frames := fs, pq_worker := Some (start_write f b w)\<rparr>"
  have ok: "worker_ok n q w" and cl: "\<not> pq_closed q" using assms(2) w(1) pop by (auto simp: queue_ok_def lane_pop_def)
  note c = lane_pop_class [OF pop]
  have split: "filter (\<lambda>g. floating ?p g = x) (frames (pq_frames q)) = (if b = x then [f] else []) @ filter (\<lambda>g. floating ?p g = x) (frames fs)" for x
    using c by (cases x; cases b) auto
  have free: "\<not> (if b then wk_bulk_busy w else wk_ordered_busy w)" using lane_pop_busy [OF pop] by (auto split: if_splits)
  have un: "unsent_on b q = []"
  proof -
    have "filter (\<lambda>x. aw_bulk x = b \<and> unsent x) (wk_writes w) = filter unsent (filter (\<lambda>x. aw_bulk x = b) (wk_writes w))" by (simp add: conj_commute)
    then show ?thesis using no_write_on [OF ok free] w(1) by (simp add: unsent_on_def)
  qed
  have un': "unsent_on x ?q = unsent_on x q @ (if b = x then [frame_core f] else [])" for x
    using w(1) by (auto simp: unsent_on_def start_write_def unsent_def split: option.splits)
  have open_eq: "filter (\<lambda>g. floating ?p g = x) (admits i log) = starts i x log @ map frame_core (filter (\<lambda>g. floating ?p g = x) (frames (pq_frames q)))"
    and sub: "subseq (starts i x log) (admits i log)"
    and pre: "\<exists>pre. starts i x log = pre @ unsent_on x q \<and> subseq (sents i x log) pre" for x
    using flow cl by (auto simp: flow_ok_def)
  have eq': "filter (\<lambda>g. floating ?p g = x) (admits i log) = starts i x (log @ [Started i b f]) @ map frame_core (filter (\<lambda>g. floating ?p g = x) (frames fs))" for x
    using open_eq [of x] by (simp add: split)
  have "subseq (starts i x (log @ [Started i b f])) (admits i log)" for x
  proof -
    have "subseq (starts i x (log @ [Started i b f])) (filter (\<lambda>g. floating ?p g = x) (admits i log))"
      unfolding eq' by (rule subseq_extend) simp
    then show ?thesis by (rule subseq_order.order_trans) simp
  qed
  moreover have "\<exists>pre. starts i x (log @ [Started i b f]) = pre @ unsent_on x ?q \<and> subseq (sents i x log) pre" for x
    using pre [of x] un un' [of x] by (cases "b = x") auto
  ultimately show ?thesis using eq' c by (simp add: flow_ok_def)
qed

text \<open>The steps of a write.\<close>

lemma filter_update_other: "k < length xs \<Longrightarrow> \<not> P (xs ! k) \<Longrightarrow> \<not> P y \<Longrightarrow> filter P (xs[k := y]) = filter P xs"
  by (subst (2) id_take_nth_drop [of k xs]) (simp_all add: upd_conv_take_nth_drop)

lemma length_filter_update: "k < length xs \<Longrightarrow> P y = P (xs ! k) \<Longrightarrow> length (filter P (xs[k := y])) = length (filter P xs)"
  by (subst (2) id_take_nth_drop [of k xs]) (simp_all add: upd_conv_take_nth_drop)

lemma singleton_filter: "length (filter P xs) \<le> 1 \<Longrightarrow> x \<in> set xs \<Longrightarrow> P x \<Longrightarrow> filter P xs = [x]"
proof -
  assume a: "length (filter P xs) \<le> 1" "x \<in> set xs" "P x"
  then have "x \<in> set (filter P xs)" by simp
  with a(1) show ?thesis by (cases "filter P xs") auto
qed

lemma worker_channel: "worker_ok n q w \<Longrightarrow> length (filter (\<lambda>x. aw_bulk x = b) (wk_writes w)) \<le> 1"
  by (simp add: worker_ok_def)

lemma sole_write:
  assumes "worker_ok n q w" and "k < length (wk_writes w)"
  shows "filter (\<lambda>x. aw_bulk x = aw_bulk (wk_writes w ! k)) (wk_writes w) = [wk_writes w ! k]"
  by (rule singleton_filter [OF worker_channel [OF assms(1)]]) (simp_all add: assms(2))

lemma unsent_on_filter: "pq_worker q = Some w \<Longrightarrow> unsent_on b q = map (frame_core \<circ> aw_frame) (filter unsent (filter (\<lambda>x. aw_bulk x = b) (wk_writes w)))"
  by (simp add: unsent_on_def conj_commute)

lemma unsent_on_update:
  assumes ok: "worker_ok n q w" and w: "pq_worker q = Some w" and k: "k < length (wk_writes w)" and y: "aw_bulk y = aw_bulk (wk_writes w ! k)"
  shows "unsent_on b (q\<lparr>pq_worker := Some (w\<lparr>wk_writes := (wk_writes w)[k := y]\<rparr>)\<rparr>) =
    (if b = aw_bulk y then (if unsent y then [frame_core (aw_frame y)] else []) else unsent_on b q)"
proof -
  let ?ws = "(wk_writes w)[k := y]"
  have "filter (\<lambda>x. aw_bulk x = b) ?ws = (if b = aw_bulk y then [y] else filter (\<lambda>x. aw_bulk x = b) (wk_writes w))"
  proof (cases "b = aw_bulk y")
    case True
    have "length (filter (\<lambda>x. aw_bulk x = b) ?ws) \<le> 1"
      using length_filter_update [OF k, of "\<lambda>x. aw_bulk x = b" y] y worker_channel [OF ok, of b] by simp
    then have "filter (\<lambda>x. aw_bulk x = b) ?ws = [y]" by (rule singleton_filter) (use k True in \<open>auto simp: set_update_memI\<close>)
    with True show ?thesis by simp
  next
    case False
    then show ?thesis using filter_update_other [OF k, of "\<lambda>x. aw_bulk x = b" y] y by auto
  qed
  then show ?thesis using w by (simp add: unsent_on_filter)
qed

lemma unsent_on_channel:
  assumes "worker_ok n q w" and "pq_worker q = Some w" and "k < length (wk_writes w)"
  shows "unsent_on (aw_bulk (wk_writes w ! k)) q = (if unsent (wk_writes w ! k) then [frame_core (aw_frame (wk_writes w ! k))] else [])"
  using sole_write [OF assms(1,3)] assms(2) by (simp add: unsent_on_filter)

lemma queue_ok_write:
  assumes "queue_ok n m q" and "pq_worker q = Some w" and "k < length (wk_writes w)" and "aw_bulk y = aw_bulk (wk_writes w ! k)"
  shows "queue_ok n m (q\<lparr>pq_worker := Some (w\<lparr>wk_writes := (wk_writes w)[k := y]\<rparr>)\<rparr>)"
proof -
  have "length (filter (\<lambda>x. aw_bulk x = b) ((wk_writes w)[k := y])) = length (filter (\<lambda>x. aw_bulk x = b) (wk_writes w))" for b
    using assms(3,4) by (intro length_filter_update) simp_all
  then show ?thesis using assms by (auto simp: queue_ok_def worker_ok_def)
qed

text \<open>A write that stays on its side of the hand-over, or is refused.\<close>

lemma flow_ok_write:
  assumes flow: "flow_ok i log q" and ok: "worker_ok n q w" and w: "pq_worker q = Some w" and k: "k < length (wk_writes w)"
    and y: "aw_bulk y = aw_bulk (wk_writes w ! k)" "unsent y \<Longrightarrow> unsent (wk_writes w ! k) \<and> frame_core (aw_frame y) = frame_core (aw_frame (wk_writes w ! k))"
  shows "flow_ok i log (q\<lparr>pq_worker := Some (w\<lparr>wk_writes := (wk_writes w)[k := y]\<rparr>)\<rparr>)"
proof -
  let ?q = "q\<lparr>pq_worker := Some (w\<lparr>wk_writes := (wk_writes w)[k := y]\<rparr>)\<rparr>"
  have "\<exists>pre. starts i b log = pre @ unsent_on b ?q \<and> subseq (sents i b log) pre" for b
  proof (cases "unsent_on b ?q = unsent_on b q")
    case True
    then show ?thesis using flow by (simp add: flow_ok_def)
  next
    case False
    then have "b = aw_bulk y" "\<not> unsent y"
      using unsent_on_update [OF ok w k y(1), of b] unsent_on_channel [OF ok w k] y by (auto split: if_splits)
    then have "unsent_on b ?q = []" using unsent_on_update [OF ok w k y(1), of b] by simp
    then show ?thesis using flow_sent [OF flow, of b] by simp
  qed
  then show ?thesis using flow by (simp add: flow_ok_def)
qed

lemma flow_ok_submit:
  assumes flow: "flow_ok i log q" and ok: "worker_ok n q w" and w: "pq_worker q = Some w" and k: "k < length (wk_writes w)"
    and ready: "aw_phase (wk_writes w ! k) = ReadyToSend"
  defines "x \<equiv> wk_writes w ! k"
  shows "flow_ok i (log @ [ToTransport i (aw_bulk x) (aw_frame x)]) (q\<lparr>pq_worker := Some (w\<lparr>wk_writes := (wk_writes w)[k := x\<lparr>aw_phase := InTransport\<rparr>]\<rparr>)\<rparr>)"
proof -
  let ?y = "x\<lparr>aw_phase := InTransport\<rparr>"
  let ?q = "q\<lparr>pq_worker := Some (w\<lparr>wk_writes := (wk_writes w)[k := ?y]\<rparr>)\<rparr>"
  have un: "unsent_on b ?q = (if b = aw_bulk x then [] else unsent_on b q)" for b
    using unsent_on_update [OF ok w k, of ?y b] by (simp add: x_def unsent_def)
  have old: "unsent_on (aw_bulk x) q = [frame_core (aw_frame x)]"
    using unsent_on_channel [OF ok w k] ready by (simp add: x_def unsent_def)
  have "\<exists>pre. starts i b log = pre @ unsent_on b ?q \<and> subseq (sents i b (log @ [ToTransport i (aw_bulk x) (aw_frame x)])) pre" for b
  proof -
    obtain pre where pre: "starts i b log = pre @ unsent_on b q" "subseq (sents i b log) pre" using flow unfolding flow_ok_def by blast
    show ?thesis
    proof (cases "b = aw_bulk x")
      case True
      with pre un old show ?thesis by simp
    next
      case False
      with pre un show ?thesis by auto
    qed
  qed
  then show ?thesis using flow by (simp add: flow_ok_def)
qed

lemma finish_write_parts:
  assumes "worker_ok n q w" and k: "k < length (wk_writes w)"
  defines "x \<equiv> wk_writes w ! k"
  shows "filter (\<lambda>y. aw_bulk y = b) (remove_nth k (wk_writes w)) = (if b = aw_bulk x then [] else filter (\<lambda>y. aw_bulk y = b) (wk_writes w))"
proof (cases "b = aw_bulk x")
  case True
  have "length (filter (\<lambda>y. aw_bulk y = b) (remove_nth k (wk_writes w))) + 1 = length (filter (\<lambda>y. aw_bulk y = b) (wk_writes w))"
    using k True by (subst (2) id_take_nth_drop [of k "wk_writes w"]) (simp_all add: remove_nth_def x_def)
  with worker_channel [OF assms(1), of b] have "length (filter (\<lambda>y. aw_bulk y = b) (remove_nth k (wk_writes w))) = 0" by linarith
  with True show ?thesis by simp
next
  case False
  then show ?thesis using k by (auto simp: x_def intro!: filter_remove_nth_other)
qed

lemma queue_ok_finish:
  assumes "queue_ok n m q" and w: "pq_worker q = Some w" and k: "k < length (wk_writes w)"
  shows "queue_ok n m (q\<lparr>pq_worker := Some (finish_write k (aw_bulk (wk_writes w ! k)) w)\<rparr>)"
proof -
  have ok: "worker_ok n q w" using assms(1) w by (simp add: queue_ok_def)
  have busy: "length (filter (\<lambda>y. aw_bulk y = b) (wk_writes w)) = of_bool (if b then wk_bulk_busy w else wk_ordered_busy w)" for b
    using ok by (simp add: worker_ok_def)
  have "length (filter (\<lambda>y. aw_bulk y = b) (remove_nth k (wk_writes w))) =
      of_bool (if b then (if aw_bulk (wk_writes w ! k) then False else wk_bulk_busy w) else (if aw_bulk (wk_writes w ! k) then wk_ordered_busy w else False))" for b
    unfolding finish_write_parts [OF ok k] using busy [of b] by (cases b; cases "aw_bulk (wk_writes w ! k)") simp_all
  then have "worker_ok n (q\<lparr>pq_worker := Some (finish_write k (aw_bulk (wk_writes w ! k)) w)\<rparr>) (finish_write k (aw_bulk (wk_writes w ! k)) w)"
    unfolding worker_ok_def finish_write_def by simp
  then show ?thesis using assms by (simp add: queue_ok_def)
qed

lemma flow_ok_finish:
  assumes flow: "flow_ok i log q" and ok: "worker_ok n q w" and w: "pq_worker q = Some w" and k: "k < length (wk_writes w)"
  shows "flow_ok i log (q\<lparr>pq_worker := Some (finish_write k (aw_bulk (wk_writes w ! k)) w)\<rparr>)"
proof -
  let ?q = "q\<lparr>pq_worker := Some (finish_write k (aw_bulk (wk_writes w ! k)) w)\<rparr>"
  have "unsent_on b ?q = [] \<or> unsent_on b ?q = unsent_on b q" for b
    using w by (simp add: unsent_on_filter finish_write_def finish_write_parts [OF ok k])
  then have "\<exists>pre. starts i b log = pre @ unsent_on b ?q \<and> subseq (sents i b log) pre" for b
    using flow flow_sent [OF flow, of b] by (metis append_Nil2 flow_ok_def)
  then show ?thesis using flow by (simp add: flow_ok_def)
qed

section \<open>Invariant of the engine's queues\<close>

definition leases :: "send_engine \<Rightarrow> nat \<Rightarrow> nat" where
  "leases s i = length (filter (\<lambda>p. rv_queue (snd p) = i) (sq_reserved s))"

definition mapped :: "send_engine \<Rightarrow> nat \<Rightarrow> bool" where
  "mapped s i \<longleftrightarrow> (\<exists>to. hm_get (sq_map s) to = Some i)"

text \<open>\<open>h\<close> is a queue whose lease is held by a call that is not a reservation.\<close>

definition send_inv :: "nat option \<Rightarrow> send_engine \<Rightarrow> bool" where
  "send_inv h s \<longleftrightarrow> hm_ok (sq_map s) \<and> hm_ok (sq_reserved s)
     \<and> (\<forall>to i. hm_get (sq_map s) to = Some i \<longrightarrow> i < length (sq_queues s) \<and> pq_to (sq_queues s ! i) = to)
     \<and> (\<forall>r v. hm_get (sq_reserved s) r = Some v \<longrightarrow> rv_queue v < length (sq_queues s) \<and> r < sq_serial s)
     \<and> (\<forall>i. h = Some i \<longrightarrow> i < length (sq_queues s))
     \<and> (\<forall>i < length (sq_queues s). queue_ok (leases s i + of_bool (h = Some i)) (mapped s i) (sq_queues s ! i) \<and> flow_ok i (sq_log s) (sq_queues s ! i))
     \<and> (\<forall>i \<ge> length (sq_queues s). \<forall>b. admits i (sq_log s) = [] \<and> starts i b (sq_log s) = [] \<and> sents i b (sq_log s) = [])"

lemma send_invI:
  assumes "send_inv h s" and "hm_ok (sq_map s')" and "hm_ok (sq_reserved s')"
    and "\<And>to i. hm_get (sq_map s') to = Some i \<Longrightarrow> i < length (sq_queues s') \<and> pq_to (sq_queues s' ! i) = to"
    and "\<And>r v. hm_get (sq_reserved s') r = Some v \<Longrightarrow> rv_queue v < length (sq_queues s') \<and> r < sq_serial s'"
    and "\<And>i. h' = Some i \<Longrightarrow> i < length (sq_queues s')"
    and "\<And>i. i < length (sq_queues s') \<Longrightarrow> queue_ok (leases s' i + of_bool (h' = Some i)) (mapped s' i) (sq_queues s' ! i) \<and> flow_ok i (sq_log s') (sq_queues s' ! i)"
    and "sq_log s' = sq_log s" and "length (sq_queues s) \<le> length (sq_queues s')"
  shows "send_inv h' s'"
  using assms unfolding send_inv_def by auto

lemma inv_frame [simp]:
  "send_inv h (s\<lparr>sq_budgets := b\<rparr>) = send_inv h s" "send_inv h (s\<lparr>sq_write_errors := e\<rparr>) = send_inv h s"
  by (simp_all add: send_inv_def leases_def mapped_def)

lemma inv_serial: "send_inv h s \<Longrightarrow> send_inv h (s\<lparr>sq_serial := sq_serial s + 1\<rparr>)"
  by (auto simp: send_inv_def leases_def mapped_def less_Suc_eq)

lemma inv_budget [simp]: "send_inv h (on_budget b f s) = send_inv h s"
  by (simp add: on_budget_def split: option.splits)

lemma on_budget_simps [simp]:
  "sq_queues (on_budget b f s) = sq_queues s" "sq_map (on_budget b f s) = sq_map s" "sq_reserved (on_budget b f s) = sq_reserved s"
  "sq_serial (on_budget b f s) = sq_serial s" "sq_log (on_budget b f s) = sq_log s"
  by (simp_all add: on_budget_def split: option.splits)

lemma on_queue_simps [simp]:
  "length (sq_queues (on_queue i f s)) = length (sq_queues s)" "sq_map (on_queue i f s) = sq_map s" "sq_reserved (on_queue i f s) = sq_reserved s"
  "sq_serial (on_queue i f s) = sq_serial s" "sq_log (on_queue i f s) = sq_log s" "leases (on_queue i f s) = leases s" "mapped (on_queue i f s) = mapped s"
  "sq_budgets (on_queue i f s) = sq_budgets s"
  by (simp_all add: on_queue_def leases_def mapped_def fun_eq_iff)

lemma on_queue_nth: "j < length (sq_queues s) \<Longrightarrow> sq_queues (on_queue i f s) ! j = (if j = i then f (sq_queues s ! i) else sq_queues s ! j)"
  by (simp add: on_queue_def nth_list_update)

lemma inv_D:
  assumes "send_inv h s"
  shows "hm_ok (sq_map s)" and "hm_ok (sq_reserved s)"
    and "hm_get (sq_map s) to = Some i \<Longrightarrow> i < length (sq_queues s) \<and> pq_to (sq_queues s ! i) = to"
    and "hm_get (sq_reserved s) r = Some v \<Longrightarrow> rv_queue v < length (sq_queues s) \<and> r < sq_serial s"
    and "h = Some i \<Longrightarrow> i < length (sq_queues s)"
    and "i < length (sq_queues s) \<Longrightarrow> queue_ok (leases s i + of_bool (h = Some i)) (mapped s i) (sq_queues s ! i)"
    and "i < length (sq_queues s) \<Longrightarrow> flow_ok i (sq_log s) (sq_queues s ! i)"
  using assms unfolding send_inv_def by auto

text \<open>One queue changes, with what the engine says of it.\<close>

lemma inv_queue:
  assumes s: "send_inv h s" and i: "i < length (sq_queues s)" and to: "pq_to (f (sq_queues s ! i)) = pq_to (sq_queues s ! i)"
    and q: "queue_ok (leases s i + of_bool (h = Some i)) (mapped s i) (sq_queues s ! i) \<Longrightarrow> flow_ok i (sq_log s) (sq_queues s ! i)
      \<Longrightarrow> queue_ok (leases s i + of_bool (h' = Some i)) (mapped s i) (f (sq_queues s ! i)) \<and> flow_ok i (sq_log s) (f (sq_queues s ! i))"
    and h: "\<And>j. j \<noteq> i \<Longrightarrow> (h' = Some j) = (h = Some j)"
  shows "send_inv h' (on_queue i f s)"
proof (rule send_invI [OF s])
  fix j assume "j < length (sq_queues (on_queue i f s))"
  then show "queue_ok (leases (on_queue i f s) j + of_bool (h' = Some j)) (mapped (on_queue i f s) j) (sq_queues (on_queue i f s) ! j)
      \<and> flow_ok j (sq_log (on_queue i f s)) (sq_queues (on_queue i f s) ! j)"
    using inv_D(6,7) [OF s, of j] q inv_D(6,7) [OF s i] h [of j] by (cases "j = i") (auto simp: on_queue_nth)
next
  fix j assume "h' = Some j"
  then show "j < length (sq_queues (on_queue i f s))" using h [of j] inv_D(5) [OF s, of j] i by (cases "j = i") auto
qed (use inv_D(1-4) [OF s] i to in \<open>auto simp: on_queue_nth\<close>)

lemma pq_to_simps [simp]: "pq_to (lease q) = pq_to q" "pq_to (unlease q) = pq_to q" "pq_to (push_send f q) = pq_to q" "pq_to (close_queue q) = pq_to q"
  by (simp_all add: lease_def unlease_def push_send_def close_queue_def)

lemma inv_telemetry: "send_inv h s \<Longrightarrow> i < length (sq_queues s) \<Longrightarrow> send_inv h (on_queue i (\<lambda>q. q\<lparr>pq_telemetry := t q\<rparr>) s)"
  by (rule inv_queue) auto

lemma release_simps [simp]:
  "length (sq_queues (release_send i p s)) = length (sq_queues s)" "sq_map (release_send i p s) = sq_map s" "sq_log (release_send i p s) = sq_log s"
  "sq_reserved (release_send i p s) = sq_reserved s"
  by (simp_all add: release_send_def Let_def split: option.splits)

lemma inv_release: "send_inv h s \<Longrightarrow> i < length (sq_queues s) \<Longrightarrow> send_inv h (release_send i p s)"
  by (auto simp: release_send_def Let_def intro!: inv_telemetry split: option.splits)

lemma release_queue:
  "i < length (sq_queues s) \<Longrightarrow> \<exists>t. sq_queues (release_send i p s) ! i = (sq_queues s ! i)\<lparr>pq_telemetry := t\<rparr>"
  by (auto simp: release_send_def Let_def on_queue_nth split: option.splits intro: exI [of _ "pq_telemetry (sq_queues s ! i)"])

lemma inv_unlease: "send_inv (Some i) s \<Longrightarrow> send_inv None (on_queue i unlease s)"
  by (rule inv_queue) (auto dest: inv_D(5) intro: queue_ok_unlease)

lemma inv_lease:
  assumes "send_inv None s" and "i < length (sq_queues s)" and "mapped s i"
  shows "send_inv (Some i) (on_queue i lease s)"
proof (rule inv_queue [OF assms(1,2)])
  assume q: "queue_ok (leases s i + of_bool (None = Some i)) (mapped s i) (sq_queues s ! i)" "flow_ok i (sq_log s) (sq_queues s ! i)"
  have "queue_ok (Suc (leases s i)) (mapped s i) (lease (sq_queues s ! i))"
    using q(1) assms(3) by (intro queue_ok_lease) (auto simp: queue_ok_def)
  then show "queue_ok (leases s i + of_bool (Some i = Some i)) (mapped s i) (lease (sq_queues s ! i)) \<and> flow_ok i (sq_log s) (lease (sq_queues s ! i))"
    using q(2) by simp
qed auto

text \<open>A lease moves between a reservation and a call.\<close>

lemma leases_remove:
  assumes "hm_ok (m :: (nat, reservation) hmap)" and "hm_get m r = Some v"
  shows "length (filter (\<lambda>p. rv_queue (snd p) = i) m) = length (filter (\<lambda>p. rv_queue (snd p) = i) (hm_remove r m)) + of_bool (rv_queue v = i)"
proof -
  have "length (filter (\<lambda>p. rv_queue (snd p) = i) l) = hm_sum (\<lambda>v. of_bool (rv_queue v = i)) l" for l :: "(nat, reservation) hmap"
    by (induction l) (auto simp: hm_sum_def)
  note l = this
  show ?thesis unfolding l by (rule hm_sum_remove [OF assms])
qed

lemma leases_insert:
  fixes m :: "(nat, reservation) hmap"
  assumes "hm_ok m"
  shows "length (filter (\<lambda>p. rv_queue (snd p) = i) (hm_insert r v m)) = length (filter (\<lambda>p. rv_queue (snd p) = i) (hm_remove r m)) + of_bool (rv_queue v = i)"
  using leases_remove [of "hm_insert r v m" r v i] assms by simp

lemma inv_take:
  assumes s: "send_inv None s" and r: "hm_get (sq_reserved s) r = Some v"
  shows "send_inv (Some (rv_queue v)) (s\<lparr>sq_reserved := hm_remove r (sq_reserved s)\<rparr>)"
proof (rule send_invI [OF s])
  fix i assume "i < length (sq_queues (s\<lparr>sq_reserved := hm_remove r (sq_reserved s)\<rparr>))"
  then have "i < length (sq_queues s)" by simp
  from inv_D(6,7) [OF s this] leases_remove [OF inv_D(2) [OF s] r, of i]
  show "queue_ok (leases (s\<lparr>sq_reserved := hm_remove r (sq_reserved s)\<rparr>) i + of_bool (Some (rv_queue v) = Some i)) (mapped (s\<lparr>sq_reserved := hm_remove r (sq_reserved s)\<rparr>) i)
      (sq_queues (s\<lparr>sq_reserved := hm_remove r (sq_reserved s)\<rparr>) ! i)
    \<and> flow_ok i (sq_log (s\<lparr>sq_reserved := hm_remove r (sq_reserved s)\<rparr>)) (sq_queues (s\<lparr>sq_reserved := hm_remove r (sq_reserved s)\<rparr>) ! i)"
    by (simp add: leases_def mapped_def)
qed (use inv_D(1-4) [OF s] r in \<open>auto split: if_splits\<close>)

lemma inv_put:
  assumes s: "send_inv (Some i) s" and v: "rv_queue v = i"
  shows "send_inv None (s\<lparr>sq_serial := sq_serial s + 1, sq_reserved := hm_insert (sq_serial s) v (sq_reserved s)\<rparr>)" (is "send_inv None ?s")
proof (rule send_invI [OF s])
  have fresh: "hm_get (sq_reserved s) (sq_serial s) = None" using inv_D(4) [OF s, of "sq_serial s"] by (cases "hm_get (sq_reserved s) (sq_serial s)") auto
  fix j assume "j < length (sq_queues ?s)"
  then have "j < length (sq_queues s)" by simp
  from inv_D(6,7) [OF s this] leases_insert [OF inv_D(2) [OF s], of j "sq_serial s" v] v hm_remove_absent [OF fresh]
  show "queue_ok (leases ?s j + of_bool (None = Some j)) (mapped ?s j) (sq_queues ?s ! j) \<and> flow_ok j (sq_log ?s) (sq_queues ?s ! j)"
    by (simp add: leases_def mapped_def)
qed (use inv_D(1-5) [OF s] v in \<open>auto simp: less_Suc_eq split: if_splits\<close>)

lemma inv_replace:
  assumes s: "send_inv None s" and r: "hm_get (sq_reserved s) r = Some v" and v: "rv_queue v' = rv_queue v"
  shows "send_inv None (s\<lparr>sq_reserved := hm_insert r v' (sq_reserved s)\<rparr>)" (is "send_inv None ?s")
proof (rule send_invI [OF s])
  fix j assume "j < length (sq_queues ?s)"
  then have "j < length (sq_queues s)" by simp
  from inv_D(6,7) [OF s this] leases_insert [OF inv_D(2) [OF s], of j r v'] leases_remove [OF inv_D(2) [OF s] r, of j] v
  show "queue_ok (leases ?s j + of_bool (None = Some j)) (mapped ?s j) (sq_queues ?s ! j) \<and> flow_ok j (sq_log ?s) (sq_queues ?s ! j)"
    by (simp add: leases_def mapped_def)
qed (use inv_D(1-4) [OF s] r v in \<open>auto split: if_splits\<close>)

text \<open>Fewer queues in the map.\<close>

lemma inv_map:
  assumes s: "send_inv h s" and m: "hm_ok m" "\<And>to i. hm_get m to = Some i \<Longrightarrow> hm_get (sq_map s) to = Some i"
  shows "send_inv h (s\<lparr>sq_map := m\<rparr>)"
proof (rule send_invI [OF s])
  fix i assume "i < length (sq_queues (s\<lparr>sq_map := m\<rparr>))"
  then have i: "i < length (sq_queues s)" by simp
  have "mapped (s\<lparr>sq_map := m\<rparr>) i \<Longrightarrow> mapped s i" using m(2) by (auto simp: mapped_def)
  moreover have "leases (s\<lparr>sq_map := m\<rparr>) i = leases s i" by (simp add: leases_def)
  ultimately show "queue_ok (leases (s\<lparr>sq_map := m\<rparr>) i + of_bool (h = Some i)) (mapped (s\<lparr>sq_map := m\<rparr>) i) (sq_queues (s\<lparr>sq_map := m\<rparr>) ! i)
      \<and> flow_ok i (sq_log (s\<lparr>sq_map := m\<rparr>)) (sq_queues (s\<lparr>sq_map := m\<rparr>) ! i)"
    using inv_D(6,7) [OF s i] queue_ok_unmapped by (cases "mapped (s\<lparr>sq_map := m\<rparr>) i") auto
next
  fix to i assume "hm_get (sq_map (s\<lparr>sq_map := m\<rparr>)) to = Some i"
  then show "i < length (sq_queues (s\<lparr>sq_map := m\<rparr>)) \<and> pq_to (sq_queues (s\<lparr>sq_map := m\<rparr>) ! i) = to" using m(2) [of to i] inv_D(3) [OF s, of to i] by simp
qed (use inv_D(2,4,5) [OF s] m(1) in auto)

lemma inv_retire: "send_inv None s \<Longrightarrow> send_inv None (retire_stale env to s)"
proof (cases "hm_get (sq_map s) to")
  case (Some i)
  assume s: "send_inv None s"
  let ?s = "on_budget (pq_budget (sq_queues s ! i)) budget_close (s\<lparr>sq_map := hm_remove to (sq_map s)\<rparr>)"
  have "send_inv None (s\<lparr>sq_map := hm_remove to (sq_map s)\<rparr>)"
    by (rule inv_map [OF s]) (use inv_D(1) [OF s] in \<open>auto split: if_splits\<close>)
  then have "send_inv None (on_queue i (\<lambda>q. q\<lparr>pq_changed := True\<rparr>) ?s)"
    by (intro inv_queue) (use inv_D(3) [OF s Some] in \<open>auto intro: queue_ok_changed\<close>)
  with s Some show ?thesis by (simp add: retire_stale_def)
qed (simp add: retire_stale_def)

lemma hm_get_retain_sub: "hm_ok m \<Longrightarrow> hm_get (hm_retain P m) k = Some v \<Longrightarrow> hm_get m k = Some v"
  by (simp add: hm_get_retain split: option.splits if_splits)

lemma inv_open:
  assumes s: "send_inv None s" and to: "hm_get (sq_map s) to = None" and op: "open_queue env to s = (i, s')"
  shows "send_inv None s'" and "i < length (sq_queues s')" and "mapped s' i"
proof -
  let ?q = "\<lambda>b. queue_new env to b"
  have s': "s' = snd (open_queue env to s)" and i: "i = fst (open_queue env to s)" using op by simp_all
  define b where "b = (case sn_admission env to of Some b \<Rightarrow> Some b
      | None \<Rightarrow> if pipeline_enabled (sn_transfer env) then Some (length (sq_budgets s)) else None)"
  have q: "sq_queues s' = sq_queues s @ [?q b]" "sq_map s' = hm_insert to i (sq_map s)" "i = length (sq_queues s)"
      "sq_reserved s' = sq_reserved s" "sq_serial s' = sq_serial s" "sq_log s' = sq_log s"
    unfolding s' i by (simp_all add: open_queue_def Let_def b_def)
  have zero: "leases s i = 0" 
  proof -
    have "rv_queue (snd p) \<noteq> i" if "p \<in> set (sq_reserved s)" for p
      using inv_D(4) [OF s hm_in_get [OF inv_D(2) [OF s], of "fst p" "snd p"]] that q(3) by auto
    then show ?thesis by (simp add: leases_def filter_empty_conv)
  qed
  have lg: "admits i (sq_log s) = []" "starts i x (sq_log s) = []" "sents i x (sq_log s) = []" for x using s q(3) by (auto simp: send_inv_def)
  have new: "queue_ok 0 m (?q b)" "flow_ok i (sq_log s) (?q b)" for m
    using lg by (auto simp: queue_new_def queue_ok_def flow_ok_def lane_queue_new_def unsent_on_def)
  have mp: "mapped s' j = (j = i \<or> mapped s j)" for j
    using to unfolding mapped_def q(2) hm_get_insert by (metis option.distinct(1) option.inject)
  show "send_inv None s'"
  proof (rule send_invI [OF s])
    fix j assume j: "j < length (sq_queues s')"
    show "queue_ok (leases s' j + of_bool (None = Some j)) (mapped s' j) (sq_queues s' ! j) \<and> flow_ok j (sq_log s') (sq_queues s' ! j)"
    proof (cases "j = i")
      case True
      then show ?thesis using zero new by (simp add: q leases_def nth_append)
    next
      case False
      then have "j < length (sq_queues s)" using j q by simp
      with inv_D(6,7) [OF s this] False show ?thesis by (simp add: q(1,4,6) mp leases_def nth_append)
    qed
  qed (use inv_D(1-4) [OF s] q to in \<open>auto simp: nth_append queue_new_def less_SucI split: if_splits\<close>)
  show "i < length (sq_queues s')" "mapped s' i" using q by (auto simp: mapped_def)
qed

lemma inv_send_queue:
  assumes "send_inv None s" and "send_queue env to s = (i, s')"
  shows "send_inv (Some i) s'"
proof -
  define s1 where "s1 = retire_stale env to s"
  define s2 where "s2 = s1\<lparr>sq_map := hm_retain (\<lambda>_ i. pq_running (sq_queues s1 ! i) \<or> pq_reservations (sq_queues s1 ! i) \<noteq> 0) (sq_map s1)\<rparr>"
  have s1: "send_inv None s1" using inv_retire [OF assms(1)] by (simp add: s1_def)
  have s2: "send_inv None s2" unfolding s2_def by (rule inv_map [OF s1]) (use inv_D(1) [OF s1] hm_get_retain_sub in auto)
  obtain s3 where s3: "(case hm_get (sq_map s2) to of Some i \<Rightarrow> (i, s2) | None \<Rightarrow> open_queue env to s2) = (i, s3)" "s' = on_queue i lease s3"
    using assms(2) unfolding send_queue_def Let_def s1_def [symmetric] s2_def [symmetric] by (auto split: prod.splits)
  have "send_inv None s3 \<and> i < length (sq_queues s3) \<and> mapped s3 i"
  proof (cases "hm_get (sq_map s2) to")
    case None
    with s3(1) inv_open [OF s2 None] show ?thesis by simp
  next
    case (Some j)
    with s3(1) inv_D(3) [OF s2] s2 show ?thesis by (auto simp: mapped_def)
  qed
  then show ?thesis using inv_lease s3(2) by simp
qed

lemma inv_push:
  assumes s: "send_inv (Some i) s" and open_q: "\<not> pq_closed (sq_queues s ! i)"
  shows "send_inv (Some i) (on_queue i (push_send f) (s\<lparr>sq_log := sq_log s @ [Admitted i f]\<rparr>))" (is "send_inv _ ?s")
proof -
  have i: "i < length (sq_queues s)" using inv_D(5) [OF s] by simp
  have other: "flow_ok j (sq_log s @ [Admitted i f]) (sq_queues s ! j)" if "j \<noteq> i" "j < length (sq_queues s)" for j
    using inv_D(7) [OF s that(2)] that(1) by (simp add: flow_ok_log)
  have "queue_ok (leases s i + 1) (mapped s i) (push_send f (sq_queues s ! i))" "flow_ok i (sq_log s @ [Admitted i f]) (push_send f (sq_queues s ! i))"
    using queue_ok_push [of "leases s i" "mapped s i"] flow_ok_push [OF inv_D(7) [OF s i] inv_D(6) [OF s i] open_q] inv_D(6) [OF s i] open_q by simp_all
  then have "queue_ok (leases ?s j + of_bool (Some i = Some j)) (mapped ?s j) (sq_queues ?s ! j) \<and> flow_ok j (sq_log ?s) (sq_queues ?s ! j)"
    if "j < length (sq_queues s)" for j
    using that i other [of j] inv_D(6) [OF s that] by (cases "j = i") (auto simp: on_queue_def leases_def mapped_def nth_list_update)
  moreover have "\<forall>j \<ge> length (sq_queues s). admits j (sq_log s @ [Admitted i f]) = []" using s i by (auto simp: send_inv_def)
  ultimately show ?thesis using s i unfolding send_inv_def by (auto simp: on_queue_def nth_list_update)
qed

lemma inv_admit:
  assumes "send_inv (Some i) s"
  shows "send_inv None (snd (admit_to_queue env i p s))"
proof -
  have i: "i < length (sq_queues s)" using inv_D(5) [OF assms] by simp
  obtain c t where ct: "charge (sq_serial s) (length (ps_data p)) (sc_lane (frame_class (scheduled_send (sn_deser env) p))) (pq_telemetry (sq_queues s ! i)) = (c, t)" by fastforce
  let ?s = "on_queue i (\<lambda>q. q\<lparr>pq_telemetry := t\<rparr>) (s\<lparr>sq_serial := sq_serial s + 1\<rparr>)"
  have s1: "send_inv (Some i) ?s" using inv_telemetry [OF inv_serial [OF assms]] i by simp
  show ?thesis
  proof (cases "pq_closed (sq_queues ?s ! i)")
    case True
    have "send_inv None (on_queue i unlease (release_send i (p\<lparr>ps_telemetry := c\<rparr>) ?s))"
      by (rule inv_unlease, rule inv_release [OF s1]) (simp add: i)
    with True ct show ?thesis by (simp add: admit_to_queue_def Let_def)
  next
    case False
    from inv_unlease [OF inv_push [OF s1 False, of "(scheduled_send (sn_deser env) p)\<lparr>frame_body := p\<lparr>ps_telemetry := c\<rparr>\<rparr>"]] False ct show ?thesis
      by (simp add: admit_to_queue_def Let_def)
  qed
qed

lemma inv_try_dispatch: "send_inv None s \<Longrightarrow> send_inv None (snd (try_dispatch_send env action s))"
proof (cases action)
  case (SendMessage to data m lane)
  assume s: "send_inv None s"
  obtain i s1 where q: "send_queue env to s = (i, s1)" by fastforce
  note s1 = inv_send_queue [OF s q]
  have budgets: "send_inv (Some i) (s1\<lparr>sq_budgets := bs\<rparr>)" for bs using s1 by simp
  show ?thesis
    using s q inv_unlease [OF s1] inv_admit [OF s1] inv_admit [OF budgets]
    by (auto simp: try_dispatch_send_def SendMessage Let_def split: option.splits prod.splits sum.splits)
qed (simp_all add: try_dispatch_send_def)

lemma inv_retain: "send_inv None s \<Longrightarrow> send_inv None (snd (retain_send env to data m s))"
proof -
  assume s: "send_inv None s"
  obtain i s1 where q: "send_queue env to s = (i, s1)" by fastforce
  note s1 = inv_send_queue [OF s q]
  have budgets: "send_inv (Some i) (s1\<lparr>sq_budgets := bs\<rparr>)" for bs using s1 by simp
  show ?thesis
    using s q inv_unlease [OF s1] inv_admit [OF s1] inv_admit [OF budgets]
    by (auto simp: retain_send_def Let_def split: option.splits prod.splits sum.splits)
qed

lemma inv_handle: "send_inv None s \<Longrightarrow> send_inv None (handle_action env action s)"
  by (cases action) (simp_all add: inv_retain)

lemma inv_drop: "send_inv None s \<Longrightarrow> send_inv None (drop_reservation r s)"
proof (cases "hm_get (sq_reserved s) r")
  case (Some v)
  assume s: "send_inv None s"
  let ?s = "s\<lparr>sq_reserved := hm_remove r (sq_reserved s)\<rparr>"
  have s1: "send_inv (Some (rv_queue v)) ?s" using inv_take [OF s Some] .
  then have "send_inv (Some (rv_queue v)) (on_budget (pq_budget (sq_queues ?s ! rv_queue v)) (drop_permit pid) ?s)" for pid by simp
  from inv_unlease [OF this] inv_unlease [OF s1] Some show ?thesis
    by (auto simp: drop_reservation_def Let_def split: reservation_state.splits option.splits)
qed (simp add: drop_reservation_def)

lemma inv_settle:
  assumes s: "send_inv None s" and r: "hm_get (sq_reserved s) r = Some v"
  shows "send_inv None (snd (settle_reservation env r v permit s))"
proof -
  let ?s = "s\<lparr>sq_reserved := hm_insert r (v\<lparr>rv_state := RvGranted permit\<rparr>) (sq_reserved s)\<rparr>"
  have s1: "send_inv None ?s" by (rule inv_replace [OF s r]) simp
  have "send_inv (Some (rv_queue v)) (?s\<lparr>sq_reserved := hm_remove r (sq_reserved ?s)\<rparr>)"
    using inv_take [OF s1, of r "v\<lparr>rv_state := RvGranted permit\<rparr>"] by simp
  from inv_admit [OF this] inv_drop [OF s1] s1 show ?thesis
    by (auto simp: settle_reservation_def Let_def split: option.splits)
qed

lemma inv_reserve_begin: "send_inv None s \<Longrightarrow> send_inv None (snd (reserve_begin env to n lane received s))"
proof -
  assume s: "send_inv None s"
  obtain i s1 where q: "send_queue env to s = (i, s1)" by fastforce
  note s1 = inv_send_queue [OF s q]
  have put: "send_inv None (s1\<lparr>sq_serial := Suc (sq_serial s1), sq_reserved := hm_insert (sq_serial s1) v (sq_reserved s1)\<rparr>)" if "rv_queue v = i" for v
    using inv_put [OF s1 that] by simp
  have settle: "send_inv None (snd (settle_reservation env (sq_serial s1) v permit
      (s1\<lparr>sq_serial := Suc (sq_serial s1), sq_reserved := hm_insert (sq_serial s1) v (sq_reserved s1)\<rparr>)))" if "rv_queue v = i" for v permit
    by (rule inv_settle [OF put [OF that]]) simp
  show ?thesis
    using s q by (auto simp: reserve_begin_def Let_def intro!: settle put inv_drop split: option.splits prod.splits sum.splits)
qed

lemma inv_poll: "send_inv None s \<Longrightarrow> send_inv None (snd (reserve_poll env r s))"
proof (cases "hm_get (sq_reserved s) r")
  case (Some v)
  assume s: "send_inv None s"
  have "send_inv None (snd (settle_reservation env r v permit (s\<lparr>sq_budgets := bs\<rparr>)))" for permit bs
    by (rule inv_settle) (use s Some in auto)
  then show ?thesis using s Some inv_drop [OF s]
    by (auto simp: reserve_poll_def Let_def split: reservation_state.splits option.splits prod.splits sum.splits)
qed (simp add: reserve_poll_def)

lemma inv_commit: "send_inv None s \<Longrightarrow> send_inv None (snd (reserve_commit env r action s))"
proof (cases "hm_get (sq_reserved s) r")
  case (Some v)
  assume s: "send_inv None s"
  have "send_inv (Some (rv_queue v)) ((on_budget b f s)\<lparr>sq_reserved := hm_remove r (sq_reserved (on_budget b f s))\<rparr>)" for b f
    using inv_take [of "on_budget b f s" r v] s Some by simp
  from inv_admit [OF this] inv_drop [OF s] s Some show ?thesis
    by (auto simp: reserve_commit_def Let_def split: reservation_state.splits overlay_action.splits)
qed (simp add: reserve_commit_def)

lemma on_worker_nth: "pq_worker (sq_queues s ! i) = Some w \<Longrightarrow> on_worker i f s = on_queue i (\<lambda>q. q\<lparr>pq_worker := Some (f w)\<rparr>) s"
  by (simp add: on_worker_def on_queue_def)

lemma worker_inD: "worker_in s i ph w \<Longrightarrow> i < length (sq_queues s) \<and> pq_worker (sq_queues s ! i) = Some w \<and> wk_phase w = ph"
  by (simp add: worker_in_def)

lemma inv_worker:
  assumes s: "send_inv None s" and i: "i < length (sq_queues s)" and w: "pq_worker (sq_queues s ! i) = Some w"
    and f: "queue_ok (leases s i) (mapped s i) (sq_queues s ! i) \<Longrightarrow> flow_ok i (sq_log s) (sq_queues s ! i) \<Longrightarrow> worker_ok (leases s i) (sq_queues s ! i) w
      \<Longrightarrow> queue_ok (leases s i) (mapped s i) ((sq_queues s ! i)\<lparr>pq_worker := Some (f w)\<rparr>) \<and> flow_ok i (sq_log s) ((sq_queues s ! i)\<lparr>pq_worker := Some (f w)\<rparr>)"
  shows "send_inv None (on_worker i f s)"
proof -
  have "worker_ok (leases s i) (sq_queues s ! i) w" using inv_D(6) [OF s i] w by (simp add: queue_ok_def)
  then show ?thesis unfolding on_worker_nth [OF w] by (intro inv_queue [OF s i]) (use f in auto)
qed

lemma fold_release:
  assumes "send_inv h s" and "i < length (sq_queues s)"
  shows "send_inv h (fold (\<lambda>x. release_send i (g x)) xs s) \<and> length (sq_queues (fold (\<lambda>x. release_send i (g x)) xs s)) = length (sq_queues s)
    \<and> sq_map (fold (\<lambda>x. release_send i (g x)) xs s) = sq_map s
    \<and> (\<exists>t. sq_queues (fold (\<lambda>x. release_send i (g x)) xs s) ! i = (sq_queues s ! i)\<lparr>pq_telemetry := t\<rparr>)"
  using assms
proof (induction xs arbitrary: s)
  case Nil
  then show ?case by (auto intro: exI [of _ "pq_telemetry (sq_queues s ! i)"])
next
  case (Cons x xs)
  from Cons.IH [of "release_send i (g x) s"] inv_release [OF Cons.prems] release_queue [OF Cons.prems(2), of "g x"] Cons.prems(2) show ?case
    by auto
qed

lemma inv_check:
  assumes s: "send_inv None s" and w: "worker_in s i Checking w"
  shows "send_inv None (worker_check i w s)"
proof -
  note wi = worker_inD [OF w]
  have i: "i < length (sq_queues s)" using wi by simp
  note q = inv_D(6) [OF s i]
  consider (closed) "pq_closed (sq_queues s ! i)"
    | (idle) "\<not> pq_closed (sq_queues s ! i)" "frames (pq_frames (sq_queues s ! i)) = [] \<and> wk_writes w = [] \<and> pq_reservations (sq_queues s ! i) = 0"
    | (go) "\<not> pq_closed (sq_queues s ! i)" "\<not> (frames (pq_frames (sq_queues s ! i)) = [] \<and> wk_writes w = [] \<and> pq_reservations (sq_queues s ! i) = 0)"
    by blast
  then show ?thesis
  proof cases
    case closed
    let ?s = "fold (\<lambda>x. release_send i (frame_body (aw_frame x))) (wk_writes w) s"
    obtain t where t: "send_inv None ?s" "i < length (sq_queues ?s)" "sq_queues ?s ! i = (sq_queues s ! i)\<lparr>pq_telemetry := t\<rparr>"
      using fold_release [OF s i, of "\<lambda>x. frame_body (aw_frame x)" "wk_writes w"] i by auto
    have "\<not> mapped ?s i" "pq_closed (sq_queues ?s ! i)" using closed t inv_D(6) [OF t(1,2)] by (auto simp: queue_ok_def)
    then have "send_inv None (on_queue i (\<lambda>q. q\<lparr>pq_worker := None\<rparr>) ?s)"
      using t by (intro inv_queue) (auto intro: flow_ok_stop queue_ok_stop)
    then show ?thesis using closed by (simp add: worker_check_def)
  next
    case idle
    let ?m = "if hm_get (sq_map s) (pq_to (sq_queues s ! i)) = Some i then hm_remove (pq_to (sq_queues s ! i)) (sq_map s) else sq_map s"
    have s1: "send_inv None (s\<lparr>sq_map := ?m\<rparr>)" by (rule inv_map [OF s]) (use inv_D(1) [OF s] in \<open>auto split: if_splits\<close>)
    have unmapped: "\<not> mapped (s\<lparr>sq_map := ?m\<rparr>) i"
    proof
      assume "mapped (s\<lparr>sq_map := ?m\<rparr>) i"
      then obtain to where to: "hm_get ?m to = Some i" by (auto simp: mapped_def)
      then have get: "hm_get (sq_map s) to = Some i" by (auto split: if_splits)
      then have "pq_to (sq_queues s ! i) = to" using inv_D(3) [OF s] by blast
      with to get show False by simp
    qed
    have "leases s i = 0" using q idle(2) by (simp add: queue_ok_def)
    then have "leases (s\<lparr>sq_map := ?m\<rparr>) i = 0" by (simp add: leases_def)
    then have "send_inv None (on_queue i (\<lambda>q. q\<lparr>pq_worker := None\<rparr>) (s\<lparr>sq_map := ?m\<rparr>))"
      using s1 i idle(2) unmapped by (intro inv_queue) (auto intro: flow_ok_stop queue_ok_stop)
    then show ?thesis using idle by (simp add: worker_check_def Let_def)
  next
    case go
    have "send_inv None (on_worker i (\<lambda>w. w\<lparr>wk_phase := Popping\<rparr>) s)"
    proof (rule inv_worker [OF s i conjunct1 [OF conjunct2 [OF wi]]], rule conjI)
      assume ok: "queue_ok (leases s i) (mapped s i) (sq_queues s ! i)" "flow_ok i (sq_log s) (sq_queues s ! i)"
      then have "pq_reservations (sq_queues s ! i) = leases s i" by (simp add: queue_ok_def)
      then show "queue_ok (leases s i) (mapped s i) ((sq_queues s ! i)\<lparr>pq_worker := Some (w\<lparr>wk_phase := Popping\<rparr>)\<rparr>)"
        using go wi by (intro queue_ok_popping [OF ok(1)]) auto
      show "flow_ok i (sq_log s) ((sq_queues s ! i)\<lparr>pq_worker := Some (w\<lparr>wk_phase := Popping\<rparr>)\<rparr>)"
        using ok(2) wi by (simp add: flow_ok_def unsent_on_def)
    qed
    then show ?thesis using go by (auto simp: worker_check_def Let_def)
  qed
qed

text \<open>A step that also adds to the log of the queue it changes.\<close>

lemma inv_logged:
  assumes s: "send_inv None s" and i: "i < length (sq_queues s)" and to: "pq_to q' = pq_to (sq_queues s ! i)"
    and q: "queue_ok (leases s i) (mapped s i) q'" "flow_ok i (sq_log s @ [e]) q'"
    and e: "(\<exists>b f. e = Started i b f) \<or> (\<exists>b f. e = ToTransport i b f)"
  shows "send_inv None (on_queue i (\<lambda>_. q') (s\<lparr>sq_log := sq_log s @ [e]\<rparr>))" (is "send_inv None ?s")
proof -
  have "flow_ok j (sq_log s @ [e]) (sq_queues s ! j)" if "j \<noteq> i" "j < length (sq_queues s)" for j
    using inv_D(7) [OF s that(2)] that(1) e by (auto simp: flow_ok_log)
  then have "queue_ok (leases ?s j + of_bool (None = Some j)) (mapped ?s j) (sq_queues ?s ! j) \<and> flow_ok j (sq_log ?s) (sq_queues ?s ! j)"
    if "j < length (sq_queues s)" for j
    using that i q inv_D(6) [OF s that] by (cases "j = i") (auto simp: on_queue_def leases_def mapped_def nth_list_update)
  moreover have "\<forall>j \<ge> length (sq_queues s). \<forall>b. admits j (sq_log s @ [e]) = [] \<and> starts j b (sq_log s @ [e]) = [] \<and> sents j b (sq_log s @ [e]) = []"
    using s i e by (auto simp: send_inv_def)
  ultimately show ?thesis using s i to unfolding send_inv_def by (auto simp: on_queue_def nth_list_update)
qed

lemma inv_pop:
  assumes s: "send_inv None s" and w: "worker_in s i Popping w"
  shows "send_inv None (worker_pop i w s)"
proof -
  note wi = worker_inD [OF w]
  have i: "i < length (sq_queues s)" and pw: "pq_worker (sq_queues s ! i) = Some w" and ph: "wk_phase w = Popping" using wi by auto
  have q: "queue_ok (leases s i) (mapped s i) (sq_queues s ! i)" "flow_ok i (sq_log s) (sq_queues s ! i)" using inv_D(6,7) [OF s i] by auto
  obtain res fs where pop: "lane_pop (\<not> wk_ordered_busy w) (\<not> wk_bulk_busy w) (pq_frames (sq_queues s ! i)) = (res, fs)" by fastforce
  show ?thesis
  proof (cases res)
    case None
    have "send_inv None (on_worker i (\<lambda>w. w\<lparr>wk_phase := Waiting\<rparr>) s)"
      by (rule inv_worker [OF s i pw], rule conjI)
        (use queue_ok_waiting [OF q(1) pw ph pop [unfolded None]] q(2) pw in \<open>simp_all add: flow_ok_def unsent_on_def\<close>)
    then show ?thesis using pop None by (simp add: worker_pop_def)
  next
    case (Some x)
    obtain f b where x: "x = (f, b)" by fastforce
    note pop' = pop [unfolded Some x]
    from inv_logged [OF s i _ queue_ok_start [OF q(1) pw ph pop'] flow_ok_start [OF q(2,1) pw ph pop']]
    have "send_inv None (on_queue i (\<lambda>_. (sq_queues s ! i)\<lparr>pq_frames := fs, pq_worker := Some (start_write f b w)\<rparr>) (s\<lparr>sq_log := sq_log s @ [Started i b f]\<rparr>))" by simp
    then show ?thesis using pop' pw i by (simp add: worker_pop_def on_worker_def on_queue_def)
  qed
qed

lemma inv_wake:
  assumes s: "send_inv None s" and w: "worker_in s i Waiting w"
  shows "send_inv None (worker_wake i s)"
proof -
  note wi = worker_inD [OF w]
  let ?f = "\<lambda>q. q\<lparr>pq_changed := False, pq_worker := Some (w\<lparr>wk_phase := Checking\<rparr>)\<rparr>"
  have i: "i < length (sq_queues s)" using wi by simp
  have "unsent_on b (?f (sq_queues s ! i)) = unsent_on b (sq_queues s ! i)" for b using wi by (simp add: unsent_on_def)
  then have "flow_ok i (sq_log s) (?f (sq_queues s ! i))" using inv_D(7) [OF s i] by (simp add: flow_ok_def)
  moreover have "queue_ok (leases s i) (mapped s i) (?f (sq_queues s ! i))" using inv_D(6) [OF s i] wi by (simp add: queue_ok_def worker_ok_def)
  ultimately have "send_inv None (on_queue i ?f s)" by (intro inv_queue [OF s i]) simp_all
  then show ?thesis using wi by (simp add: worker_wake_def on_worker_def on_queue_def)
qed

lemma on_write_eq: "pq_worker (sq_queues s ! i) = Some w \<Longrightarrow> on_write i k f s = on_worker i (\<lambda>w. w\<lparr>wk_writes := (wk_writes w)[k := f (wk_writes w ! k)]\<rparr>) s"
  by (simp add: on_write_def)

lemma inv_write:
  assumes s: "send_inv None s" and w: "worker_in s i Waiting w" and k: "k < length (wk_writes w)"
    and y: "aw_bulk (f (wk_writes w ! k)) = aw_bulk (wk_writes w ! k)"
      "unsent (f (wk_writes w ! k)) \<Longrightarrow> unsent (wk_writes w ! k) \<and> frame_core (aw_frame (f (wk_writes w ! k))) = frame_core (aw_frame (wk_writes w ! k))"
  shows "send_inv None (on_write i k f s)"
proof -
  have i: "i < length (sq_queues s)" and pw: "pq_worker (sq_queues s ! i) = Some w" using worker_inD [OF w] by auto
  show ?thesis unfolding on_write_def
    by (rule inv_worker [OF s i pw]) (use queue_ok_write [OF _ pw k y(1)] flow_ok_write [OF _ _ pw k y(1) y(2)] in blast)
qed

lemma inv_grant:
  assumes "send_inv None s" and "worker_in s i Waiting w" and "k < length (wk_writes w)" and "aw_phase (wk_writes w ! k) = AwaitBudget n"
  shows "send_inv None (write_budget i k n s)"
proof -
  have b: "send_inv None (s\<lparr>sq_budgets := bs\<rparr>)" "worker_in (s\<lparr>sq_budgets := bs\<rparr>) i Waiting w" for bs
    using assms(1,2) by (simp_all add: worker_in_def)
  show ?thesis
    using assms inv_write [OF assms(1-3)] inv_write [OF b assms(3)]
    by (auto simp: write_budget_def unsent_def split: option.splits prod.splits sum.splits)
qed

lemma inv_submit:
  assumes s: "send_inv None s" and w: "worker_in s i Waiting w" and k: "k < length (wk_writes w)" and ready: "aw_phase (wk_writes w ! k) = ReadyToSend"
  shows "send_inv None (write_submit env i k (wk_writes w ! k) s)"
proof (cases "write_valid env (pq_to (sq_queues s ! i)) (frame_body (aw_frame (wk_writes w ! k)))")
  case True
  let ?x = "wk_writes w ! k"
  have i: "i < length (sq_queues s)" and pw: "pq_worker (sq_queues s ! i) = Some w" using worker_inD [OF w] by auto
  have q: "queue_ok (leases s i) (mapped s i) (sq_queues s ! i)" "flow_ok i (sq_log s) (sq_queues s ! i)" using inv_D(6,7) [OF s i] by auto
  then have ok: "worker_ok (leases s i) (sq_queues s ! i) w" using pw by (simp add: queue_ok_def)
  have "queue_ok (leases s i) (mapped s i) ((sq_queues s ! i)\<lparr>pq_worker := Some (w\<lparr>wk_writes := (wk_writes w)[k := ?x\<lparr>aw_phase := InTransport\<rparr>]\<rparr>)\<rparr>)"
    by (rule queue_ok_write [OF q(1) pw k]) simp
  from inv_logged [OF s i _ this flow_ok_submit [OF q(2) ok pw k ready]]
  have "send_inv None (on_queue i (\<lambda>_. (sq_queues s ! i)\<lparr>pq_worker := Some (w\<lparr>wk_writes := (wk_writes w)[k := ?x\<lparr>aw_phase := InTransport\<rparr>]\<rparr>)\<rparr>)
      (s\<lparr>sq_log := sq_log s @ [ToTransport i (aw_bulk ?x) (aw_frame ?x)]\<rparr>))" by simp
  then show ?thesis using True pw i by (simp add: write_submit_def on_write_def on_worker_def on_queue_def)
next
  case False
  have "send_inv None (on_write i k (\<lambda>x. x\<lparr>aw_phase := Refused closed_send\<rparr>) s)"
    by (rule inv_write [OF s w k]) (simp_all add: unsent_def)
  then show ?thesis using False by (simp add: write_submit_def)
qed

lemma inv_finish:
  assumes s: "send_inv None s" and w: "worker_in s i Waiting w" and k: "k < length (wk_writes w)"
  shows "send_inv None (write_finish i k (wk_writes w ! k) res s)"
proof -
  have i: "i < length (sq_queues s)" and pw: "pq_worker (sq_queues s ! i) = Some w" using worker_inD [OF w] by auto
  have fin: "send_inv None (on_worker i (finish_write k (aw_bulk (wk_writes w ! k))) (release_send i p s1))"
    if s1: "send_inv None s1" "sq_queues s1 = sq_queues s" for s1 p
  proof -
    obtain t where t: "sq_queues (release_send i p s1) ! i = (sq_queues s ! i)\<lparr>pq_telemetry := t\<rparr>" using release_queue [of i s1 p] i s1 by auto
    have r: "send_inv None (release_send i p s1)" "i < length (sq_queues (release_send i p s1))" using inv_release [of None s1 i p] s1 i by auto
    have pw': "pq_worker (sq_queues (release_send i p s1) ! i) = Some w" using t pw by simp
    show ?thesis by (rule inv_worker [OF r pw']) (use queue_ok_finish [OF _ pw' k] flow_ok_finish [OF _ _ pw' k] in blast)
  qed
  show ?thesis unfolding write_finish_def Let_def by (rule fin) (use s in auto)
qed

lemma inv_close_one:
  assumes "send_inv None s" and "i < length (sq_queues s)" and "\<not> mapped s i"
  shows "send_inv None (close_one i s) \<and> length (sq_queues (close_one i s)) = length (sq_queues s) \<and> sq_map (close_one i s) = sq_map s"
proof -
  let ?s = "fold (\<lambda>f. release_send i (frame_body f)) (frames (pq_frames (sq_queues s ! i))) s"
  have r: "send_inv None ?s" "length (sq_queues ?s) = length (sq_queues s)" "sq_map ?s = sq_map s"
    using fold_release [OF assms(1,2), of frame_body] by auto
  then have "\<not> mapped ?s i" using assms(3) by (simp add: mapped_def)
  then have "send_inv None (on_queue i close_queue ?s)"
    using r assms(2) queue_ok_close by (intro inv_queue) (auto intro: flow_ok_close)
  then show ?thesis using r by (simp add: close_one_def Let_def)
qed

lemma inv_close: "send_inv None s \<Longrightarrow> send_inv None (close_send_queues s)"
proof -
  assume s: "send_inv None s"
  have "send_inv None (s\<lparr>sq_map := []\<rparr>)" by (rule inv_map [OF s]) auto
  moreover have "\<forall>p \<in> set (sq_map s). snd p < length (sq_queues s)"
    using inv_D(3) [OF s] hm_in_get [OF inv_D(1) [OF s]] by fastforce
  moreover have "send_inv None s' \<Longrightarrow> sq_map s' = [] \<Longrightarrow> \<forall>p \<in> set ps. snd p < length (sq_queues s') \<Longrightarrow> send_inv None (fold (\<lambda>p. close_one (snd p)) ps s')"
    for s' and ps :: "(node_id \<times> nat) list"
  proof (induction ps arbitrary: s')
    case (Cons p ps)
    have "\<not> mapped s' (snd p)" using Cons.prems(2) by (simp add: mapped_def)
    from inv_close_one [OF Cons.prems(1) _ this] Cons show ?case by simp
  qed simp
  ultimately show ?thesis by (simp add: close_send_queues_def)
qed

lemma inv_step: "send_step s s' \<Longrightarrow> send_inv None s \<Longrightarrow> send_inv None s'"
proof (induction rule: send_step.induct)
  case (receive s env action)
  then show ?case by (cases action) (simp_all add: inv_reserve_begin inv_retain inv_handle)
qed (simp_all add: inv_try_dispatch inv_handle reserve_send_def inv_reserve_begin inv_poll inv_commit inv_drop inv_check inv_pop inv_wake inv_grant
    inv_submit inv_finish inv_close)

lemma inv_start: "send_inv None (send_start budgets)"
  by (simp add: send_inv_def send_start_def)

lemma inv_reachable: "send_reachable s \<Longrightarrow> send_inv None s"
  unfolding send_reachable_def
proof (elim exE)
  fix budgets assume "send_step\<^sup>*\<^sup>* (send_start budgets) s"
  then show ?thesis by (induction rule: rtranclp_induct) (auto intro: inv_start inv_step)
qed

text \<open>A small run: one frame is dispatched, and its worker pops it and hands it over.\<close>

definition demo_send_env :: send_env where
  "demo_send_env = \<lparr>sn_running = Some 0, sn_generation = (\<lambda>_. Some 1), sn_transfer = transfer_default, sn_admission = (\<lambda>_. None), sn_deser = (\<lambda>_. None), sn_turn = True\<rparr>"

definition demo_dispatched :: send_engine where
  "demo_dispatched = snd (try_dispatch_send demo_send_env (SendMessage (NodeId ''n'') [1] ReliableOrdered General) (send_start []))"

lemma demo_reachable: "send_reachable demo_dispatched"
  unfolding send_reachable_def demo_dispatched_def by (blast intro: send_step.dispatch)

lemma demo_facts: "length (sq_queues demo_dispatched) = 1" "\<not> pq_closed (sq_queues demo_dispatched ! 0)" "length (frames (pq_frames (sq_queues demo_dispatched ! 0))) = 1"
  "length (admits 0 (sq_log demo_dispatched)) = 1"
  by (simp_all add: demo_dispatched_def demo_send_env_def try_dispatch_send_def pending_new_def send_queue_def retire_stale_def send_start_def open_queue_def
      queue_new_def hm_insert_def hm_retain_def lease_def unlease_def on_queue_def admit_to_queue_def scheduled_send_def from_wire_def send_class_default_def
      charge_def push_send_def push_back_def lane_queue_new_def admits_def Let_def)

section \<open>Properties\<close>

text \<open>
  Property C5. The send queue of a peer keeps order and loses nothing: in every interleaving of
  dispatches, reservations, received frames, budget grants, worker turns, write results, queue
  replacements and closing, the frames handed to the transport on each of the two channels are a
  subsequence of the admitted frames, in the order of admission; and as long as the queue is open,
  every admitted frame of a channel has been started or still waits, in that order.
\<close>

theorem send_queue_in_order:
  assumes "send_reachable s" and "i < length (sq_queues s)"
  defines "q \<equiv> sq_queues s ! i"
  shows "subseq (sents i b (sq_log s)) (admits i (sq_log s))
    \<and> (\<not> pq_closed q \<longrightarrow> filter (\<lambda>f. floating (priority (pq_frames q)) f = b) (admits i (sq_log s)) =
         starts i b (sq_log s) @ map frame_core (filter (\<lambda>f. floating (priority (pq_frames q)) f = b) (frames (pq_frames q))))"
proof -
  have flow: "flow_ok i (sq_log s) q" using inv_D(7) [OF inv_reachable [OF assms(1)] assms(2)] by (simp add: q_def)
  then have "subseq (starts i b (sq_log s)) (admits i (sq_log s))" by (simp add: flow_ok_def)
  with flow_sent [OF flow, of b] have "subseq (sents i b (sq_log s)) (admits i (sq_log s))" by (rule subseq_order.order_trans)
  with flow show ?thesis by (simp add: flow_ok_def)
qed

theorem send_queue_in_order_witness:
  "subseq (sents 0 False (sq_log demo_dispatched)) (admits 0 (sq_log demo_dispatched)) \<and> length (admits 0 (sq_log demo_dispatched)) = 1"
  using send_queue_in_order [OF demo_reachable, of 0 False] demo_facts by simp

text \<open>
  Property C6. No wake-up is lost: in every reachable state an open queue that holds frames has a worker,
  and that worker is running, or has been notified, or has a write in flight whose end resumes it; it
  has at most one write in flight per channel.
\<close>

theorem send_queue_never_stuck:
  assumes "send_reachable s" and "i < length (sq_queues s)" and "\<not> pq_closed (sq_queues s ! i)" and "frames (pq_frames (sq_queues s ! i)) \<noteq> []"
  shows "\<exists>w. pq_worker (sq_queues s ! i) = Some w \<and> (wk_phase w \<noteq> Waiting \<or> pq_changed (sq_queues s ! i) \<or> wk_writes w \<noteq> [])
    \<and> (\<forall>b. length (filter (\<lambda>x. aw_bulk x = b) (wk_writes w)) \<le> 1)"
proof -
  have q: "queue_ok (leases s i) (mapped s i) (sq_queues s ! i)" using inv_D(6) [OF inv_reachable [OF assms(1)] assms(2)] by simp
  then obtain w where w: "pq_worker (sq_queues s ! i) = Some w" "worker_ok (leases s i) (sq_queues s ! i) w"
    using assms(4) by (cases "pq_worker (sq_queues s ! i)") (auto simp: queue_ok_def)
  then show ?thesis using assms(4) worker_channel [OF w(2)] by (auto simp: worker_ok_def)
qed

theorem send_queue_never_stuck_witness:
  "\<exists>w. pq_worker (sq_queues demo_dispatched ! 0) = Some w \<and> (wk_phase w \<noteq> Waiting \<or> pq_changed (sq_queues demo_dispatched ! 0) \<or> wk_writes w \<noteq> [])"
proof -
  have "frames (pq_frames (sq_queues demo_dispatched ! 0)) \<noteq> []" using demo_facts(3) by auto
  with send_queue_never_stuck [OF demo_reachable, of 0] demo_facts show ?thesis by auto
qed

end
