(* ===== verification/Block_Resolver.thy ===== *)
theory Block_Resolver
  imports Storage_Registry Send_Lanes
begin

text \<open>
  Fetching a block from peers (\<open>storage/resolver.rs\<close>): choice of a provider, targeted WANTs with
  their recovery after resets and stalls, discovery by QUERY rounds, sharing of concurrent fetches,
  and prefetching.

  An \<open>async\<close> function is a state machine whose states are its await points. Its \<open>poll\<close> function
  makes one transition: the poll carries the time, the session transports of that moment, and what
  the other tasks did to the shared resolver state since the last poll (\<open>pl_tasks\<close>, any function,
  with the registry signals it caused). The branches of a \<open>select_biased!\<close> are tried in their order.
  A timer is the time at which it fires; times are in milliseconds. A watch receiver is the value it
  has seen last. Sending is decided in the poll in which it completes (\<open>pl_enqueued\<close>), and the place of
  this task in the queue of a semaphore is part of the poll (\<open>pl_turn\<close>). Log lines are left out.
\<close>

section \<open>Constants and configuration\<close>

definition DISCOVERY_IDLE_TIMEOUT :: nat where "DISCOVERY_IDLE_TIMEOUT = 5000"
definition MAX_DISCOVERY_QUERY_ROUNDS :: nat where "MAX_DISCOVERY_QUERY_ROUNDS = 4"
definition IDLE_TIMEOUT :: nat where "IDLE_TIMEOUT = 10000"
definition ATTEMPT_CAP :: nat where "ATTEMPT_CAP = 300000"
definition MAX_ATTEMPTS :: nat where "MAX_ATTEMPTS = 4"
definition MAX_RESET_REREQUESTS :: nat where "MAX_RESET_REREQUESTS = 2"
definition RECONNECT_POLL_INTERVAL :: nat where "RECONNECT_POLL_INTERVAL = 250"
definition MAX_PREFETCH_CIDS :: nat where "MAX_PREFETCH_CIDS = 256"
definition MAX_IN_FLIGHT_FETCHES :: nat where "MAX_IN_FLIGHT_FETCHES = 1024"
definition RESPONDER_ROUTE_RECOVERY :: nat where "RESPONDER_ROUTE_RECOVERY = 5000"

text \<open>\<open>Semaphore::MAX_PERMITS\<close> on a 64-bit target: \<open>usize::MAX >> 3\<close>.\<close>

definition MAX_PERMITS :: nat where "MAX_PERMITS = 2 ^ 61 - 1"

record resolver_timings =
  discovery_timeout :: nat
  idle_timeout :: nat
  attempt_cap :: nat
  max_attempts :: nat

definition timings_default :: resolver_timings where
  "timings_default = \<lparr>discovery_timeout = DISCOVERY_IDLE_TIMEOUT, idle_timeout = IDLE_TIMEOUT,
     attempt_cap = ATTEMPT_CAP, max_attempts = MAX_ATTEMPTS\<rparr>"

text \<open>The two fields of \<open>StorageTransferConfig\<close> the resolver reads.\<close>

record resolver_env =
  timings :: resolver_timings
  max_fetches_per_provider :: nat
  coalesce_fetches :: bool

text \<open>A session transport as one poll sees it: its room and its answers.\<close>

record session =
  ss_room :: string
  ss_reachable :: "node_id \<Rightarrow> bool"
  ss_connected :: "node_id list"
  ss_send :: "node_id \<Rightarrow> bytes \<Rightarrow> unit result"
  ss_broadcast :: "bytes \<Rightarrow> unit result"

datatype discovery_failure = NoReachablePeers | QueryBudgetExhausted | TransportTimeout

fun message :: "discovery_failure \<Rightarrow> string" where
  "message NoReachablePeers = ''No reachable peers on the queried discovery paths''"
| "message QueryBudgetExhausted = ''No provider answered within the discovery query budget''"
| "message TransportTimeout = ''Block discovery transport timeout (fixed cap exceeded)''"

datatype want_send = Sent | Unreachable | Failed

record query_path =
  qp_room :: string
  qp_peer :: node_id
  qp_resets :: nat

text \<open>
  A shared fetch: its future is alive while some subscriber polls it. A provider's semaphore is alive
  while permits are held or awaited.
\<close>

record fetch =
  ft_id :: nat
  ft_subscribers :: nat
  ft_finished :: bool

record resolver =
  rv_registry :: want_registry
  next_peer :: nat
  provider_limits :: "(node_id, nat \<times> nat) hmap"
  in_flight :: "(string list \<times> string, fetch) hmap"
  rv_channels :: nat
  want_sent :: nat
  query_sent :: nat

record poll =
  pl_now :: nat
  pl_sessions :: "session list"
  pl_enqueued :: bool
  pl_turn :: bool
  pl_tasks :: "resolver \<Rightarrow> want_signal list \<times> resolver"

definition resolver_new :: "want_registry \<Rightarrow> resolver" where
  "resolver_new registry = \<lparr>rv_registry = registry, next_peer = 0, provider_limits = [], in_flight = [],
     rv_channels = 0, want_sent = 0, query_sent = 0\<rparr>"

definition on_state :: "(want_state \<Rightarrow> want_state) \<Rightarrow> resolver \<Rightarrow> resolver" where
  "on_state f rv = rv\<lparr>rv_registry := (rv_registry rv)\<lparr>reg_state := f (reg_state (rv_registry rv))\<rparr>\<rparr>"

abbreviation rv_state :: "resolver \<Rightarrow> want_state" where
  "rv_state rv \<equiv> reg_state (rv_registry rv)"

definition prune_on_drop :: "resolver \<Rightarrow> resolver" where
  "prune_on_drop rv = rv\<lparr>rv_registry := cancel_closed (rv_registry rv)\<rparr>"

section \<open>Providers\<close>

definition slots :: "node_id \<Rightarrow> resolver \<Rightarrow> nat \<times> nat" where
  "slots peer rv = (case hm_get (provider_limits rv) peer of None \<Rightarrow> (0, 0) | Some s \<Rightarrow> s)"

definition set_slots :: "node_id \<Rightarrow> (nat \<times> nat \<Rightarrow> nat \<times> nat) \<Rightarrow> resolver \<Rightarrow> resolver" where
  "set_slots peer f rv = rv\<lparr>provider_limits := hm_insert peer (f (slots peer rv)) (provider_limits rv)\<rparr>"

text \<open>A dead weak entry is replaced by a fresh semaphore, after the other dead entries were dropped.\<close>

definition provider_limit :: "resolver_env \<Rightarrow> node_id \<Rightarrow> resolver \<Rightarrow> nat option \<times> resolver" where
  "provider_limit env peer rv =
     (if max_fetches_per_provider env = 0 then (None, rv)
      else
        let quota = min (max_fetches_per_provider env) MAX_PERMITS; (used, waiting) = slots peer rv
        in if used + waiting > 0 then (Some (quota - used), rv)
           else (Some quota, rv\<lparr>provider_limits :=
             hm_insert peer (0, 0) (hm_retain (\<lambda>_ (used, waiting). used + waiting > 0) (provider_limits rv))\<rparr>))"

definition any_reachable :: "session list \<Rightarrow> node_id set \<Rightarrow> bool" where
  "any_reachable sessions peers \<longleftrightarrow> list_ex (\<lambda>s. \<exists>peer \<in> peers. ss_reachable s peer) sessions"

text \<open>\<open>peers.iter().position(..).unwrap_or(0)\<close>; every call of \<open>provider_limit\<close> may renew an entry.\<close>

fun free_provider :: "resolver_env \<Rightarrow> node_id set \<Rightarrow> node_id list \<Rightarrow> resolver \<Rightarrow> nat option \<times> resolver" where
  "free_provider env tried [] rv = (None, rv)"
| "free_provider env tried (peer # peers) rv =
     (let (free, rv) = (if peer \<in> tried then (False, rv)
                        else case provider_limit env peer rv of (limit, rv) \<Rightarrow>
                          (case limit of None \<Rightarrow> False | Some quota \<Rightarrow> quota > 0, rv))
      in if free then (Some 0, rv)
         else case free_provider env tried peers rv of (i, rv) \<Rightarrow> (map_option Suc i, rv))"

definition provider_index :: "resolver_env \<Rightarrow> node_id set \<Rightarrow> node_id list \<Rightarrow> resolver \<Rightarrow> nat \<times> resolver" where
  "provider_index env tried peers rv =
     (if max_fetches_per_provider env = 0 then (0, rv)
      else case free_provider env tried peers rv of (i, rv) \<Rightarrow> (case i of None \<Rightarrow> 0 | Some i \<Rightarrow> i, rv))"

section \<open>Targeted WANTs\<close>

text \<open>One session of the loop of \<open>enqueue_want\<close>, with the flags \<open>sent\<close> and \<open>reachable\<close>.\<close>

definition want_on_session ::
  "nat \<Rightarrow> string \<Rightarrow> node_id \<Rightarrow> session \<Rightarrow> bool \<times> bool \<times> resolver \<Rightarrow> bool \<times> bool \<times> resolver" where
  "want_on_session attempt cid target s = (\<lambda>(sent, reachable, rv).
     if \<not> ss_reachable s target then (sent, reachable, rv)
     else
       let (attached, st) = track_path attempt (ss_room s) (rv_state rv);
           rv = on_state (\<lambda>_. st) rv;
           ok = (case ss_send s target (MSG_WANT # str_bytes cid) of Inl _ \<Rightarrow> False | Inr _ \<Rightarrow> True);
           rv = (if \<not> ok \<and> attached then on_state (untrack_path attempt (ss_room s)) rv else rv);
           rv = (if ok then rv\<lparr>want_sent := wrap64 (want_sent rv + 1)\<rparr> else rv)
       in (sent \<or> ok, True, rv))"

definition enqueue_want :: "session list \<Rightarrow> nat \<Rightarrow> string \<Rightarrow> node_id \<Rightarrow> resolver \<Rightarrow> want_send \<times> resolver" where
  "enqueue_want sessions attempt cid target rv =
     (let (sent, reachable, rv) = fold (want_on_session attempt cid target) sessions (False, False, rv)
      in (if sent then Sent else if reachable then Failed else Unreachable, rv))"

text \<open>
  The states of \<open>attempt\<close>: waiting for a permit; in \<open>send_want\<close>, with the route wait spent so far and
  the time of the next try; waiting for the response, with the silent windows on a live route and the
  end of the current one; waiting for the route to come back, with the end of that wait and the time
  of the next look; waiting for a result that races with closed watches; returned.
\<close>

datatype attempt_phase =
    AtPermit
  | AtSending nat nat
  | AtServing nat nat
  | AtRecovering nat nat
  | AtGrace nat
  | AtDone "bytes option"

record attempt =
  at_cid :: string
  at_target :: node_id
  at_cap :: nat
  at_permit :: bool
  at_id :: nat
  at_inbox :: "bytes option"
  at_resets :: nat
  at_progress :: nat
  at_serving :: bool
  at_rerequests :: nat
  at_phase :: attempt_phase

text \<open>Leaving \<open>attempt\<close> drops the receivers and the permit, or the place in its queue.\<close>

definition attempt_end :: "bytes option \<Rightarrow> attempt \<Rightarrow> resolver \<Rightarrow> attempt \<times> resolver" where
  "attempt_end result a rv =
     (let rv = (if at_permit a then set_slots (at_target a) (\<lambda>(used, waiting). (used - 1, waiting)) rv
                else if at_phase a = AtPermit then set_slots (at_target a) (\<lambda>(used, waiting). (used, waiting - 1)) rv
                else rv);
          rv = (if at_phase a = AtPermit then rv else on_state (drop_receiver (at_id a)) rv)
      in (a\<lparr>at_phase := AtDone result\<rparr>, rv))"

text \<open>From the admission to the first WANT. A refused registration has a closed receiver.\<close>

definition attempt_register :: "nat \<Rightarrow> attempt \<Rightarrow> resolver \<Rightarrow> attempt \<times> resolver" where
  "attempt_register now a rv =
     (let (i, st) = register_attempt (at_cid a) (at_target a) (rv_state rv);
          rv = on_state (\<lambda>_. st) rv;
          a = a\<lparr>at_id := i, at_phase := AtSending 0 now\<rparr>
      in if find_want i st = None then attempt_end None a rv
         else
           let (progress, st) = progress_subscribe (at_target a) st
           in (a\<lparr>at_progress := (case progress of None \<Rightarrow> 0 | Some n \<Rightarrow> n)\<rparr>, on_state (\<lambda>_. st) rv))"

definition attempt_begin :: "resolver_env \<Rightarrow> nat \<Rightarrow> string \<Rightarrow> node_id \<Rightarrow> resolver \<Rightarrow> attempt \<times> resolver" where
  "attempt_begin env now cid target rv =
     (let (limit, rv) = provider_limit env target rv;
          a = \<lparr>at_cid = cid, at_target = target, at_cap = now + attempt_cap (timings env), at_permit = False, at_id = 0,
                at_inbox = None, at_resets = 0, at_progress = 0, at_serving = False, at_rerequests = 0, at_phase = AtPermit\<rparr>
      in case limit of
           None \<Rightarrow> attempt_register now a rv
         | Some _ \<Rightarrow> (a, set_slots target (\<lambda>(used, waiting). (used, waiting + 1)) rv))"

definition permit_granted :: "resolver_env \<Rightarrow> poll \<Rightarrow> attempt \<Rightarrow> resolver \<Rightarrow> bool" where
  "permit_granted env p a rv \<longleftrightarrow> pl_turn p
     \<and> fst (slots (at_target a) rv) < min (max_fetches_per_provider env) MAX_PERMITS"

definition attempt_admit :: "nat \<Rightarrow> attempt \<Rightarrow> resolver \<Rightarrow> attempt \<times> resolver" where
  "attempt_admit now a rv =
     attempt_register now (a\<lparr>at_permit := True\<rparr>) (set_slots (at_target a) (\<lambda>(used, waiting). (used + 1, waiting - 1)) rv)"

text \<open>The inner future has returned \<open>false\<close>: take a result that is already there.\<close>

definition attempt_fail :: "attempt \<Rightarrow> resolver \<Rightarrow> attempt \<times> resolver" where
  "attempt_fail a rv = attempt_end (at_inbox a) a rv"

definition attempt_recover :: "resolver_env \<Rightarrow> nat \<Rightarrow> attempt \<Rightarrow> resolver \<Rightarrow> attempt \<times> resolver" where
  "attempt_recover env now a rv =
     (if at_rerequests a \<ge> MAX_RESET_REREQUESTS then attempt_fail a rv
      else (a\<lparr>at_phase := AtRecovering (now + idle_timeout (timings env)) now\<rparr>, rv))"

definition watches_closed :: "nat \<Rightarrow> attempt \<Rightarrow> attempt" where
  "watches_closed now a = a\<lparr>at_phase := AtGrace (now + RECONNECT_POLL_INTERVAL)\<rparr>"

text \<open>\<open>resets.changed()\<close>, with the continuation for the case that nothing has changed.\<close>

definition on_reset ::
  "resolver_env \<Rightarrow> nat \<Rightarrow> attempt \<Rightarrow> resolver \<Rightarrow> attempt \<times> resolver \<Rightarrow> attempt \<times> resolver" where
  "on_reset env now a rv otherwise =
     (case find_want (at_id a) (rv_state rv) of
        None \<Rightarrow> (watches_closed now a, rv)
      | Some want \<Rightarrow>
          if want_resets want \<noteq> at_resets a then attempt_recover env now (a\<lparr>at_resets := want_resets want\<rparr>) rv
          else otherwise)"

definition attempt_send :: "resolver_env \<Rightarrow> poll \<Rightarrow> nat \<Rightarrow> nat \<Rightarrow> attempt \<Rightarrow> resolver \<Rightarrow> attempt \<times> resolver" where
  "attempt_send env p route_wait wake a rv =
     (if \<not> (wake \<le> pl_now p \<and> pl_enqueued p) then (a, rv)
      else case enqueue_want (pl_sessions p) (at_id a) (at_cid a) (at_target a) rv of (outcome, rv) \<Rightarrow>
        (case outcome of
           Sent \<Rightarrow> (a\<lparr>at_phase := AtServing 0 (pl_now p + idle_timeout (timings env))\<rparr>, rv)
         | Failed \<Rightarrow> attempt_fail a rv
         | Unreachable \<Rightarrow>
             if route_wait \<ge> RESPONDER_ROUTE_RECOVERY then attempt_fail a rv
             else
               let delay = min RECONNECT_POLL_INTERVAL (RESPONDER_ROUTE_RECOVERY - route_wait)
               in (a\<lparr>at_phase := AtSending (route_wait + delay) (pl_now p + delay)\<rparr>, rv)))"

definition attempt_wait :: "resolver_env \<Rightarrow> poll \<Rightarrow> nat \<Rightarrow> nat \<Rightarrow> attempt \<Rightarrow> resolver \<Rightarrow> attempt \<times> resolver" where
  "attempt_wait env p stalls idle_at a rv =
     (let idle = pl_now p + idle_timeout (timings env) in
      case hm_get (sender_progress (rv_state rv)) (at_target a) of
        None \<Rightarrow> (watches_closed (pl_now p) a, rv)
      | Some progress \<Rightarrow>
          if progress \<noteq> at_progress a then
            (a\<lparr>at_progress := progress, at_serving := True, at_phase := AtServing 0 idle\<rparr>, rv)
          else if idle_at \<le> pl_now p then
            if at_serving a then
              let stalls = (if any_reachable (pl_sessions p) {at_target a} then stalls + 1 else 0)
              in if stalls \<ge> 2 then attempt_recover env (pl_now p) a rv else (a\<lparr>at_phase := AtServing stalls idle\<rparr>, rv)
            else attempt_fail a rv
          else (a, rv))"

definition attempt_look :: "poll \<Rightarrow> nat \<Rightarrow> nat \<Rightarrow> attempt \<Rightarrow> resolver \<Rightarrow> attempt \<times> resolver" where
  "attempt_look p idle_at look_at a rv =
     (if idle_at \<le> pl_now p then attempt_fail a rv
      else if look_at \<le> pl_now p then
        let a = a\<lparr>at_resets := (case find_want (at_id a) (rv_state rv) of None \<Rightarrow> at_resets a | Some want \<Rightarrow> want_resets want)\<rparr>
        in if any_reachable (pl_sessions p) {at_target a}
           then (a\<lparr>at_rerequests := at_rerequests a + 1, at_phase := AtSending 0 (pl_now p)\<rparr>, rv)
           else (a\<lparr>at_phase := AtRecovering idle_at (pl_now p + RECONNECT_POLL_INTERVAL)\<rparr>, rv)
      else (a, rv))"

fun attempt_inner :: "resolver_env \<Rightarrow> poll \<Rightarrow> attempt_phase \<Rightarrow> attempt \<Rightarrow> resolver \<Rightarrow> attempt \<times> resolver" where
  "attempt_inner env p (AtSending route_wait wake) a rv = on_reset env (pl_now p) a rv (attempt_send env p route_wait wake a rv)"
| "attempt_inner env p (AtServing stalls idle_at) a rv = on_reset env (pl_now p) a rv (attempt_wait env p stalls idle_at a rv)"
| "attempt_inner env p (AtRecovering idle_at look_at) a rv = attempt_look p idle_at look_at a rv"
| "attempt_inner env p (AtGrace grace_at) a rv = (if grace_at \<le> pl_now p then attempt_end None a rv else (a, rv))"
| "attempt_inner env p phase a rv = (a, rv)"

text \<open>
  The outer \<open>select_biased!\<close>. In the grace wait the result comes before the cap.
\<close>

definition attempt_receive :: "attempt \<Rightarrow> resolver \<Rightarrow> attempt \<times> resolver \<Rightarrow> attempt \<times> resolver" where
  "attempt_receive a rv otherwise =
     (case at_inbox a of
        Some block \<Rightarrow> attempt_end (Some block) a rv
      | None \<Rightarrow> if find_want (at_id a) (rv_state rv) = None then attempt_end None a rv else otherwise)"

definition attempt_poll :: "resolver_env \<Rightarrow> poll \<Rightarrow> attempt \<Rightarrow> resolver \<Rightarrow> attempt \<times> resolver" where
  "attempt_poll env p a rv =
     (case at_phase a of
        AtDone _ \<Rightarrow> (a, rv)
      | AtPermit \<Rightarrow>
          if at_cap a \<le> pl_now p then attempt_end None a rv
          else if permit_granted env p a rv then attempt_admit (pl_now p) a rv
          else (a, rv)
      | AtGrace grace_at \<Rightarrow>
          attempt_receive a rv
            (if at_cap a \<le> pl_now p then attempt_end None a rv else attempt_inner env p (at_phase a) a rv)
      | phase \<Rightarrow>
          if at_cap a \<le> pl_now p then attempt_end None a rv
          else attempt_receive a rv (attempt_inner env p phase a rv))"

text \<open>What the other tasks did may have put a block into the attempt's channel.\<close>

definition delivered_to :: "nat \<Rightarrow> want_signal list \<Rightarrow> bytes option" where
  "delivered_to i signals =
     (case filter (\<lambda>s. case s of Deliver j _ \<Rightarrow> j = i | Overflow _ _ \<Rightarrow> False) signals of
        Deliver _ block # _ \<Rightarrow> Some block
      | _ \<Rightarrow> None)"

definition attempt_notice :: "want_signal list \<Rightarrow> attempt \<Rightarrow> attempt" where
  "attempt_notice signals a =
     (if at_phase a \<noteq> AtPermit \<and> at_inbox a = None then a\<lparr>at_inbox := delivered_to (at_id a) signals\<rparr> else a)"

section \<open>Discovery\<close>

definition subscribe_path :: "string \<Rightarrow> node_id \<Rightarrow> query_path list \<times> resolver \<Rightarrow> query_path list \<times> resolver" where
  "subscribe_path room peer = (\<lambda>(queried, rv).
     case query_path_resets room peer (rv_state rv) of (resets, st) \<Rightarrow>
       (queried @ [\<lparr>qp_room = room, qp_peer = peer, qp_resets = resets\<rparr>], on_state (\<lambda>_. st) rv))"

definition path_generation :: "query_path \<Rightarrow> resolver \<Rightarrow> nat option" where
  "path_generation path rv = map_option fst (hm_get (query_paths (rv_state rv)) (qp_room path, qp_peer path))"

definition on_session_path :: "session \<Rightarrow> query_path \<Rightarrow> bool" where
  "on_session_path s path \<longleftrightarrow> qp_room path = ss_room s \<and> ss_reachable s (qp_peer path)"

definition mark_seen_path :: "resolver \<Rightarrow> session \<Rightarrow> query_path \<Rightarrow> query_path" where
  "mark_seen_path rv s path =
     (if on_session_path s path
      then path\<lparr>qp_resets := (case path_generation path rv of None \<Rightarrow> qp_resets path | Some n \<Rightarrow> n)\<rparr> else path)"

definition broadcast_on :: "string \<Rightarrow> session \<Rightarrow> resolver \<Rightarrow> resolver" where
  "broadcast_on cid s rv =
     (case ss_broadcast s (build_query_message cid) of
        Inl _ \<Rightarrow> rv
      | Inr _ \<Rightarrow> rv\<lparr>query_sent := wrap64 (query_sent rv + 1)\<rparr>)"

definition query_on_session ::
  "string \<Rightarrow> bool \<Rightarrow> session \<Rightarrow> bool \<times> query_path list \<times> resolver \<Rightarrow> bool \<times> query_path list \<times> resolver" where
  "query_on_session cid initial s = (\<lambda>(enqueued, queried, rv).
     if initial then
       let (queried, rv) = fold (subscribe_path (ss_room s)) (ss_connected s) (queried, rv)
       in (True, queried, broadcast_on cid s rv)
     else if list_ex (on_session_path s) queried then
       (True, map (mark_seen_path rv s) queried, broadcast_on cid s rv)
     else (enqueued, queried, rv))"

definition broadcast_query ::
  "string \<Rightarrow> bool \<Rightarrow> session list \<Rightarrow> query_path list \<Rightarrow> resolver \<Rightarrow> bool \<times> query_path list \<times> resolver" where
  "broadcast_query cid initial sessions queried rv =
     fold (query_on_session cid initial) sessions (False, queried, rv)"

definition session_of :: "session list \<Rightarrow> query_path \<Rightarrow> session option" where
  "session_of sessions path = find (\<lambda>s. ss_room s = qp_room path) sessions"

definition path_reachable :: "session list \<Rightarrow> query_path \<Rightarrow> bool" where
  "path_reachable sessions path \<longleftrightarrow>
     (case session_of sessions path of None \<Rightarrow> False | Some s \<Rightarrow> ss_reachable s (qp_peer path))"

definition path_temporary :: "session list \<Rightarrow> resolver \<Rightarrow> query_path \<Rightarrow> bool" where
  "path_temporary sessions rv path \<longleftrightarrow>
     (case session_of sessions path of
        None \<Rightarrow> False
      | Some s \<Rightarrow> \<not> ss_reachable s (qp_peer path) \<and> path_generation path rv = Some (qp_resets path))"

definition query_path_state :: "session list \<Rightarrow> query_path list \<Rightarrow> resolver \<Rightarrow> bool \<times> bool" where
  "query_path_state sessions queried rv =
     (list_ex (path_reachable sessions) queried, list_ex (path_temporary sessions rv) queried)"

text \<open>
  The states of the exchange: not started; a silent window that ends at a time; waiting to look at the
  routes again. The discovery has ended with providers or with a failure.
\<close>

datatype discovery_phase =
    DcStart
  | DcWindow nat
  | DcLook nat
  | DcDone "discovery_failure + node_id list"

record discovery =
  dc_cid :: string
  dc_tried :: "node_id set"
  dc_cap :: nat
  dc_notifier :: nat
  dc_checked :: bool
  dc_progress :: nat
  dc_rounds :: nat
  dc_queried :: "query_path list"
  dc_phase :: discovery_phase

definition arm_notifier :: "string \<Rightarrow> resolver \<Rightarrow> nat \<times> resolver" where
  "arm_notifier cid rv =
     (let nid = rv_channels rv in
      (nid, rv\<lparr>rv_channels := nid + 1, rv_registry := register_peer_notifier nid cid (rv_registry rv)\<rparr>))"

definition discover_begin :: "resolver_env \<Rightarrow> nat \<Rightarrow> string \<Rightarrow> node_id set \<Rightarrow> resolver \<Rightarrow> discovery \<times> resolver" where
  "discover_begin env now cid tried rv =
     (let (nid, rv) = arm_notifier cid rv
      in (\<lparr>dc_cid = cid, dc_tried = tried, dc_cap = now + attempt_cap (timings env), dc_notifier = nid,
           dc_checked = False, dc_progress = any_progress (rv_state rv), dc_rounds = 1, dc_queried = [], dc_phase = DcStart\<rparr>, rv))"

text \<open>Leaving \<open>discover\<close> drops the notifier's receiver and the receivers of the paths, then prunes.\<close>

definition drop_path :: "query_path \<Rightarrow> resolver \<Rightarrow> resolver" where
  "drop_path path = on_state (\<lambda>st. st\<lparr>query_paths :=
     hm_update (qp_room path, qp_peer path) (\<lambda>(counter, receivers). (counter, receivers - 1)) (query_paths st)\<rparr>)"

definition close_notifier :: "nat \<Rightarrow> resolver \<Rightarrow> resolver" where
  "close_notifier nid rv = rv\<lparr>rv_registry := (rv_registry rv)\<lparr>peer_notifiers :=
     hm_map (\<lambda>_. map (\<lambda>n. if notifier_id n = nid then n\<lparr>notifier_closed := True\<rparr> else n)) (peer_notifiers (rv_registry rv))\<rparr>\<rparr>"

definition discover_end :: "discovery_failure + node_id list \<Rightarrow> discovery \<Rightarrow> resolver \<Rightarrow> discovery \<times> resolver" where
  "discover_end result d rv =
     (d\<lparr>dc_phase := DcDone result\<rparr>, prune_on_drop (fold drop_path (dc_queried d) (close_notifier (dc_notifier d) rv)))"

text \<open>\<open>discovery_timeout.saturating_mul(1 << (rounds - 1))\<close>; at most four rounds cannot saturate.\<close>

definition query_window :: "resolver_env \<Rightarrow> nat \<Rightarrow> nat" where
  "query_window env rounds = discovery_timeout (timings env) * 2 ^ (rounds - 1)"

definition open_window :: "resolver_env \<Rightarrow> nat \<Rightarrow> discovery \<Rightarrow> discovery" where
  "open_window env now d = d\<lparr>dc_phase := DcWindow (now + query_window env (dc_rounds d))\<rparr>"

text \<open>The inner loop after a silent window.\<close>

definition exchange_check :: "resolver_env \<Rightarrow> poll \<Rightarrow> discovery \<Rightarrow> resolver \<Rightarrow> discovery \<times> resolver" where
  "exchange_check env p d rv =
     (let now = pl_now p; look = DcLook (now + RECONNECT_POLL_INTERVAL);
          (reachable, temporary) = query_path_state (pl_sessions p) (dc_queried d) rv;
          (senders, st) = outstanding_senders (rv_state rv);
          rv = on_state (\<lambda>_. st) rv;
          outstanding = any_reachable (pl_sessions p) senders
      in if reachable \<and> dc_rounds d < MAX_DISCOVERY_QUERY_ROUNDS then
           let (enqueued, queried, rv) = broadcast_query (dc_cid d) False (pl_sessions p) (dc_queried d) rv;
               d = d\<lparr>dc_queried := queried\<rparr>
           in if enqueued then (open_window env now (d\<lparr>dc_rounds := dc_rounds d + 1\<rparr>), rv) else (d\<lparr>dc_phase := look\<rparr>, rv)
         else if \<not> outstanding \<and> \<not> reachable \<and> \<not> temporary then discover_end (Inl NoReachablePeers) d rv
         else if \<not> outstanding \<and> dc_rounds d = MAX_DISCOVERY_QUERY_ROUNDS then discover_end (Inl QueryBudgetExhausted) d rv
         else if \<not> reachable \<and> temporary then (d\<lparr>dc_phase := look\<rparr>, rv)
         else (open_window env now d, rv))"

fun query_exchange :: "resolver_env \<Rightarrow> poll \<Rightarrow> discovery_phase \<Rightarrow> discovery \<Rightarrow> resolver \<Rightarrow> discovery \<times> resolver" where
  "query_exchange env p DcStart d rv =
     (let (_, queried, rv) = broadcast_query (dc_cid d) True (pl_sessions p) (dc_queried d) rv
      in (open_window env (pl_now p) (d\<lparr>dc_queried := queried\<rparr>), rv))"
| "query_exchange env p (DcWindow idle_at) d rv =
     (if any_progress (rv_state rv) \<noteq> dc_progress d
      then (open_window env (pl_now p) (d\<lparr>dc_progress := any_progress (rv_state rv)\<rparr>), rv)
      else if idle_at \<le> pl_now p then exchange_check env p d rv
      else (d, rv))"
| "query_exchange env p (DcLook look_at) d rv = (if look_at \<le> pl_now p then exchange_check env p d rv else (d, rv))"
| "query_exchange env p (DcDone result) d rv = (d, rv)"

text \<open>
  The inner \<open>discover\<close> future reads the cache at its first poll and after every notification; a
  notifier that is gone from the registry has been used.
\<close>

definition untried_peers :: "string \<Rightarrow> node_id set \<Rightarrow> resolver \<Rightarrow> node_id list" where
  "untried_peers cid tried rv = filter (\<lambda>peer. peer \<notin> tried) (get_peers cid (rv_registry rv))"

definition notified :: "discovery \<Rightarrow> resolver \<Rightarrow> bool" where
  "notified d rv \<longleftrightarrow> \<not> list_ex (\<lambda>n. notifier_id n = dc_notifier d)
     (case hm_get (peer_notifiers (rv_registry rv)) (dc_cid d) of None \<Rightarrow> [] | Some l \<Rightarrow> l)"

definition rearm :: "discovery \<Rightarrow> resolver \<Rightarrow> discovery \<times> resolver" where
  "rearm d rv = (let (nid, rv) = arm_notifier (dc_cid d) rv in (d\<lparr>dc_notifier := nid\<rparr>, rv))"

definition discover_poll :: "resolver_env \<Rightarrow> poll \<Rightarrow> discovery \<Rightarrow> resolver \<Rightarrow> discovery \<times> resolver" where
  "discover_poll env p d rv =
     (case dc_phase d of
        DcDone _ \<Rightarrow> (d, rv)
      | phase \<Rightarrow>
          if dc_cap d \<le> pl_now p then discover_end (Inl TransportTimeout) d rv
          else
            let look = \<not> dc_checked d \<or> notified d rv;
                (d, rv) = (if dc_checked d \<and> notified d rv then rearm d rv else (d, rv));
                peers = untried_peers (dc_cid d) (dc_tried d) rv;
                d = d\<lparr>dc_checked := True\<rparr>
            in if look \<and> peers \<noteq> [] then discover_end (Inr peers) d rv
               else query_exchange env p phase d rv)"

section \<open>Resolving a block\<close>

datatype resolve_phase =
    RkAttempt attempt "node_id list"
  | RkDiscover discovery
  | RkDone "string + bytes option"

record resolve_task =
  rk_cid :: string
  rk_tried :: "node_id list"
  rk_discovered :: bool
  rk_phase :: resolve_phase

datatype pick = PickPeer node_id "node_id list" | PickEmpty | PickStop

text \<open>The inner \<open>while\<close> loop up to its next await.\<close>

function pick_peer :: "resolver_env \<Rightarrow> node_id list \<Rightarrow> node_id list \<Rightarrow> resolver \<Rightarrow> pick \<times> resolver" where
  "pick_peer env tried peers rv =
     (if peers = [] then (PickEmpty, rv)
      else case provider_index env (set tried) peers rv of (i, rv) \<Rightarrow>
        if length tried \<ge> max_attempts (timings env) then (PickStop, rv)
        else if peers ! i \<in> set tried then pick_peer env tried (remove_nth i peers) rv
        else (PickPeer (peers ! i) (remove_nth i peers), rv))"
  by pat_completeness auto

lemma free_provider_bound: "free_provider env tried peers rv = (Some i, rv') \<Longrightarrow> i < length peers"
  by (induction peers arbitrary: rv i rv') (auto simp: Let_def split: prod.splits if_splits)

lemma provider_index_bound: "peers \<noteq> [] \<Longrightarrow> provider_index env tried peers rv = (i, rv') \<Longrightarrow> i < length peers"
  by (auto simp: provider_index_def split: if_splits prod.splits option.splits dest: free_provider_bound)

lemma length_remove_nth: "i < length xs \<Longrightarrow> length (remove_nth i xs) < length xs"
  by (simp add: remove_nth_def)

termination pick_peer
  by (relation "measure (\<lambda>(env, tried, peers, rv). length peers)")
    (auto intro!: length_remove_nth elim: provider_index_bound [OF _ sym])

declare pick_peer.simps [simp del]

lemma pick_peer_untried: "fst (pick_peer env tried peers rv) = PickPeer peer rest \<Longrightarrow> peer \<notin> set tried"
  by (induction env tried peers rv rule: pick_peer.induct)
    (subst (asm) (2) pick_peer.simps, auto split: if_splits prod.splits)

lemma pick_peer_within: "fst (pick_peer env tried peers rv) = PickPeer peer rest \<Longrightarrow> length tried < max_attempts (timings env)"
  by (induction env tried peers rv rule: pick_peer.induct)
    (subst (asm) (2) pick_peer.simps, auto split: if_splits prod.splits)

lemma pick_peer_nonempty:
  "peers \<noteq> [] \<Longrightarrow> \<forall>peer \<in> set peers. peer \<notin> set tried \<Longrightarrow> fst (pick_peer env tried peers rv) \<noteq> PickEmpty"
  by (subst pick_peer.simps) (auto split: prod.splits dest: provider_index_bound)

text \<open>The outer \<open>while\<close> loop up to its next await or return.\<close>

definition resolve_return :: "string + bytes option \<Rightarrow> resolve_task \<Rightarrow> resolver \<Rightarrow> resolve_task \<times> resolver" where
  "resolve_return result t rv = (t\<lparr>rk_phase := RkDone result\<rparr>, prune_on_drop rv)"

definition resolve_try ::
  "resolver_env \<Rightarrow> nat \<Rightarrow> node_id \<Rightarrow> node_id list \<Rightarrow> resolve_task \<Rightarrow> resolver \<Rightarrow> resolve_task \<times> resolver" where
  "resolve_try env now peer rest t rv =
     (let (a, rv) = attempt_begin env now (rk_cid t) peer rv
      in (t\<lparr>rk_tried := rk_tried t @ [peer], rk_phase := RkAttempt a rest\<rparr>, rv))"

definition resolve_discover :: "resolver_env \<Rightarrow> nat \<Rightarrow> resolve_task \<Rightarrow> resolver \<Rightarrow> resolve_task \<times> resolver" where
  "resolve_discover env now t rv =
     (let (d, rv) = discover_begin env now (rk_cid t) (set (rk_tried t)) rv in (t\<lparr>rk_phase := RkDiscover d\<rparr>, rv))"

function resolve_next :: "resolver_env \<Rightarrow> nat \<Rightarrow> node_id list \<Rightarrow> resolve_task \<Rightarrow> resolver \<Rightarrow> resolve_task \<times> resolver" where
  "resolve_next env now peers t rv =
     (case pick_peer env (rk_tried t) peers rv of (choice, rv) \<Rightarrow>
        case choice of
          PickPeer peer rest \<Rightarrow> resolve_try env now peer rest t rv
        | PickStop \<Rightarrow> resolve_return (Inr None) t rv
        | PickEmpty \<Rightarrow>
            if length (rk_tried t) \<ge> max_attempts (timings env) then resolve_return (Inr None) t rv
            else if rk_discovered t then
              let peers = untried_peers (rk_cid t) (set (rk_tried t)) rv
              in if peers = [] then resolve_return (Inr None) t rv else resolve_next env now peers t rv
            else resolve_discover env now t rv)"
  by pat_completeness auto

lemma untried_peers_untried: "peer \<in> set (untried_peers cid tried rv) \<Longrightarrow> peer \<notin> tried"
  by (simp add: untried_peers_def)

termination resolve_next
proof (relation "measure (\<lambda>(env, now, peers, t, rv). if fst (pick_peer env (rk_tried t) peers rv) = PickEmpty then 1 else 0)", goal_cases)
  case 1
  show ?case by simp
next
  case (2 env now peers t rv x y choice)
  then show ?case
    using pick_peer_nonempty [of "untried_peers (rk_cid t) (set (rk_tried t)) y" "rk_tried t" env y]
    by (auto simp: untried_peers_untried dest: arg_cong [where f = fst])
qed

declare resolve_next.simps [simp del]

definition resolve_begin :: "resolver_env \<Rightarrow> nat \<Rightarrow> string \<Rightarrow> resolver \<Rightarrow> resolve_task \<times> resolver" where
  "resolve_begin env now cid rv =
     (let peers = get_peers cid (rv_registry rv);
          t = \<lparr>rk_cid = cid, rk_tried = [], rk_discovered = False, rk_phase = RkDone (Inr None)\<rparr>
      in if peers = [] then resolve_next env now peers t rv
         else resolve_next env now (rotate (next_peer rv mod length peers) peers) t
                (rv\<lparr>next_peer := wrap64 (next_peer rv + 1)\<rparr>))"

definition after_attempt ::
  "resolver_env \<Rightarrow> nat \<Rightarrow> bytes option \<Rightarrow> node_id list \<Rightarrow> resolve_task \<Rightarrow> resolver \<Rightarrow> resolve_task \<times> resolver" where
  "after_attempt env now result rest t rv =
     (let rv = prune_on_drop rv
      in if result \<noteq> None then resolve_return (Inr result) t rv else resolve_next env now rest t rv)"

definition after_discover ::
  "resolver_env \<Rightarrow> nat \<Rightarrow> discovery_failure + node_id list \<Rightarrow> resolve_task \<Rightarrow> resolver \<Rightarrow> resolve_task \<times> resolver" where
  "after_discover env now result t rv =
     (case result of
        Inl reason \<Rightarrow> resolve_return (Inl (message reason @ '': '' @ rk_cid t)) t rv
      | Inr peers \<Rightarrow> resolve_next env now peers (t\<lparr>rk_discovered := True\<rparr>) rv)"

text \<open>One transition of \<open>resolve_uncoalesced\<close>: the awaited future is polled and, if it is ready, resumed from.\<close>

definition resolve_poll :: "resolver_env \<Rightarrow> poll \<Rightarrow> resolve_task \<times> resolver \<Rightarrow> resolve_task \<times> resolver" where
  "resolve_poll env p = (\<lambda>(t, rv).
     case pl_tasks p rv of (signals, rv) \<Rightarrow>
       case rk_phase t of
         RkDone _ \<Rightarrow> (t, rv)
       | RkAttempt a rest \<Rightarrow>
           (case attempt_poll env p (attempt_notice signals a) rv of (a, rv) \<Rightarrow>
              case at_phase a of
                AtDone result \<Rightarrow> after_attempt env (pl_now p) result rest t rv
              | _ \<Rightarrow> (t\<lparr>rk_phase := RkAttempt a rest\<rparr>, rv))
       | RkDiscover d \<Rightarrow>
           (case discover_poll env p d rv of (d, rv) \<Rightarrow>
              case dc_phase d of
                DcDone result \<Rightarrow> after_discover env (pl_now p) result t rv
              | _ \<Rightarrow> (t\<lparr>rk_phase := RkDiscover d\<rparr>, rv)))"

definition resolve_run :: "resolver_env \<Rightarrow> poll list \<Rightarrow> resolve_task \<times> resolver \<Rightarrow> resolve_task \<times> resolver" where
  "resolve_run env ps s = foldl (\<lambda>s p. resolve_poll env p s) s ps"

section \<open>Shared fetches and prefetching\<close>

datatype fetch_start = Joined nat | Started nat | TooMany

text \<open>
  The synchronous part of \<open>resolve\<close>: finished and abandoned fetches are forgotten, then the caller
  joins a fetch of the same block over the same rooms or starts one.
\<close>

definition fetch_alive :: "fetch \<Rightarrow> bool" where
  "fetch_alive f \<longleftrightarrow> ft_subscribers f > 0 \<and> \<not> ft_finished f"

definition fetch_key :: "session list \<Rightarrow> string \<Rightarrow> string list \<times> string" where
  "fetch_key sessions cid = (remdups_adj (sort (map ss_room sessions)), cid)"

definition coalesce :: "session list \<Rightarrow> string \<Rightarrow> resolver \<Rightarrow> fetch_start \<times> resolver" where
  "coalesce sessions cid rv =
     (let key = fetch_key sessions cid;
          live = hm_retain (\<lambda>_. fetch_alive) (in_flight rv);
          rv = rv\<lparr>in_flight := live\<rparr>
      in case hm_get live key of
           Some f \<Rightarrow> (Joined (ft_id f), rv\<lparr>in_flight := hm_insert key (f\<lparr>ft_subscribers := ft_subscribers f + 1\<rparr>) live\<rparr>)
         | None \<Rightarrow>
             if length live \<ge> MAX_IN_FLIGHT_FETCHES then (TooMany, rv)
             else
               let i = rv_channels rv
               in (Started i, rv\<lparr>rv_channels := i + 1,
                     in_flight := hm_insert key \<lparr>ft_id = i, ft_subscribers = 1, ft_finished = False\<rparr> live\<rparr>))"

text \<open>A subscriber of a shared fetch goes away, or the fetch ends.\<close>

definition on_fetch :: "nat \<Rightarrow> (fetch \<Rightarrow> fetch) \<Rightarrow> resolver \<Rightarrow> resolver" where
  "on_fetch i f rv = rv\<lparr>in_flight := hm_map (\<lambda>_ x. if ft_id x = i then f x else x) (in_flight rv)\<rparr>"

definition leave_fetch :: "nat \<Rightarrow> resolver \<Rightarrow> resolver" where
  "leave_fetch i = on_fetch i (\<lambda>x. x\<lparr>ft_subscribers := ft_subscribers x - 1\<rparr>)"

definition finish_fetch :: "nat \<Rightarrow> resolver \<Rightarrow> resolver" where
  "finish_fetch i = on_fetch i (\<lambda>x. x\<lparr>ft_finished := True\<rparr>)"

definition prefetch_one :: "session list \<Rightarrow> string \<Rightarrow> string set \<times> resolver \<Rightarrow> string set \<times> resolver" where
  "prefetch_one sessions cid = (\<lambda>(seen, rv).
     if cid \<in> seen \<or> get_peers cid (rv_registry rv) \<noteq> [] then (insert cid seen, rv)
     else (insert cid seen, fold (broadcast_on cid) sessions rv))"

definition prefetch_providers :: "session list \<Rightarrow> string list \<Rightarrow> resolver \<Rightarrow> resolver" where
  "prefetch_providers sessions cids rv =
     snd (fold (prefetch_one sessions) (take MAX_PREFETCH_CIDS cids) ({}, rv))"

text \<open>What callers see of a finished fetch.\<close>

definition resolve_block_result :: "string + bytes option \<Rightarrow> bytes option result" where
  "resolve_block_result r = (case r of Inl e \<Rightarrow> Inl (Network e) | Inr b \<Rightarrow> Inr b)"

definition resolve_block :: "string + bytes option \<Rightarrow> bytes option" where
  "resolve_block r = (case resolve_block_result r of Inl _ \<Rightarrow> None | Inr b \<Rightarrow> b)"

end
