(* ===== verification/Block_Fetch.thy ===== *)
theory Block_Fetch
  imports Block_Resolver
begin

text \<open>
  Bounds, termination and provenance of block fetches over every schedule of polls
  (\<open>storage/resolver.rs\<close>), and the invariant of the table of shared fetches.
\<close>

section \<open>Attempts\<close>

text \<open>What no transition of an attempt changes, and the bound on repeated requests.\<close>

definition same_attempt :: "attempt \<Rightarrow> attempt \<Rightarrow> bool" where
  "same_attempt a b \<longleftrightarrow> at_cap b = at_cap a \<and> at_target b = at_target a \<and> at_cid b = at_cid a"

definition attempt_ok :: "attempt \<Rightarrow> bool" where
  "attempt_ok a \<longleftrightarrow> at_rerequests a \<le> MAX_RESET_REREQUESTS
     \<and> (\<forall>idle look. at_phase a = AtRecovering idle look \<longrightarrow> at_rerequests a < MAX_RESET_REREQUESTS)"

lemma attempt_end_fields [simp]:
  "at_phase (fst (attempt_end r a rv)) = AtDone r" "same_attempt a (fst (attempt_end r a rv))"
  "attempt_ok (fst (attempt_end r a rv)) \<longleftrightarrow> at_rerequests a \<le> MAX_RESET_REREQUESTS"
  "at_rerequests (fst (attempt_end r a rv)) = at_rerequests a"
  by (auto simp: attempt_end_def Let_def same_attempt_def attempt_ok_def)

lemma attempt_fail_fields [simp]:
  "at_phase (fst (attempt_fail a rv)) = AtDone (at_inbox a)" "same_attempt a (fst (attempt_fail a rv))"
  "attempt_ok (fst (attempt_fail a rv)) \<longleftrightarrow> at_rerequests a \<le> MAX_RESET_REREQUESTS"
  "at_rerequests (fst (attempt_fail a rv)) = at_rerequests a"
  by (simp_all add: attempt_fail_def)

lemma same_attempt_update [simp]:
  "same_attempt a (b\<lparr>at_phase := p\<rparr>) = same_attempt a b" "same_attempt a (b\<lparr>at_resets := n\<rparr>) = same_attempt a b"
  "same_attempt a (b\<lparr>at_progress := n\<rparr>) = same_attempt a b" "same_attempt a (b\<lparr>at_serving := s\<rparr>) = same_attempt a b"
  "same_attempt a (b\<lparr>at_rerequests := n\<rparr>) = same_attempt a b" "same_attempt a (b\<lparr>at_permit := s\<rparr>) = same_attempt a b"
  "same_attempt a (b\<lparr>at_id := n\<rparr>) = same_attempt a b" "same_attempt a (b\<lparr>at_inbox := x\<rparr>) = same_attempt a b"
  "same_attempt a a"
  by (simp_all add: same_attempt_def)

lemma same_attempt_of_update [simp]:
  "same_attempt (a\<lparr>at_phase := p\<rparr>) b = same_attempt a b" "same_attempt (a\<lparr>at_resets := n\<rparr>) b = same_attempt a b"
  "same_attempt (a\<lparr>at_id := n\<rparr>) b = same_attempt a b" "same_attempt (a\<lparr>at_permit := s\<rparr>) b = same_attempt a b"
  "same_attempt (a\<lparr>at_inbox := x\<rparr>) b = same_attempt a b"
  by (simp_all add: same_attempt_def)

lemma attempt_recover_fields:
  "same_attempt a (fst (attempt_recover env now a rv))"
  "at_rerequests a \<le> MAX_RESET_REREQUESTS \<Longrightarrow> attempt_ok (fst (attempt_recover env now a rv))"
  by (auto simp: attempt_recover_def attempt_ok_def)

lemma attempt_register_fields:
  "same_attempt a (fst (attempt_register now a rv))"
  "at_rerequests a \<le> MAX_RESET_REREQUESTS \<Longrightarrow> attempt_ok (fst (attempt_register now a rv))"
  by (auto simp: attempt_register_def Let_def attempt_ok_def attempt_end_def split: prod.splits)

lemma attempt_begin_fields:
  "at_cap (fst (attempt_begin env now cid target rv)) = now + attempt_cap (timings env)"
  "at_target (fst (attempt_begin env now cid target rv)) = target"
  "at_cid (fst (attempt_begin env now cid target rv)) = cid"
  "attempt_ok (fst (attempt_begin env now cid target rv))"
proof -
  obtain limit rv1 where l: "provider_limit env target rv = (limit, rv1)" by force
  let ?a = "\<lparr>at_cid = cid, at_target = target, at_cap = now + attempt_cap (timings env), at_permit = False, at_id = 0,
                at_inbox = None, at_resets = 0, at_progress = 0, at_serving = False, at_rerequests = 0, at_phase = AtPermit\<rparr>"
  have b: "fst (attempt_begin env now cid target rv) = ?a \<or> fst (attempt_begin env now cid target rv) = fst (attempt_register now ?a rv1)"
    using l by (auto simp: attempt_begin_def Let_def split: option.splits)
  have r: "same_attempt ?a (fst (attempt_register now ?a rv1))" "attempt_ok (fst (attempt_register now ?a rv1))"
    using attempt_register_fields [of ?a now rv1] by simp_all
  have "same_attempt ?a (fst (attempt_begin env now cid target rv)) \<and> attempt_ok (fst (attempt_begin env now cid target rv))"
    using b r by (auto simp: attempt_ok_def)
  then show "at_cap (fst (attempt_begin env now cid target rv)) = now + attempt_cap (timings env)"
    "at_target (fst (attempt_begin env now cid target rv)) = target"
    "at_cid (fst (attempt_begin env now cid target rv)) = cid"
    "attempt_ok (fst (attempt_begin env now cid target rv))"
    by (simp_all add: same_attempt_def)
qed

lemma on_reset_cases:
  "on_reset env now a rv other = (watches_closed now a, rv)
   \<or> (\<exists>n. on_reset env now a rv other = attempt_recover env now (a\<lparr>at_resets := n\<rparr>) rv)
   \<or> on_reset env now a rv other = other"
  by (auto simp: on_reset_def split: option.splits)

lemma attempt_send_fields:
  "same_attempt a (fst (attempt_send env p w k a rv))"
  "attempt_ok a \<Longrightarrow> attempt_ok (fst (attempt_send env p w k a rv))"
  by (auto simp: attempt_send_def Let_def attempt_ok_def split: prod.splits want_send.splits)

lemma attempt_wait_fields:
  "same_attempt a (fst (attempt_wait env p n k a rv))"
  "attempt_ok a \<Longrightarrow> attempt_ok (fst (attempt_wait env p n k a rv))"
  using attempt_recover_fields [of a env "pl_now p" rv]
  by (auto simp: attempt_wait_def Let_def attempt_ok_def watches_closed_def split: option.splits)

lemma attempt_look_fields:
  "same_attempt a (fst (attempt_look p i l a rv))"
  "attempt_ok a \<Longrightarrow> at_rerequests a < MAX_RESET_REREQUESTS \<Longrightarrow> attempt_ok (fst (attempt_look p i l a rv))"
  by (auto simp: attempt_look_def Let_def attempt_ok_def split: option.splits)

lemma attempt_inner_fields:
  assumes "attempt_ok a"
  shows "same_attempt a (fst (attempt_inner env p (at_phase a) a rv))" "attempt_ok (fst (attempt_inner env p (at_phase a) a rv))"
proof -
  have r: "same_attempt a (fst (attempt_recover env now (a\<lparr>at_resets := n\<rparr>) rv))"
    "attempt_ok (fst (attempt_recover env now (a\<lparr>at_resets := n\<rparr>) rv))"
    "same_attempt a (watches_closed now a)" "attempt_ok (watches_closed now a)" for now n
    using assms attempt_recover_fields [of "a\<lparr>at_resets := n\<rparr>" env now rv]
    by (auto simp: attempt_ok_def watches_closed_def)
  have o: "same_attempt a (fst (on_reset env now a rv other)) \<and> attempt_ok (fst (on_reset env now a rv other))"
    if "same_attempt a (fst other)" "attempt_ok (fst other)" for now other
    using on_reset_cases [of env now a rv other] r that by auto
  have "same_attempt a (fst (attempt_inner env p (at_phase a) a rv)) \<and> attempt_ok (fst (attempt_inner env p (at_phase a) a rv))"
  proof (cases "at_phase a")
    case (AtSending w k)
    then show ?thesis using o attempt_send_fields assms by simp
  next
    case (AtServing n k)
    then show ?thesis using o attempt_wait_fields assms by simp
  next
    case (AtRecovering i l)
    then show ?thesis using attempt_look_fields [of a] assms by (simp add: attempt_ok_def)
  qed (use assms in \<open>auto simp: attempt_ok_def\<close>)
  then show "same_attempt a (fst (attempt_inner env p (at_phase a) a rv))" "attempt_ok (fst (attempt_inner env p (at_phase a) a rv))"
    by simp_all
qed

lemma attempt_receive_cases:
  "attempt_receive a rv other = other \<or> (\<exists>r. attempt_receive a rv other = attempt_end r a rv)"
  by (auto simp: attempt_receive_def split: option.splits)

lemma attempt_poll_fields:
  assumes "attempt_ok a"
  shows "same_attempt a (fst (attempt_poll env p a rv))" "attempt_ok (fst (attempt_poll env p a rv))"
proof -
  have e: "same_attempt a (fst (attempt_end r a rv)) \<and> attempt_ok (fst (attempt_end r a rv))" for r
    using assms by (simp add: attempt_ok_def)
  have i: "same_attempt a (fst (attempt_inner env p (at_phase a) a rv)) \<and> attempt_ok (fst (attempt_inner env p (at_phase a) a rv))"
    using attempt_inner_fields [OF assms] by simp
  have c: "same_attempt a (fst (attempt_receive a rv other)) \<and> attempt_ok (fst (attempt_receive a rv other))"
    if "same_attempt a (fst other) \<and> attempt_ok (fst other)" for other
    using attempt_receive_cases [of a rv other] e that by auto
  have d: "same_attempt a (fst (attempt_admit now a rv)) \<and> attempt_ok (fst (attempt_admit now a rv))" for now
    using assms attempt_register_fields [of "a\<lparr>at_permit := True\<rparr>"] by (simp add: attempt_admit_def attempt_ok_def)
  have "same_attempt a (fst (attempt_poll env p a rv)) \<and> attempt_ok (fst (attempt_poll env p a rv))"
    using e i d assms c [of "attempt_inner env p (at_phase a) a rv"] c [of "attempt_end None a rv"]
    by (cases "at_phase a") (auto simp: attempt_poll_def)
  then show "same_attempt a (fst (attempt_poll env p a rv))" "attempt_ok (fst (attempt_poll env p a rv))" by simp_all
qed

lemma attempt_poll_cap:
  assumes "at_cap a \<le> pl_now p"
  shows "\<exists>r. at_phase (fst (attempt_poll env p a rv)) = AtDone r"
  using assms attempt_receive_cases [of a rv "attempt_end None a rv"]
  by (cases "at_phase a") (auto simp: attempt_poll_def)

lemma attempt_notice_fields [simp]:
  "same_attempt a (attempt_notice signals a)" "attempt_ok (attempt_notice signals a) = attempt_ok a"
  "at_phase (attempt_notice signals a) = at_phase a"
  by (auto simp: attempt_notice_def attempt_ok_def)

section \<open>Discovery\<close>

definition discovery_ok :: "discovery \<Rightarrow> bool" where
  "discovery_ok d \<longleftrightarrow> 1 \<le> dc_rounds d \<and> dc_rounds d \<le> MAX_DISCOVERY_QUERY_ROUNDS"

lemma discover_begin_fields:
  "dc_cap (fst (discover_begin env now cid tried rv)) = now + attempt_cap (timings env)"
  "discovery_ok (fst (discover_begin env now cid tried rv))"
  by (auto simp: discover_begin_def discovery_ok_def MAX_DISCOVERY_QUERY_ROUNDS_def split: prod.splits)

lemma exchange_check_fields:
  assumes "discovery_ok d"
  shows "discovery_ok (fst (exchange_check env p d rv)) \<and> dc_cap (fst (exchange_check env p d rv)) = dc_cap d"
  using assms by (auto simp: exchange_check_def Let_def discovery_ok_def open_window_def discover_end_def split: prod.splits)

lemma query_exchange_fields:
  assumes "discovery_ok d"
  shows "discovery_ok (fst (query_exchange env p phase d rv)) \<and> dc_cap (fst (query_exchange env p phase d rv)) = dc_cap d"
  using assms exchange_check_fields [OF assms, of env p rv]
  by (cases phase) (auto simp: Let_def discovery_ok_def open_window_def split: prod.splits)

lemma discover_poll_fields:
  assumes "discovery_ok d"
  shows "discovery_ok (fst (discover_poll env p d rv)) \<and> dc_cap (fst (discover_poll env p d rv)) = dc_cap d"
proof -
  have s: "discovery_ok (d\<lparr>dc_notifier := n, dc_checked := True\<rparr>)" "discovery_ok (d\<lparr>dc_checked := True\<rparr>)" for n
    using assms by (simp_all add: discovery_ok_def)
  obtain d1 rv1 where d1: "(if dc_checked d \<and> notified d rv then rearm d rv else (d, rv)) = (d1, rv1)" by force
  then have "d1\<lparr>dc_checked := True\<rparr> = d\<lparr>dc_checked := True\<rparr> \<or> (\<exists>n. d1\<lparr>dc_checked := True\<rparr> = d\<lparr>dc_notifier := n, dc_checked := True\<rparr>)"
    by (auto simp: rearm_def split: if_splits prod.splits)
  then have ok: "discovery_ok (d1\<lparr>dc_checked := True\<rparr>)" "dc_cap d1 = dc_cap d" using s by (auto dest: arg_cong [where f = dc_cap])
  have e: "discovery_ok (fst (discover_end r x rv')) = discovery_ok x" "dc_cap (fst (discover_end r x rv')) = dc_cap x" for r x rv'
    by (simp_all add: discover_end_def discovery_ok_def)
  show ?thesis
    using assms ok query_exchange_fields [OF ok(1), of env p "dc_phase d" rv1] d1
    by (cases "dc_phase d") (auto simp: discover_poll_def Let_def e)
qed

lemma discover_poll_cap: "dc_cap d \<le> pl_now p \<Longrightarrow> \<exists>r. dc_phase (fst (discover_poll env p d rv)) = DcDone r"
  by (cases "dc_phase d") (auto simp: discover_poll_def discover_end_def)

section \<open>The resolving task\<close>

text \<open>
  At most \<open>max_attempts\<close> providers are tried, none twice; at most two repeated requests per provider;
  at most four rounds of a discovery, and no discovery after another one.
\<close>

definition task_ok :: "resolver_env \<Rightarrow> resolve_task \<Rightarrow> bool" where
  "task_ok env t \<longleftrightarrow> distinct (rk_tried t) \<and> length (rk_tried t) \<le> max_attempts (timings env)
     \<and> (case rk_phase t of
          RkAttempt a rest \<Rightarrow> attempt_ok a \<and> rk_tried t \<noteq> [] \<and> at_target a = last (rk_tried t) \<and> at_cid a = rk_cid t
        | RkDiscover d \<Rightarrow> discovery_ok d \<and> \<not> rk_discovered t \<and> length (rk_tried t) < max_attempts (timings env)
        | RkDone _ \<Rightarrow> True)"

fun discovering :: "resolve_phase \<Rightarrow> bool" where
  "discovering (RkDiscover _) = True"
| "discovering _ = False"

fun phase_cap :: "resolve_phase \<Rightarrow> nat option" where
  "phase_cap (RkAttempt a _) = Some (at_cap a)"
| "phase_cap (RkDiscover d) = Some (dc_cap d)"
| "phase_cap (RkDone _) = None"

text \<open>The number of phases begun so far.\<close>

definition phases :: "resolve_task \<Rightarrow> nat" where
  "phases t = length (rk_tried t) + (if rk_discovered t \<or> discovering (rk_phase t) then 1 else 0)"

text \<open>How a task goes on between two awaits: it returns, or it begins its next phase at that time.\<close>

definition resumes :: "resolver_env \<Rightarrow> nat \<Rightarrow> resolve_task \<Rightarrow> resolve_task \<Rightarrow> bool" where
  "resumes env now t t' \<longleftrightarrow> rk_discovered t' = rk_discovered t \<and> rk_cid t' = rk_cid t
     \<and> (rk_tried t' = rk_tried t \<and> rk_phase t' = RkDone (Inr None)
      \<or> (\<exists>a rest. rk_phase t' = RkAttempt a rest \<and> attempt_ok a \<and> at_inbox a = None \<and> (\<forall>b. at_phase a \<noteq> AtDone (Some b)) \<and> at_cid a = rk_cid t
           \<and> at_cap a = now + attempt_cap (timings env) \<and> rk_tried t' = rk_tried t @ [at_target a]
           \<and> at_target a \<notin> set (rk_tried t) \<and> length (rk_tried t) < max_attempts (timings env))
      \<or> (\<exists>d. rk_phase t' = RkDiscover d \<and> discovery_ok d \<and> dc_cap d = now + attempt_cap (timings env)
           \<and> rk_tried t' = rk_tried t \<and> \<not> rk_discovered t \<and> length (rk_tried t) < max_attempts (timings env)))"

lemma attempt_begin_inbox:
  "at_inbox (fst (attempt_begin env now cid target rv)) = None"
  "at_phase (fst (attempt_begin env now cid target rv)) \<noteq> AtDone (Some b)"
  by (auto simp: attempt_begin_def attempt_register_def attempt_end_def Let_def split: prod.splits option.splits)

lemma resolve_next_resumes: "resumes env now t (fst (resolve_next env now peers t rv))"
proof (induction env now peers t rv rule: resolve_next.induct)
  case (1 env now peers t rv)
  obtain choice rv' where p: "pick_peer env (rk_tried t) peers rv = (choice, rv')" by force
  show ?case
  proof (cases choice)
    case (PickPeer peer rest)
    then have "peer \<notin> set (rk_tried t)" "length (rk_tried t) < max_attempts (timings env)"
      using pick_peer_untried [of env "rk_tried t" peers rv peer rest] pick_peer_within [of env "rk_tried t" peers rv peer rest] p by auto
    moreover obtain a rv2 where a: "attempt_begin env now (rk_cid t) peer rv' = (a, rv2)" by force
    ultimately show ?thesis
      using attempt_begin_fields [of env now "rk_cid t" peer rv'] attempt_begin_inbox [of env now "rk_cid t" peer rv'] p PickPeer
      by (subst resolve_next.simps) (auto simp: resolve_try_def resumes_def)
  next
    case PickEmpty
    show ?thesis
    proof (cases "length (rk_tried t) \<ge> max_attempts (timings env) \<or> rk_discovered t")
      case True
      then show ?thesis
        using 1 [OF p [symmetric] PickEmpty] p PickEmpty
        by (subst resolve_next.simps) (auto simp: Let_def resolve_return_def resumes_def)
    next
      case False
      obtain d rv2 where d: "discover_begin env now (rk_cid t) (set (rk_tried t)) rv' = (d, rv2)" by force
      then show ?thesis
        using False p PickEmpty discover_begin_fields [of env now "rk_cid t" "set (rk_tried t)" rv']
        by (subst resolve_next.simps) (auto simp: resolve_discover_def resumes_def)
    qed
  next
    case PickStop
    then show ?thesis using p by (subst resolve_next.simps) (auto simp: resolve_return_def resumes_def)
  qed
qed

text \<open>One poll: the task returns, stays in its phase, or resumes.\<close>

definition polled :: "resolver_env \<Rightarrow> nat \<Rightarrow> resolve_task \<Rightarrow> resolve_task \<Rightarrow> bool" where
  "polled env now t t' \<longleftrightarrow>
     rk_tried t' = rk_tried t \<and> rk_discovered t' = rk_discovered t \<and> rk_cid t' = rk_cid t
       \<and> (phase_cap (rk_phase t') = None
          \<or> phase_cap (rk_phase t') = phase_cap (rk_phase t) \<and> (\<forall>c. phase_cap (rk_phase t) = Some c \<longrightarrow> now < c)
            \<and> discovering (rk_phase t') = discovering (rk_phase t) \<and> task_ok env t')
     \<or> phase_cap (rk_phase t) \<noteq> None \<and> resumes env now (t\<lparr>rk_discovered := rk_discovered t \<or> discovering (rk_phase t)\<rparr>) t'"

lemma resolve_poll_polled:
  assumes "task_ok env t"
  shows "polled env (pl_now p) t (fst (resolve_poll env p (t, rv)))"
proof -
  obtain signals rv1 where e: "pl_tasks p rv = (signals, rv1)" by force
  show ?thesis
  proof (cases "rk_phase t")
    case (RkDone r)
    then show ?thesis using e by (simp add: resolve_poll_def polled_def)
  next
    case (RkAttempt a rest)
    let ?a = "attempt_notice signals a"
    obtain b rv2 where b: "attempt_poll env p ?a rv1 = (b, rv2)" by force
    have a: "attempt_ok ?a" "at_target a = last (rk_tried t)" "rk_tried t \<noteq> []" "at_cid a = rk_cid t"
      using assms RkAttempt by (auto simp: task_ok_def)
    have sb: "same_attempt a b" "attempt_ok b"
      using attempt_poll_fields [OF a(1), of env p rv1] b attempt_notice_fields(1) [of a signals] by (auto simp: same_attempt_def)
    have cap: "\<exists>r. at_phase b = AtDone r" if "at_cap a \<le> pl_now p"
      using attempt_poll_cap [of ?a p env rv1] b that attempt_notice_fields(1) [of a signals] by (auto simp: same_attempt_def)
    have s: "resumes env (pl_now p) t (fst (resolve_next env (pl_now p) rest t rv'))" for rv' by (rule resolve_next_resumes)
    have same: "t\<lparr>rk_discovered := rk_discovered t\<rparr> = t" by simp
    show ?thesis
    proof (cases "\<exists>r. at_phase b = AtDone r")
      case True
      then obtain r where "at_phase b = AtDone r" by blast
      then show ?thesis using s same RkAttempt e b
        by (cases r) (auto simp: resolve_poll_def after_attempt_def polled_def resolve_return_def Let_def)
    next
      case False
      then have r: "fst (resolve_poll env p (t, rv)) = t\<lparr>rk_phase := RkAttempt b rest\<rparr>"
        using RkAttempt e b by (auto simp: resolve_poll_def split: attempt_phase.splits)
      have "pl_now p < at_cap a" using False cap by (meson not_le)
      then show ?thesis unfolding r
        using assms sb RkAttempt a by (auto simp: polled_def task_ok_def same_attempt_def)
    qed
  next
    case (RkDiscover d)
    obtain d' rv2 where d: "discover_poll env p d rv1 = (d', rv2)" by force
    have ok: "discovery_ok d' \<and> dc_cap d' = dc_cap d"
      using discover_poll_fields [of d env p rv1] assms RkDiscover d by (auto simp: task_ok_def)
    have cap: "\<exists>r. dc_phase d' = DcDone r" if "dc_cap d \<le> pl_now p" using discover_poll_cap [OF that, of env rv1] d by auto
    show ?thesis
    proof (cases "\<exists>r. dc_phase d' = DcDone r")
      case True
      then show ?thesis
        using resolve_next_resumes [of env "pl_now p" "t\<lparr>rk_discovered := True\<rparr>"] RkDiscover e d
        by (auto simp: resolve_poll_def after_discover_def polled_def resolve_return_def split: sum.splits)
    next
      case False
      then have r: "fst (resolve_poll env p (t, rv)) = t\<lparr>rk_phase := RkDiscover d'\<rparr>"
        using RkDiscover e d by (auto simp: resolve_poll_def split: discovery_phase.splits)
      have "pl_now p < dc_cap d" using False cap by (meson not_le)
      then show ?thesis unfolding r using assms ok RkDiscover by (auto simp: polled_def task_ok_def)
    qed
  qed
qed

lemma resumes_ok:
  assumes "resumes env now t t'" and "distinct (rk_tried t)" and "length (rk_tried t) \<le> max_attempts (timings env)"
  shows "task_ok env t'"
  using assms unfolding resumes_def task_ok_def by fastforce

lemma polled_ok: "polled env now t t' \<Longrightarrow> task_ok env t \<Longrightarrow> task_ok env t'"
  unfolding polled_def
proof (elim disjE conjE, goal_cases)
  case 1
  then show ?case by (cases "rk_phase t'") (auto simp: task_ok_def)
next
  case 3
  show ?case by (rule resumes_ok [OF 3(3)]) (use 3(1) in \<open>auto simp: task_ok_def\<close>)
qed simp

section \<open>Runs\<close>

lemma resolve_begin_resumes:
  "resumes env now \<lparr>rk_cid = cid, rk_tried = [], rk_discovered = False, rk_phase = RkDone (Inr None)\<rparr>
     (fst (resolve_begin env now cid rv))"
  by (auto simp: resolve_begin_def Let_def intro!: resolve_next_resumes)

lemma resolve_begin_ok: "task_ok env (fst (resolve_begin env now cid rv))"
  by (rule resumes_ok [OF resolve_begin_resumes]) simp_all

lemma resolve_run_Nil [simp]: "resolve_run env [] s = s"
  by (simp add: resolve_run_def)

lemma resolve_run_snoc: "resolve_run env (ps @ [p]) s = resolve_poll env p (resolve_run env ps s)"
  by (simp add: resolve_run_def)

lemma resolve_poll_ok: "task_ok env (fst s) \<Longrightarrow> task_ok env (fst (resolve_poll env p s))"
  using polled_ok resolve_poll_polled by (metis prod.collapse)

interpretation resolving: step_machine "\<lambda>s p. resolve_poll env p s" "\<lambda>s. task_ok env (fst s)" "\<lambda>_. True" for env
  by unfold_locales (simp add: resolve_poll_ok)

lemma resolve_run_ok: "task_ok env (fst (resolve_run env ps (resolve_begin env now cid rv)))"
  unfolding resolve_run_def by (rule resolving.run_inv) (simp_all add: resolve_begin_ok)

text \<open>
  Time. The polls come at most \<open>gap\<close> apart. A phase that is not over has a cap in the future of its
  beginning, and the number of phases bounds where that cap can lie.
\<close>

fun spaced_polls :: "nat \<Rightarrow> nat \<Rightarrow> poll list \<Rightarrow> bool" where
  "spaced_polls gap prev [] = True"
| "spaced_polls gap prev (p # ps) \<longleftrightarrow> prev \<le> pl_now p \<and> pl_now p \<le> prev + gap \<and> spaced_polls gap (pl_now p) ps"

definition on_time :: "resolver_env \<Rightarrow> nat \<Rightarrow> nat \<Rightarrow> nat \<Rightarrow> resolve_task \<Rightarrow> bool" where
  "on_time env begun gap now t \<longleftrightarrow>
     (\<forall>c. phase_cap (rk_phase t) = Some c \<longrightarrow>
        now \<le> c \<and> c + gap \<le> begun + phases t * (attempt_cap (timings env) + gap))"

lemma resumes_on_time:
  assumes "resumes env now t t'" and "now \<le> begun + n * (attempt_cap (timings env) + gap)"
    and "n = length (rk_tried t) + (if rk_discovered t then 1 else 0)"
  shows "on_time env begun gap now t'"
  using assms unfolding resumes_def by (auto simp: on_time_def phases_def)

lemma polled_on_time:
  assumes "polled env now t t'" and "on_time env begun gap prev t" and "prev \<le> now" "now \<le> prev + gap"
  shows "on_time env begun gap now t'"
proof (cases "phase_cap (rk_phase t)")
  case None
  with assms(1) show ?thesis by (auto simp: polled_def on_time_def)
next
  case (Some c)
  have c: "prev \<le> c" "c + gap \<le> begun + phases t * (attempt_cap (timings env) + gap)" using assms(2) Some by (auto simp: on_time_def)
  show ?thesis
    using assms(1) unfolding polled_def
  proof (elim disjE conjE, goal_cases)
    case 1
    then show ?case by (simp add: on_time_def)
  next
    case 2
    then show ?case using c Some by (auto simp: on_time_def phases_def)
  next
    case 3
    show ?case by (rule resumes_on_time [OF 3(2) _ refl]) (use c assms(3,4) in \<open>auto simp: phases_def\<close>)
  qed
qed

lemma run_on_time:
  assumes "spaced_polls gap prev ps" and "task_ok env (fst s)" and "on_time env begun gap prev (fst s)"
  shows "on_time env begun gap (last (prev # map pl_now ps)) (fst (resolve_run env ps s))"
  using assms
proof (induction ps arbitrary: prev s)
  case Nil
  then show ?case by simp
next
  case (Cons p ps)
  have "on_time env begun gap (pl_now p) (fst (resolve_poll env p s))"
    using Cons.prems resolve_poll_polled [of env "fst s" p "snd s"] by (auto intro: polled_on_time)
  from Cons.IH [OF _ resolve_poll_ok this] Cons.prems show ?case by (simp add: resolve_run_def)
qed

lemma phases_bound: "task_ok env t \<Longrightarrow> phases t \<le> max_attempts (timings env) + 1"
  by (simp add: task_ok_def phases_def)

text \<open>A discovery that was left does not come back.\<close>

definition past_discovery :: "resolve_task \<Rightarrow> bool" where
  "past_discovery t \<longleftrightarrow> rk_discovered t \<or> phase_cap (rk_phase t) = None"

lemma past_discovery_polled:
  assumes "polled env now t t'" and "past_discovery t \<or> discovering (rk_phase t)"
  shows "past_discovery t' \<or> discovering (rk_phase t) \<and> discovering (rk_phase t')"
  using assms by (auto simp: polled_def past_discovery_def resumes_def)

lemma past_discovery_run:
  assumes "task_ok env (fst s)"
  shows "past_discovery (fst s) \<Longrightarrow> past_discovery (fst (resolve_run env ps s))"
    and "discovering (rk_phase (fst s)) \<Longrightarrow> past_discovery (fst (resolve_run env ps s)) \<or> discovering (rk_phase (fst (resolve_run env ps s)))"
proof -
  have ok: "task_ok env (fst (resolve_run env ps s))" for ps
    unfolding resolve_run_def by (rule resolving.run_inv) (simp_all add: assms)
  have step: "polled env (pl_now p) (fst (resolve_run env ps s)) (fst (resolve_run env (ps @ [p]) s))" for p ps
    using resolve_poll_polled [OF ok, of p ps "snd (resolve_run env ps s)"] by (simp add: resolve_run_snoc)
  show "past_discovery (fst s) \<Longrightarrow> past_discovery (fst (resolve_run env ps s))"
  proof (induction ps rule: rev_induct)
    case (snoc p ps)
    have "\<not> discovering (rk_phase (fst (resolve_run env ps s)))"
      using snoc ok [of ps] by (cases "rk_phase (fst (resolve_run env ps s))") (auto simp: past_discovery_def task_ok_def)
    then show ?case using past_discovery_polled [OF step] snoc by blast
  qed simp
  show "discovering (rk_phase (fst s)) \<Longrightarrow> past_discovery (fst (resolve_run env ps s)) \<or> discovering (rk_phase (fst (resolve_run env ps s)))"
  proof (induction ps rule: rev_induct)
    case (snoc p ps)
    then show ?case using past_discovery_polled [OF step, of ps p] by blast
  qed simp
qed

text \<open>Where a returned block comes from.\<close>

definition kept :: "attempt \<Rightarrow> attempt \<Rightarrow> bool" where
  "kept a b \<longleftrightarrow> at_inbox b = at_inbox a
     \<and> (\<forall>x. at_phase b = AtDone (Some x) \<longrightarrow> at_inbox a = Some x \<or> at_phase a = AtDone (Some x))"

lemma kept_end: "r = None \<or> r = at_inbox a \<Longrightarrow> kept a (fst (attempt_end r a rv))"
  by (auto simp: kept_def attempt_end_def)

lemma kept_fail: "kept a (fst (attempt_fail a rv))"
  by (simp add: attempt_fail_def kept_end)

lemma kept_recover: "kept a (fst (attempt_recover env now (a\<lparr>at_resets := n\<rparr>) rv))" "kept a (fst (attempt_recover env now a rv))"
  by (auto simp: attempt_recover_def kept_def attempt_fail_def attempt_end_def)

lemma kept_register: "kept a (fst (attempt_register now a rv))" "kept a (fst (attempt_admit now a rv))"
  by (auto simp: attempt_admit_def attempt_register_def Let_def kept_def attempt_end_def split: prod.splits)

lemma kept_inner:
  shows "kept a (fst (attempt_inner env p (at_phase a) a rv))"
proof -
  have w: "kept a (watches_closed now a)" for now by (simp add: kept_def watches_closed_def)
  have r: "kept a (fst (on_reset env now a rv other))" if "kept a (fst other)" for now other
    using on_reset_cases [of env now a rv other] kept_recover w that by auto
  have s: "kept a (fst (attempt_send env p x y a rv))" for x y
    using kept_fail by (auto simp: attempt_send_def Let_def kept_def split: prod.splits want_send.splits)
  have t: "kept a (fst (attempt_wait env p x y a rv))" for x y
    using kept_fail kept_recover(2) w by (auto simp: attempt_wait_def Let_def kept_def split: option.splits)
  have l: "kept a (fst (attempt_look p x y a rv))" for x y
    using kept_fail by (auto simp: attempt_look_def Let_def kept_def)
  have "kept a a" by (simp add: kept_def)
  then show ?thesis using r [OF s] r [OF t] l kept_end [of None a rv] by (cases "at_phase a") simp_all
qed

lemma kept_poll: "kept a (fst (attempt_poll env p a rv))"
proof -
  have c: "kept a (fst (attempt_receive a rv other))" if "kept a (fst other)" for other
    using that kept_end [of _ a rv] by (auto simp: attempt_receive_def split: option.splits)
  show ?thesis
    using c kept_inner [of a env p rv] kept_end [of None a rv] kept_register(2)
    by (cases "at_phase a") (auto simp: attempt_poll_def kept_def [of a a])
qed

text \<open>The registry has delivered the block to the channel of the attempt in progress.\<close>

definition arrived :: "resolver_env \<Rightarrow> poll list \<Rightarrow> resolve_task \<times> resolver \<Rightarrow> bytes \<Rightarrow> bool" where
  "arrived env ps s b \<longleftrightarrow> (\<exists>k < length ps. \<exists>a rest.
     rk_phase (fst (resolve_run env (take k ps) s)) = RkAttempt a rest
     \<and> Deliver (at_id a) b \<in> set (fst (pl_tasks (ps ! k) (snd (resolve_run env (take k ps) s)))))"

lemma arrived_snoc: "arrived env ps s b \<Longrightarrow> arrived env (ps @ [p]) s b"
  unfolding arrived_def by (metis (no_types, lifting) butlast_snoc length_append_singleton less_Suc_eq nth_append take_append take_butlast)

lemma arrived_now:
  assumes "rk_phase (fst (resolve_run env ps s)) = RkAttempt a rest"
    and "Deliver (at_id a) b \<in> set (fst (pl_tasks p (snd (resolve_run env ps s))))"
  shows "arrived env (ps @ [p]) s b"
  unfolding arrived_def using assms by (intro exI [of _ "length ps"]) auto

lemma delivered_to_set: "delivered_to i signals = Some b \<Longrightarrow> Deliver i b \<in> set signals"
  by (auto simp: delivered_to_def split: list.splits want_signal.splits dest!: filter_eq_ConsD)

definition from_registry :: "(bytes \<Rightarrow> bool) \<Rightarrow> resolve_task \<Rightarrow> bool" where
  "from_registry known t \<longleftrightarrow>
     (case rk_phase t of
        RkAttempt a rest \<Rightarrow> \<forall>b. at_inbox a = Some b \<or> at_phase a = AtDone (Some b) \<longrightarrow> known b
      | RkDiscover d \<Rightarrow> True
      | RkDone r \<Rightarrow> \<forall>b. r = Inr (Some b) \<longrightarrow> known b)"

lemma resumes_from_registry: "resumes env now t t' \<Longrightarrow> from_registry known t'"
  by (auto simp: resumes_def from_registry_def)

lemma polled_from_registry:
  assumes "from_registry known t" and "\<forall>a rest b. rk_phase t = RkAttempt a rest \<and> Deliver (at_id a) b \<in> set (fst (pl_tasks p rv)) \<longrightarrow> known b"
  shows "from_registry known (fst (resolve_poll env p (t, rv)))"
proof -
  obtain signals rv1 where e: "pl_tasks p rv = (signals, rv1)" by force
  show ?thesis
  proof (cases "rk_phase t")
    case (RkDone r)
    then show ?thesis using e assms(1) by (simp add: resolve_poll_def)
  next
    case (RkAttempt a rest)
    let ?a = "attempt_notice signals a"
    obtain b rv2 where b: "attempt_poll env p ?a rv1 = (b, rv2)" by force
    have a: "known x" if "at_inbox ?a = Some x \<or> at_phase ?a = AtDone (Some x)" for x
      using that assms e RkAttempt delivered_to_set [of "at_id a" signals x]
      by (auto simp: attempt_notice_def from_registry_def split: if_splits)
    have k: "known x" if "at_inbox b = Some x \<or> at_phase b = AtDone (Some x)" for x
      using kept_poll [of ?a env p rv1] b that a by (auto simp: kept_def)
    have n: "from_registry known (fst (resolve_next env (pl_now p) rest t rv'))" for rv'
      by (rule resumes_from_registry [OF resolve_next_resumes])
    show ?thesis
    proof (cases "\<exists>r. at_phase b = AtDone r")
      case True
      then obtain r where "at_phase b = AtDone r" by blast
      then show ?thesis using n k RkAttempt e b
        by (cases r) (auto simp: resolve_poll_def after_attempt_def resolve_return_def Let_def from_registry_def)
    next
      case False
      then have "fst (resolve_poll env p (t, rv)) = t\<lparr>rk_phase := RkAttempt b rest\<rparr>"
        using RkAttempt e b by (auto simp: resolve_poll_def split: attempt_phase.splits)
      then show ?thesis using k by (simp add: from_registry_def)
    qed
  next
    case (RkDiscover d)
    obtain d' rv2 where d: "discover_poll env p d rv1 = (d', rv2)" by force
    have n: "from_registry known (fst (resolve_next env (pl_now p) peers (t\<lparr>rk_discovered := True\<rparr>) rv'))" for peers rv'
      by (rule resumes_from_registry [OF resolve_next_resumes])
    show ?thesis
    proof (cases "\<exists>r. dc_phase d' = DcDone r")
      case True
      then show ?thesis using n RkDiscover e d
        by (auto simp: resolve_poll_def after_discover_def resolve_return_def from_registry_def split: sum.splits)
    next
      case False
      then have "fst (resolve_poll env p (t, rv)) = t\<lparr>rk_phase := RkDiscover d'\<rparr>"
        using RkDiscover e d by (auto simp: resolve_poll_def split: discovery_phase.splits)
      then show ?thesis by (simp add: from_registry_def)
    qed
  qed
qed

lemma from_registry_mono: "from_registry known t \<Longrightarrow> (\<And>b. known b \<Longrightarrow> known' b) \<Longrightarrow> from_registry known' t"
  by (auto simp: from_registry_def split: resolve_phase.splits)

lemma run_from_registry: "from_registry (arrived env ps (resolve_begin env now cid rv)) (fst (resolve_run env ps (resolve_begin env now cid rv)))"
proof (induction ps rule: rev_induct)
  case Nil
  show ?case using resumes_from_registry [OF resolve_begin_resumes] by simp
next
  case (snoc p ps)
  let ?s = "resolve_run env ps (resolve_begin env now cid rv)"
  let ?known = "arrived env (ps @ [p]) (resolve_begin env now cid rv)"
  have "from_registry ?known (fst ?s)" by (rule from_registry_mono [OF snoc]) (rule arrived_snoc)
  then have "from_registry ?known (fst (resolve_poll env p (fst ?s, snd ?s)))"
    by (rule polled_from_registry) (use arrived_now in blast)
  then show ?case by (simp add: resolve_run_snoc)
qed

section \<open>Properties\<close>


text \<open>
  Property C7. A fetch always returns: if the task is polled at least every \<open>gap\<close> milliseconds, it has
  returned, with a block, nothing or an error, once the polls have passed the time of one cap for each
  allowed attempt and one for the discovery, whatever peers, routes and other tasks do.
\<close>

theorem fetch_returns:
  assumes "spaced_polls gap now ps" and "ps \<noteq> []"
    and "now + max_attempts (timings env) * (attempt_cap (timings env) + gap) + attempt_cap (timings env) < pl_now (last ps)"
  shows "\<exists>r. rk_phase (fst (resolve_run env ps (resolve_begin env now cid rv))) = RkDone r"
proof (rule ccontr)
  let ?t = "fst (resolve_run env ps (resolve_begin env now cid rv))" and ?n = "max_attempts (timings env)"
  let ?c = "attempt_cap (timings env) + gap"
  assume "\<not> ?thesis"
  then obtain c where c: "phase_cap (rk_phase ?t) = Some c" by (cases "rk_phase ?t") auto
  have "on_time env now gap now (fst (resolve_begin env now cid rv))"
    by (rule resumes_on_time [OF resolve_begin_resumes, where n = 0]) simp_all
  from run_on_time [OF assms(1) resolve_begin_ok this] c assms(2)
  have "pl_now (last ps) \<le> c" "c + gap \<le> now + phases ?t * ?c" by (auto simp: on_time_def last_map)
  moreover have "phases ?t * ?c \<le> (?n + 1) * ?c" by (rule mult_right_mono [OF phases_bound [OF resolve_run_ok]]) simp
  ultimately show False using assms(3) by simp
qed


definition demo_fetch_env :: resolver_env where
  "demo_fetch_env = \<lparr>timings = timings_default, max_fetches_per_provider = 0, coalesce_fetches = False\<rparr>"

definition demo_session :: session where
  "demo_session = \<lparr>ss_room = ''r'', ss_reachable = (\<lambda>_. True), ss_connected = [NodeId ''a''], ss_send = (\<lambda>_ _. Inr ()),
     ss_broadcast = (\<lambda>_. Inr ())\<rparr>"

definition demo_poll :: "nat \<Rightarrow> (resolver \<Rightarrow> want_signal list \<times> resolver) \<Rightarrow> poll" where
  "demo_poll now tasks = \<lparr>pl_now = now, pl_sessions = [demo_session], pl_enqueued = True, pl_turn = True, pl_tasks = tasks\<rparr>"

definition demo_reply :: "resolver \<Rightarrow> want_signal list \<times> resolver" where
  "demo_reply rv = (case fulfill_in 5 ''r'' ''c'' (NodeId ''a'') [7] (rv_registry rv) of (out, r) \<Rightarrow> (out, rv\<lparr>rv_registry := r\<rparr>))"

definition demo_known :: resolver where
  "demo_known = resolver_new (registry_new\<lparr>peer_cache := [(''c'', [NodeId ''a''])]\<rparr>)"

lemmas demo_fetch_defs = demo_fetch_env_def demo_session_def demo_poll_def demo_reply_def demo_known_def timings_default_def
  DISCOVERY_IDLE_TIMEOUT_def IDLE_TIMEOUT_def ATTEMPT_CAP_def MAX_ATTEMPTS_def resolver_new_def registry_new_def
  want_state_default_def counters_zero_def

lemmas fetch_step_defs = resolve_run_def resolve_begin_def get_peers_def resolve_next.simps pick_peer.simps provider_index_def
  resolve_try_def attempt_begin_def provider_limit_def attempt_register_def resolve_poll_def attempt_notice_def attempt_poll_def
  attempt_receive_def on_reset_def attempt_send_def enqueue_want_def want_on_session_def on_state_def attempt_end_def
  after_attempt_def resolve_return_def prune_on_drop_def delivered_to_def remove_nth_def

lemmas demo_registry_defs = register_attempt_def register_attempt_for_peers_def want_admitted_def prune_def all_wants_def
  find_want_def progress_subscribe_def track_path_def wants_of_def hm_get_def hm_insert_def hm_retain_def hm_map_def
  hm_update_def hm_remove_def hm_contains_def fulfill_in_def fulfill_data_in_def observe_def enforce_byte_limits_def on_path_def
  over_limit_def accepts_def advance_progress_def fulfill_state_def cancel_closed_def prune_notifiers_def drop_receiver_def
  chunk_progress_default_def MAX_WANT_PEERS_def MAX_PENDING_WANTS_def MAX_WANT_BLOCK_BYTES_def wrap64_def note_progress_def
  count_accepted_def count_completed_def


theorem fetch_returns_witness:
  "\<exists>r. rk_phase (fst (resolve_run demo_fetch_env (map (\<lambda>k. demo_poll (1500000 * k) (\<lambda>rv. ([], rv))) [1, 2, 3, 4, 5, 6])
     (resolve_begin demo_fetch_env 0 ''c'' demo_known))) = RkDone r"
  by (rule fetch_returns [where gap = 1500000]) (simp_all add: demo_fetch_defs)



section \<open>Shared fetches\<close>

definition fetches_ok :: "resolver \<Rightarrow> bool" where
  "fetches_ok rv \<longleftrightarrow> hm_ok (in_flight rv) \<and> length (in_flight rv) \<le> MAX_IN_FLIGHT_FETCHES"

datatype fetch_op = Fetch "session list" string | LeaveFetch nat | FinishFetch nat

fun fetch_step :: "resolver \<Rightarrow> fetch_op \<Rightarrow> resolver" where
  "fetch_step rv (Fetch sessions cid) = snd (coalesce sessions cid rv)"
| "fetch_step rv (LeaveFetch i) = leave_fetch i rv"
| "fetch_step rv (FinishFetch i) = finish_fetch i rv"

lemma on_fetch_ok: "fetches_ok rv \<Longrightarrow> fetches_ok (on_fetch i f rv)"
  by (simp add: fetches_ok_def on_fetch_def hm_map_def hm_ok_def case_prod_beta comp_def)

lemma length_insert_present: "hm_get m k = Some v \<Longrightarrow> length (hm_insert k w m) = length m"
  by (induction m) (auto simp: hm_insert_def hm_get_def)

lemma length_insert_le: "length (hm_insert k w m) \<le> Suc (length m)"
  by (induction m) (auto simp: hm_insert_def)

lemma coalesce_ok:
  assumes "fetches_ok rv"
  shows "fetches_ok (snd (coalesce sessions cid rv))"
proof -
  let ?live = "hm_retain (\<lambda>_. fetch_alive) (in_flight rv)"
  have "hm_ok ?live" "length ?live \<le> MAX_IN_FLIGHT_FETCHES"
    using assms hm_length_retain [of "\<lambda>_. fetch_alive" "in_flight rv"] by (auto simp: fetches_ok_def)
  then show ?thesis
    using length_insert_le [of "fetch_key sessions cid" _ ?live]
    by (auto simp: coalesce_def Let_def fetches_ok_def length_insert_present split: option.splits intro: le_trans [OF length_insert_le])
qed

interpretation fetches: step_machine fetch_step fetches_ok "\<lambda>_. True"
  using coalesce_ok on_fetch_ok by unfold_locales (metis fetch_op.exhaust fetch_step.simps leave_fetch_def finish_fetch_def)

lemma distinct_remdups_adj_sorted: "sorted xs \<Longrightarrow> distinct (remdups_adj (xs :: 'a :: linorder list))"
  by (induction xs rule: remdups_adj.induct) (auto simp: order.antisym)

text \<open>Callers that ask for the same block over the same rooms while a fetch is going on share it.\<close>

lemma coalesce_shares:
  assumes "fetches_ok rv" and "coalesce sessions cid rv = (Started i, rv')" and "set (map ss_room other) = set (map ss_room sessions)"
  shows "fst (coalesce other cid rv') = Joined i"
proof -
  have key: "fetch_key other cid = fetch_key sessions cid"
  proof -
    have "remdups_adj (sort xs) = sorted_list_of_set (set xs)" for xs :: "string list"
      by (rule sorted_distinct_set_unique) (auto simp: sorted_remdups_adj distinct_remdups_adj_sorted)
    then show ?thesis using assms(3) by (simp add: fetch_key_def)
  qed
  let ?live = "hm_retain (\<lambda>_. fetch_alive) (in_flight rv)"
  let ?f = "\<lparr>ft_id = i, ft_subscribers = 1, ft_finished = False\<rparr>"
  have rv': "in_flight rv' = hm_insert (fetch_key sessions cid) ?f ?live"
    using assms(2) by (auto simp: coalesce_def Let_def split: option.splits if_splits)
  have "hm_ok ?live" using assms(1) by (simp add: fetches_ok_def)
  then have "hm_get (hm_retain (\<lambda>_. fetch_alive) (in_flight rv')) (fetch_key sessions cid) = Some ?f"
    by (simp add: rv' hm_get_retain fetch_alive_def)
  then show ?thesis by (simp add: coalesce_def Let_def key)
qed

end
