(* ===== verification/Block_Transfer.thy ===== *)
theory Block_Transfer
  imports Block_Resolver Storage_Engine
begin

text \<open>
  Serving blocks to peers: the responder that submits the frames of a block across short route losses
  (\<open>storage/responder.rs\<close>), and the storage side of the native engine
  (\<open>mistlib-native: storage.rs, storage/provider.rs, engine/network.rs\<close>): admission of WANTs, answers to
  WANT and QUERY, the dispatch of incoming storage frames, and single-block fetches.

  The transport's answer to the \<open>k\<close>-th call of one response is \<open>tx k frame\<close>. Spawned tasks, signals of
  the registry and events for the application are outputs. Sleeping is represented by the time it adds to
  \<open>route_wait\<close>; \<open>yield_now\<close> and log lines are left out.
\<close>

section \<open>The responder\<close>

definition ROUTE_RETRY_INTERVAL :: nat where "ROUTE_RETRY_INTERVAL = 200"

record responder =
  route_wait :: nat
  rp_calls :: nat
  rp_submitted :: "bytes list"
  responder_route_recoveries :: nat
  responder_write_errors :: nat
  responder_route_retries :: nat
  responder_chunks_submitted :: nat
  responder_bytes_submitted :: nat

definition responder_new :: responder where
  "responder_new = \<lparr>route_wait = 0, rp_calls = 0, rp_submitted = [], responder_route_recoveries = 0, responder_write_errors = 0,
     responder_route_retries = 0, responder_chunks_submitted = 0, responder_bytes_submitted = 0\<rparr>"

fun route_lost :: "mist_error \<Rightarrow> bool" where
  "route_lost (RouteNotFound _) = True"
| "route_lost _ = False"

definition frame_accepted :: "bytes \<Rightarrow> bool \<Rightarrow> responder \<Rightarrow> responder" where
  "frame_accepted frame retried r = r\<lparr>rp_calls := rp_calls r + 1, rp_submitted := rp_submitted r @ [frame],
     responder_route_recoveries := (if retried then wrap64 (responder_route_recoveries r + 1) else responder_route_recoveries r)\<rparr>"

definition frame_refused :: "responder \<Rightarrow> responder" where
  "frame_refused r = r\<lparr>rp_calls := rp_calls r + 1, responder_write_errors := wrap64 (responder_write_errors r + 1)\<rparr>"

definition route_retry :: "responder \<Rightarrow> responder" where
  "route_retry r = r\<lparr>route_wait := route_wait r + min ROUTE_RETRY_INTERVAL (RESPONDER_ROUTE_RECOVERY - route_wait r),
     responder_route_retries := wrap64 (responder_route_retries r + 1)\<rparr>"

text \<open>The inner loop of \<open>send_block\<close>: one frame.\<close>

function submit_frame :: "(nat \<Rightarrow> bytes \<Rightarrow> unit result) \<Rightarrow> bytes \<Rightarrow> bool \<Rightarrow> responder \<Rightarrow> unit result \<times> responder" where
  "submit_frame tx frame retried r =
     (case tx (rp_calls r) frame of
        Inr _ \<Rightarrow> (Inr (), frame_accepted frame retried r)
      | Inl e \<Rightarrow>
          if \<not> route_lost e \<or> route_wait r \<ge> RESPONDER_ROUTE_RECOVERY then (Inl e, frame_refused r)
          else submit_frame tx frame True (route_retry (frame_refused r)))"
  by pat_completeness auto

termination submit_frame
  by (relation "measure (\<lambda>(tx, frame, retried, r). RESPONDER_ROUTE_RECOVERY - route_wait r)")
    (auto simp: route_retry_def frame_refused_def ROUTE_RETRY_INTERVAL_def min_def)

declare submit_frame.simps [simp del]

definition count_submitted :: "bytes \<Rightarrow> nat \<Rightarrow> nat \<Rightarrow> nat \<Rightarrow> responder \<Rightarrow> responder" where
  "count_submitted data chunk_size n_chunks index r =
     (let n = (if n_chunks \<le> 1 then length data else min (length data - index * chunk_size) chunk_size)
      in r\<lparr>responder_chunks_submitted := wrap64 (responder_chunks_submitted r + 1),
           responder_bytes_submitted := wrap64 (responder_bytes_submitted r + n)\<rparr>)"

fun submit_frames ::
  "(nat \<Rightarrow> bytes \<Rightarrow> unit result) \<Rightarrow> string \<Rightarrow> bytes \<Rightarrow> nat \<Rightarrow> nat \<Rightarrow> nat list \<Rightarrow> responder \<Rightarrow> unit result \<times> responder" where
  "submit_frames tx cid data chunk_size n_chunks [] r = (Inr (), r)"
| "submit_frames tx cid data chunk_size n_chunks (index # rest) r =
     (case submit_frame tx (build_have_payload cid data index n_chunks chunk_size) False r of
        (Inl e, r) \<Rightarrow> (Inl e, r)
      | (Inr _, r) \<Rightarrow>
          submit_frames tx cid data chunk_size n_chunks rest (count_submitted data chunk_size n_chunks index r))"

definition send_block ::
  "(nat \<Rightarrow> bytes \<Rightarrow> unit result) \<Rightarrow> string \<Rightarrow> bytes \<Rightarrow> nat \<Rightarrow> nat \<Rightarrow> responder \<Rightarrow> unit result \<times> responder" where
  "send_block tx cid data chunk_size n_chunks r =
     submit_frames tx cid data chunk_size n_chunks [0..<max n_chunks 1] (r\<lparr>route_wait := 0\<rparr>)"

section \<open>Block providers of the host\<close>

text \<open>A provider is host code: its two answers are functions. The number stands for the handle.\<close>

record block_provider =
  bp_get_block :: "string \<Rightarrow> node_id \<Rightarrow> string \<Rightarrow> bytes option"
  bp_has_block :: "string \<Rightarrow> node_id \<Rightarrow> string \<Rightarrow> bool"

type_synonym providers = "(nat \<times> block_provider) list"

definition register_block_provider :: "nat \<Rightarrow> block_provider \<Rightarrow> providers \<Rightarrow> providers" where
  "register_block_provider handle p ps = ps @ [(handle, p)]"

fun unregister_block_provider :: "nat \<Rightarrow> providers \<Rightarrow> providers" where
  "unregister_block_provider handle [] = []"
| "unregister_block_provider handle (p # ps) = (if fst p = handle then ps else p # unregister_block_provider handle ps)"

fun provider_get_block :: "providers \<Rightarrow> string \<Rightarrow> node_id \<Rightarrow> string \<Rightarrow> bytes option" where
  "provider_get_block [] room sender cid = None"
| "provider_get_block ((_, p) # ps) room sender cid =
     (case bp_get_block p room sender cid of Some data \<Rightarrow> Some data | None \<Rightarrow> provider_get_block ps room sender cid)"

definition provider_has_block :: "providers \<Rightarrow> string \<Rightarrow> node_id \<Rightarrow> string \<Rightarrow> bool" where
  "provider_has_block ps room sender cid \<longleftrightarrow> list_ex (\<lambda>(_, p). bp_has_block p room sender cid) ps"

section \<open>The native storage service\<close>

record session_ctx =
  sx_ptr :: nat
  sx_room :: string
  sx_pipeline :: bool
  sx_limit :: "node_id \<Rightarrow> nat option"

record want_job =
  wj_ctx :: session_ctx
  wj_from :: node_id
  wj_cid :: string

record 'p native_storage =
  ns_registry :: want_registry
  ns_storage :: "'p storage_engine option"
  ns_serving :: "(nat \<times> node_id, want_job) want_queue"
  ns_providers :: providers

definition want_key :: "want_job \<Rightarrow> nat \<times> node_id" where
  "want_key job = (sx_ptr (wj_ctx job), wj_from job)"

text \<open>\<open>Some\<close> is the job a worker is spawned with.\<close>

definition serve_want :: "session_ctx \<Rightarrow> node_id \<Rightarrow> string \<Rightarrow> 'p native_storage \<Rightarrow> want_job option \<times> 'p native_storage" where
  "serve_want ctx sender cid st =
     (let job = \<lparr>wj_ctx = ctx, wj_from = sender, wj_cid = cid\<rparr>
      in if sx_pipeline ctx then
           (case want_enqueue (want_key job) job (ns_serving st) of (admission, q) \<Rightarrow>
              (case admission of Start job \<Rightarrow> Some job | _ \<Rightarrow> None, st\<lparr>ns_serving := q\<rparr>))
         else (Some job, st))"

text \<open>Loading the block: \<open>None\<close> of the outer option ends the handler because there is no storage.\<close>

definition load_wanted ::
  "('p, 's) storage_io \<Rightarrow> string \<Rightarrow> 'p native_storage \<Rightarrow> bytes option option \<times> 'p native_storage" where
  "load_wanted io cid st =
     (case ns_storage st of
        None \<Rightarrow> (None, st)
      | Some s \<Rightarrow>
          (case get_block io cid s of (loaded, s) \<Rightarrow>
             (Some (case loaded of Inl _ \<Rightarrow> None | Inr block \<Rightarrow> block), st\<lparr>ns_storage := Some s\<rparr>)))"

definition respond_with ::
  "(nat \<Rightarrow> bytes \<Rightarrow> unit result) \<Rightarrow> session_ctx \<Rightarrow> node_id \<Rightarrow> string \<Rightarrow> bytes \<Rightarrow> (unit result \<times> responder) option" where
  "respond_with tx ctx sender cid data =
     (let chunk_size = chunk_size_for_limit cid (sx_limit ctx sender)
      in case have_chunk_count (length data) chunk_size of
           None \<Rightarrow> None
         | Some n_chunks \<Rightarrow> Some (send_block tx cid data chunk_size n_chunks responder_new))"

definition handle_want ::
  "('p, 's) storage_io \<Rightarrow> (nat \<Rightarrow> bytes \<Rightarrow> unit result) \<Rightarrow> session_ctx \<Rightarrow> node_id \<Rightarrow> string \<Rightarrow> 'p native_storage
   \<Rightarrow> (unit result \<times> responder) option \<times> 'p native_storage" where
  "handle_want io tx ctx sender cid st =
     (if \<not> is_valid_cid cid then (None, st)
      else case provider_get_block (ns_providers st) (sx_room ctx) sender cid of
             Some data \<Rightarrow> (respond_with tx ctx sender cid data, st)
           | None \<Rightarrow>
               (case load_wanted io cid st of (loaded, st) \<Rightarrow>
                  (case loaded of Some (Some data) \<Rightarrow> respond_with tx ctx sender cid data | _ \<Rightarrow> None, st)))"

text \<open>A worker serves its job and then takes the next one of its peer, or ends.\<close>

definition worker_turn ::
  "('p, 's) storage_io \<Rightarrow> (nat \<Rightarrow> bytes \<Rightarrow> unit result) \<Rightarrow> want_job \<Rightarrow> 'p native_storage
   \<Rightarrow> want_job option \<times> (unit result \<times> responder) option \<times> 'p native_storage" where
  "worker_turn io tx job st =
     (case handle_want io tx (wj_ctx job) (wj_from job) (wj_cid job) st of (response, st) \<Rightarrow>
        if sx_pipeline (wj_ctx job)
        then (case want_next (want_key job) (ns_serving st) of (job', q) \<Rightarrow> (job', response, st\<lparr>ns_serving := q\<rparr>))
        else (None, response, st))"

text \<open>The status message \<open>handle_query\<close> sends, if any.\<close>

definition handle_query ::
  "('p, 's) storage_io \<Rightarrow> session_ctx \<Rightarrow> node_id \<Rightarrow> string \<Rightarrow> 'p native_storage \<Rightarrow> bytes option \<times> 'p native_storage" where
  "handle_query io ctx sender cid st =
     (if \<not> is_valid_cid cid then (None, st)
      else if provider_has_block (ns_providers st) (sx_room ctx) sender cid then (Some (build_have_status_message cid), st)
      else case load_wanted io cid st of (loaded, st) \<Rightarrow>
        (case loaded of Some (Some _) \<Rightarrow> Some (build_have_status_message cid) | _ \<Rightarrow> None, st))"

datatype storage_output =
    OutSignal want_signal
  | OutServe want_job
  | OutQuery node_id string
  | OutRoomPeer nat node_id
  | OutPeer nat
  | OutRaw node_id bytes
  | OutOverlay node_id bytes
  | OutRegisterNode node_id
  | OutSignaling signaling_data

definition handle_storage_message ::
  "nat \<Rightarrow> session_ctx \<Rightarrow> node_id \<Rightarrow> bytes \<Rightarrow> 'p native_storage \<Rightarrow> bool \<times> storage_output list \<times> 'p native_storage" where
  "handle_storage_message now ctx sender data st =
     (case classify_storage_frame data of
        None \<Rightarrow> (False, [], st)
      | Some (Want cid) \<Rightarrow>
          (case serve_want ctx sender cid st of (job, st) \<Rightarrow> (True, case job of None \<Rightarrow> [] | Some j \<Rightarrow> [OutServe j], st))
      | Some (Query cid) \<Rightarrow> (True, [OutQuery sender cid], st)
      | Some (HaveStatus cid) \<Rightarrow>
          (case register_peer_in (sx_room ctx) cid sender (ns_registry st) of (rooms, peers, r) \<Rightarrow>
             (True, map (\<lambda>(n, p). OutRoomPeer n p) rooms @ map OutPeer peers, st\<lparr>ns_registry := r\<rparr>))
      | Some (Have cid body) \<Rightarrow>
          (case fulfill_in now (sx_room ctx) cid sender body (ns_registry st) of (out, r) \<Rightarrow>
             (True, map OutSignal out, st\<lparr>ns_registry := r\<rparr>))
      | Some (HaveChunk cid chunk_index chunk_total body) \<Rightarrow>
          (case fulfill_chunk_in now (sx_room ctx) cid sender chunk_index chunk_total body (ns_registry st) of (out, r) \<Rightarrow>
             (True, map OutSignal out, st\<lparr>ns_registry := r\<rparr>)))"

text \<open>\<open>has_dispatcher\<close>: the session has a relay for signaling between peers.\<close>

definition dispatch_local_message ::
  "nat \<Rightarrow> session_ctx \<Rightarrow> bool \<Rightarrow> node_id \<Rightarrow> message_content \<Rightarrow> 'p native_storage \<Rightarrow> storage_output list \<times> 'p native_storage" where
  "dispatch_local_message now ctx has_dispatcher sender msg st =
     (case msg of
        Raw body \<Rightarrow>
          (case handle_storage_message now ctx sender body st of (handled, out, st) \<Rightarrow>
             (if handled then out else [OutRaw sender body], st))
      | Overlay m \<Rightarrow> (if is_internal_control m then [] else [OutOverlay sender (payload m)], st)
      | Data d \<Rightarrow> (OutRegisterNode (sender_id d) # (if has_dispatcher then [OutSignaling d] else []), st))"

text \<open>The handlers of the C interface, for frames that did not come through a session.\<close>

definition handle_have_status :: "node_id \<Rightarrow> string \<Rightarrow> 'p native_storage \<Rightarrow> nat list \<times> 'p native_storage" where
  "handle_have_status sender cid st =
     (if \<not> is_valid_cid cid then ([], st)
      else case register_peer cid sender (ns_registry st) of (out, r) \<Rightarrow> (out, st\<lparr>ns_registry := r\<rparr>))"

definition handle_have_from :: "nat \<Rightarrow> node_id \<Rightarrow> string \<Rightarrow> bytes \<Rightarrow> 'p native_storage \<Rightarrow> want_signal list \<times> 'p native_storage" where
  "handle_have_from now sender cid data st =
     (if \<not> is_valid_cid cid then ([], st)
      else case fulfill_in now '''' cid sender data (ns_registry st) of (out, r) \<Rightarrow> (out, st\<lparr>ns_registry := r\<rparr>))"

definition handle_have :: "nat \<Rightarrow> string \<Rightarrow> bytes \<Rightarrow> 'p native_storage \<Rightarrow> want_signal list \<times> 'p native_storage" where
  "handle_have now cid data st = handle_have_from now (NodeId '''') cid data st"

definition handle_have_chunk_from ::
  "nat \<Rightarrow> node_id \<Rightarrow> string \<Rightarrow> nat \<Rightarrow> nat \<Rightarrow> bytes \<Rightarrow> 'p native_storage \<Rightarrow> want_signal list \<times> 'p native_storage" where
  "handle_have_chunk_from now sender cid chunk_index chunk_total data st =
     (if \<not> is_valid_cid cid then ([], st)
      else case fulfill_chunk_in now '''' cid sender chunk_index chunk_total data (ns_registry st) of (out, r) \<Rightarrow>
        (out, st\<lparr>ns_registry := r\<rparr>))"

definition handle_have_chunk :: "nat \<Rightarrow> string \<Rightarrow> nat \<Rightarrow> nat \<Rightarrow> bytes \<Rightarrow> 'p native_storage \<Rightarrow> want_signal list \<times> 'p native_storage" where
  "handle_have_chunk now cid chunk_index chunk_total data st =
     handle_have_chunk_from now (NodeId '''') cid chunk_index chunk_total data st"

section \<open>Fetching a single block\<close>

text \<open>
  \<open>fetch_block\<close> as a machine over its await points: waiting for the broadcast, for a provider's reply, for
  the admission of the WANT, and for the data. A poll says whether the room was left, what the
  transport answered so far, and what other tasks did to the registry, with its signals and the replies it
  passed to notifiers. The hash, the varint functions and the text of a number are parameters.
\<close>

record single_env =
  sg_sha256 :: "bytes \<Rightarrow> bytes"
  sg_varint :: "nat \<Rightarrow> bytes"
  sg_unvarint :: "bytes \<Rightarrow> (nat \<times> bytes) option"
  sg_number :: "nat \<Rightarrow> string"

record fetch_options =
  fo_peer :: "node_id option"
  fo_max_bytes :: nat
  fo_timeout :: nat

datatype single_phase = SgBroadcast | SgReply | SgSending | SgReceiving | SgDone "bytes result"

record single_fetch =
  sg_room :: string
  sg_cid :: string
  sg_codec :: nat
  sg_max_bytes :: nat
  sg_deadline :: nat
  sg_notifier :: nat
  sg_reply :: "node_id option"
  sg_attempt :: nat
  sg_inbox :: "bytes option"
  sg_exceeded :: "nat option"
  sg_phase :: single_phase

record single_poll =
  sp_now :: nat
  sp_cancelled :: bool
  sp_broadcast :: "unit result option"
  sp_send :: "unit result option"
  sp_tasks :: "want_registry \<Rightarrow> (want_signal list \<times> (nat \<times> node_id) list) \<times> want_registry"

text \<open>From the choice of the peer to the first await of the transfer.\<close>

definition single_request :: "node_id \<Rightarrow> single_fetch \<Rightarrow> want_registry \<Rightarrow> single_fetch \<times> want_registry" where
  "single_request peer f r =
     (let (i, st) = register_bounded_attempt (sg_cid f) peer (sg_max_bytes f) (reg_state r);
          (tracked, st) = track_path i (sg_room f) st;
          r = r\<lparr>reg_state := st\<rparr>
      in if \<not> tracked then (f\<lparr>sg_phase := SgDone (Inl (Network ''Block fetch registration rejected''))\<rparr>, r)
         else (f\<lparr>sg_attempt := i, sg_phase := SgSending\<rparr>, r))"

text \<open>Leaving the function drops the receivers and then prunes.\<close>

definition single_close :: "single_fetch \<Rightarrow> want_registry \<Rightarrow> want_registry" where
  "single_close f r =
     cancel_closed (r\<lparr>reg_state := drop_receiver (sg_attempt f) (reg_state r),
       room_peer_notifiers := hm_map (\<lambda>_. map (\<lambda>n. if notifier_id n = sg_notifier f then n\<lparr>notifier_closed := True\<rparr> else n)) (room_peer_notifiers r)\<rparr>)"

definition single_end :: "bytes result \<Rightarrow> single_fetch \<Rightarrow> want_registry \<Rightarrow> single_fetch \<times> want_registry" where
  "single_end res f r = (f\<lparr>sg_phase := SgDone res\<rparr>, single_close f r)"

text \<open>\<open>nid\<close> is the number of the notifier's channel.\<close>

definition fetch_block ::
  "single_env \<Rightarrow> nat \<Rightarrow> nat \<Rightarrow> bool \<Rightarrow> string \<Rightarrow> string \<Rightarrow> fetch_options \<Rightarrow> want_registry \<Rightarrow> single_fetch \<times> want_registry" where
  "fetch_block env nid now has_session room cid opts r =
     (let f = \<lparr>sg_room = room, sg_cid = cid, sg_codec = 0, sg_max_bytes = fo_max_bytes opts, sg_deadline = now + fo_timeout opts,
             sg_notifier = nid, sg_reply = None, sg_attempt = 0, sg_inbox = None, sg_exceeded = None, sg_phase = SgBroadcast\<rparr>
      in case cid_codec (sg_unvarint env) cid of
           None \<Rightarrow> (f\<lparr>sg_phase := SgDone (Inl (Config ''Invalid or unsupported block CID''))\<rparr>, r)
         | Some codec \<Rightarrow>
             let f = f\<lparr>sg_codec := codec\<rparr>
             in if \<not> has_session then (f\<lparr>sg_phase := SgDone (Inl (Config (''No active session for room '' @ room)))\<rparr>, r)
                else case fo_peer opts of
                       Some peer \<Rightarrow>
                         (case single_request peer f r of (f, r) \<Rightarrow> (f, if sg_phase f = SgSending then r else single_close f r))
                     | None \<Rightarrow> (f, register_peer_notifier_in nid room cid r))"

definition single_notice :: "want_signal list \<times> (nat \<times> node_id) list \<Rightarrow> single_fetch \<Rightarrow> single_fetch" where
  "single_notice = (\<lambda>(signals, replies) f.
     let f = (case filter (\<lambda>(n, _). n = sg_notifier f) replies of
                (_, peer) # _ \<Rightarrow> if sg_reply f = None then f\<lparr>sg_reply := Some peer\<rparr> else f
              | [] \<Rightarrow> f);
         started = sg_phase f \<in> {SgSending, SgReceiving};
         size = find (\<lambda>s. case s of Overflow i _ \<Rightarrow> i = sg_attempt f | _ \<Rightarrow> False) signals
     in if \<not> started then f
        else f\<lparr>sg_inbox := (case sg_inbox f of None \<Rightarrow> delivered_to (sg_attempt f) signals | Some b \<Rightarrow> Some b),
               sg_exceeded := (case sg_exceeded f of Some n \<Rightarrow> Some n | None \<Rightarrow>
                 (case size of Some (Overflow _ n) \<Rightarrow> Some n | _ \<Rightarrow> None))\<rparr>)"

definition single_receive :: "single_env \<Rightarrow> single_fetch \<Rightarrow> want_registry \<Rightarrow> single_fetch" where
  "single_receive env f r =
     (case sg_inbox f of
        Some data \<Rightarrow>
          if verify_cid (sg_sha256 env) (sg_varint env) (sg_cid f) data (sg_codec f) then f\<lparr>sg_phase := SgDone (Inr data)\<rparr>
          else f\<lparr>sg_phase := SgDone (Inl (Network ''Block CID/hash mismatch''))\<rparr>
      | None \<Rightarrow>
          if find_want (sg_attempt f) (reg_state r) = None
          then f\<lparr>sg_phase := SgDone (Inl (Network ''Block fetch registration closed''))\<rparr>
          else f)"

definition exceeds :: "single_env \<Rightarrow> nat \<Rightarrow> string" where
  "exceeds env n = ''Block exceeds receive byte limit (observed '' @ sg_number env n @ '' bytes)''"

text \<open>One poll of \<open>transfer\<close>.\<close>

definition notifier_open :: "single_fetch \<Rightarrow> want_registry \<Rightarrow> bool" where
  "notifier_open f r \<longleftrightarrow> list_ex (\<lambda>n. notifier_id n = sg_notifier f)
     (case hm_get (room_peer_notifiers r) (sg_room f, sg_cid f) of None \<Rightarrow> [] | Some l \<Rightarrow> l)"

definition single_transfer :: "single_env \<Rightarrow> single_poll \<Rightarrow> single_fetch \<Rightarrow> want_registry \<Rightarrow> single_fetch \<times> want_registry" where
  "single_transfer env p f r =
     (case sg_phase f of
        SgDone _ \<Rightarrow> (f, r)
      | SgBroadcast \<Rightarrow>
          (case sp_broadcast p of
             None \<Rightarrow> (f, r)
           | Some (Inl e) \<Rightarrow> (f\<lparr>sg_phase := SgDone (Inl e)\<rparr>, r)
           | Some (Inr _) \<Rightarrow> (f\<lparr>sg_phase := SgReply\<rparr>, r))
      | SgReply \<Rightarrow>
          (case sg_reply f of
             Some peer \<Rightarrow> single_request peer f r
           | None \<Rightarrow> if notifier_open f r then (f, r)
                      else (f\<lparr>sg_phase := SgDone (Inl (Network ''Block discovery registration closed''))\<rparr>, r))
      | phase \<Rightarrow>
          (case sg_exceeded f of
             Some n \<Rightarrow> (f\<lparr>sg_phase := SgDone (Inl (Network (exceeds env n)))\<rparr>, r)
           | None \<Rightarrow>
               if phase = SgSending then
                 (case sp_send p of
                    None \<Rightarrow> (f, r)
                  | Some (Inl e) \<Rightarrow> (f\<lparr>sg_phase := SgDone (Inl e)\<rparr>, r)
                  | Some (Inr _) \<Rightarrow> (f\<lparr>sg_phase := SgReceiving\<rparr>, r))
               else (single_receive env f r, r)))"

text \<open>The cancellation comes first; \<open>timeout\<close> polls the transfer before its clock.\<close>

definition single_poll_step :: "single_env \<Rightarrow> single_poll \<Rightarrow> single_fetch \<times> want_registry \<Rightarrow> single_fetch \<times> want_registry" where
  "single_poll_step env p = (\<lambda>(f, r).
     case sp_tasks p r of (news, r) \<Rightarrow>
       let f = single_notice news f
       in case sg_phase f of
            SgDone _ \<Rightarrow> (f, r)
          | _ \<Rightarrow>
              if sp_cancelled p then single_end (Inl (Network ''Block fetch room session closed'')) f r
              else case single_transfer env p f r of (f, r) \<Rightarrow>
                (case sg_phase f of
                   SgDone res \<Rightarrow> single_end res f r
                 | _ \<Rightarrow> if sg_deadline f \<le> sp_now p then single_end (Inl (Network ''Block fetch timeout'')) f r else (f, r)))"

end
