(* ===== verification/Block_Serving.thy ===== *)
theory Block_Serving
  imports Block_Transfer
begin

text \<open>
  Correctness of serving and receiving blocks: the order and number of the frames a responder submits,
  the budget of route losses it survives, the transfer of a block from one node's store to the
  requests of another, and the authenticity of single-block fetches.
\<close>

section \<open>The responder\<close>

text \<open>The frames of a response, and the retries a responder has made.\<close>

definition response_frames :: "string \<Rightarrow> bytes \<Rightarrow> nat \<Rightarrow> nat \<Rightarrow> bytes list" where
  "response_frames cid data chunk_size n = map (\<lambda>i. build_have_payload cid data i n chunk_size) [0..<max n 1]"

definition route_retries :: "nat \<Rightarrow> responder \<Rightarrow> bool" where
  "route_retries k r \<longleftrightarrow> route_wait r = 200 * k \<and> k \<le> 25"

lemma retry_retries: "route_retries k r \<Longrightarrow> k < 25 \<Longrightarrow> route_retries (Suc k) (route_retry (frame_refused r))"
  by (simp add: route_retries_def route_retry_def frame_refused_def ROUTE_RETRY_INTERVAL_def RESPONDER_ROUTE_RECOVERY_def)

lemma count_submitted_fields [simp]:
  "rp_submitted (count_submitted data cs n i r) = rp_submitted r" "rp_calls (count_submitted data cs n i r) = rp_calls r"
  "route_wait (count_submitted data cs n i r) = route_wait r"
  by (simp_all add: count_submitted_def Let_def)

lemma submit_frame_effect:
  assumes "route_retries k r" and "submit_frame tx frame retried r = (res, r')"
  shows "\<exists>k'. route_retries k' r' \<and> k \<le> k' \<and> rp_calls r' = Suc (rp_calls r + (k' - k))
    \<and> rp_submitted r' = rp_submitted r @ (case res of Inl _ \<Rightarrow> [] | Inr _ \<Rightarrow> [frame])"
  using assms
proof (induction tx frame retried r arbitrary: k rule: submit_frame.induct)
  case (1 tx frame retried r)
  show ?case
  proof (cases "tx (rp_calls r) frame")
    case (Inr u)
    then have "res = Inr ()" "r' = frame_accepted frame retried r" using 1(3) by (simp_all add: submit_frame.simps [of tx frame retried r])
    then show ?thesis using 1(2) by (intro exI [of _ k]) (simp add: frame_accepted_def route_retries_def)
  next
    case (Inl e)
    show ?thesis
    proof (cases "\<not> route_lost e \<or> route_wait r \<ge> RESPONDER_ROUTE_RECOVERY")
      case True
      then have "res = Inl e" "r' = frame_refused r" using 1(3) Inl by (auto simp: submit_frame.simps [of tx frame retried r])
      then show ?thesis using 1(2) by (intro exI [of _ k]) (simp add: frame_refused_def route_retries_def)
    next
      case False
      let ?r = "route_retry (frame_refused r)"
      have k: "k < 25" using False 1(2) by (auto simp: route_retries_def RESPONDER_ROUTE_RECOVERY_def)
      have "submit_frame tx frame True ?r = (res, r')"
        using 1(3) Inl False by (simp add: submit_frame.simps [of tx frame retried r])
      from 1(1) [OF Inl False retry_retries [OF 1(2) k] this]
      obtain k' where "route_retries k' r'" "Suc k \<le> k'" "rp_calls r' = Suc (rp_calls ?r + (k' - Suc k))"
        "rp_submitted r' = rp_submitted ?r @ (case res of Inl _ \<Rightarrow> [] | Inr _ \<Rightarrow> [frame])" by blast
      then show ?thesis by (intro exI [of _ k']) (auto simp: route_retry_def frame_refused_def)
    qed
  qed
qed

lemma submit_frames_effect:
  assumes "route_retries k r" and "submit_frames tx cid data cs n js r = (res, r')"
  shows "\<exists>k' m. route_retries k' r' \<and> k \<le> k' \<and> m \<le> length js
    \<and> rp_submitted r' = rp_submitted r @ map (\<lambda>i. build_have_payload cid data i n cs) (take m js)
    \<and> (case res of Inl _ \<Rightarrow> m < length js \<and> rp_calls r' = Suc (rp_calls r + m + (k' - k))
                  | Inr _ \<Rightarrow> m = length js \<and> rp_calls r' = rp_calls r + m + (k' - k))"
  using assms
proof (induction js arbitrary: k r)
  case Nil
  then show ?case by (intro exI [of _ k] exI [of _ 0]) auto
next
  case (Cons j js)
  let ?f = "build_have_payload cid data j n cs"
  obtain res1 r1 where s: "submit_frame tx ?f False r = (res1, r1)" by force
  from submit_frame_effect [OF Cons.prems(1) s]
  obtain k1 where k1: "route_retries k1 r1" "k \<le> k1" "rp_calls r1 = Suc (rp_calls r + (k1 - k))"
    "rp_submitted r1 = rp_submitted r @ (case res1 of Inl _ \<Rightarrow> [] | Inr _ \<Rightarrow> [?f])" by blast
  show ?case
  proof (cases res1)
    case (Inl e)
    then have "res = Inl e" "r' = r1" using Cons.prems(2) s by auto
    then show ?thesis using k1 Inl by (intro exI [of _ k1] exI [of _ 0]) auto
  next
    case (Inr u)
    let ?r1 = "count_submitted data cs n j r1"
    have "route_retries k1 ?r1" using k1(1) by (simp add: route_retries_def)
    moreover have "submit_frames tx cid data cs n js ?r1 = (res, r')" using Cons.prems(2) s Inr by simp
    ultimately obtain k' m where m: "route_retries k' r'" "k1 \<le> k'" "m \<le> length js"
      "rp_submitted r' = rp_submitted ?r1 @ map (\<lambda>i. build_have_payload cid data i n cs) (take m js)"
      "case res of Inl _ \<Rightarrow> m < length js \<and> rp_calls r' = Suc (rp_calls ?r1 + m + (k' - k1))
                  | Inr _ \<Rightarrow> m = length js \<and> rp_calls r' = rp_calls ?r1 + m + (k' - k1)"
      using Cons.IH by blast
    then show ?thesis using k1 Inr by (intro exI [of _ k'] exI [of _ "Suc m"]) (auto split: sum.splits)
  qed
qed

text \<open>A transport that refuses only for lack of a route, and only in the calls of a set.\<close>

definition refuses_only :: "nat set \<Rightarrow> (nat \<Rightarrow> bytes \<Rightarrow> unit result) \<Rightarrow> bool" where
  "refuses_only S tx \<longleftrightarrow> (\<forall>k frame e. tx k frame = Inl e \<longrightarrow> route_lost e \<and> k \<in> S)"

definition refusals_fit :: "nat set \<Rightarrow> responder \<Rightarrow> bool" where
  "refusals_fit S r \<longleftrightarrow> (\<exists>k. route_retries k r \<and> k \<le> card (S \<inter> {..<rp_calls r}))"

lemma card_below_Suc: "finite S \<Longrightarrow> card (S \<inter> {..<Suc n}) = card (S \<inter> {..<n}) + (if n \<in> S then 1 else 0)"
proof -
  assume "finite S"
  moreover have "S \<inter> {..<Suc n} = (if n \<in> S then insert n (S \<inter> {..<n}) else S \<inter> {..<n})" by (auto simp: less_Suc_eq)
  ultimately show ?thesis by simp
qed

lemma submit_frame_succeeds:
  assumes "refuses_only S tx" and "finite S" and "card S \<le> 25" and "refusals_fit S r"
  shows "\<exists>r'. submit_frame tx frame retried r = (Inr (), r') \<and> refusals_fit S r'"
  using assms(1,4)
proof (induction tx frame retried r rule: submit_frame.induct)
  case (1 tx frame retried r)
  obtain k where k: "route_retries k r" "k \<le> card (S \<inter> {..<rp_calls r})" using 1(3) by (auto simp: refusals_fit_def)
  show ?case
  proof (cases "tx (rp_calls r) frame")
    case (Inr u)
    then show ?thesis
      using k card_below_Suc [OF assms(2), of "rp_calls r"] route_retries_def
      by (subst submit_frame.simps) (auto simp: refusals_fit_def frame_accepted_def route_retries_def intro!: exI [of _ k])
  next
    case (Inl e)
    then have e: "route_lost e" "rp_calls r \<in> S" using 1(2) by (auto simp: refuses_only_def)
    have "card (S \<inter> {..<Suc (rp_calls r)}) \<le> card S" by (rule card_mono [OF assms(2)]) simp
    then have "Suc k \<le> card S" using card_below_Suc [OF assms(2), of "rp_calls r"] e(2) k(2) by simp
    then have k25: "k < 25" using assms(3) by simp
    then have g: "\<not> (\<not> route_lost e \<or> route_wait r \<ge> RESPONDER_ROUTE_RECOVERY)"
      using e(1) k(1) by (simp add: route_retries_def RESPONDER_ROUTE_RECOVERY_def)
    have "refusals_fit S (route_retry (frame_refused r))"
      unfolding refusals_fit_def
      using retry_retries [OF k(1) k25] card_below_Suc [OF assms(2), of "rp_calls r"] e(2) k(2)
      by (intro exI [of _ "Suc k"]) (simp add: route_retry_def frame_refused_def)
    from 1(1) [OF Inl g 1(2) this] show ?thesis using Inl g by (simp add: submit_frame.simps [of tx frame retried r])
  qed
qed

lemma submit_frames_succeeds:
  assumes "refuses_only S tx" and "finite S" and "card S \<le> 25"
  shows "refusals_fit S r \<Longrightarrow> \<exists>r'. submit_frames tx cid data cs n js r = (Inr (), r')"
proof (induction js arbitrary: r)
  case (Cons j js)
  obtain r1 where r1: "submit_frame tx (build_have_payload cid data j n cs) False r = (Inr (), r1)" "refusals_fit S r1"
    using submit_frame_succeeds [OF assms Cons.prems] by blast
  then have "refusals_fit S (count_submitted data cs n j r1)" by (simp add: refusals_fit_def route_retries_def)
  from Cons.IH [OF this] r1(1) show ?case by simp
qed simp

lemma send_block_effect:
  assumes "send_block tx cid data cs n r = (res, r')"
  shows "\<exists>m. rp_submitted r' = rp_submitted r @ take m (response_frames cid data cs n) \<and> m \<le> max n 1
    \<and> (res = Inr () \<longleftrightarrow> m = max n 1) \<and> rp_calls r' \<le> rp_calls r + max n 1 + 25"
proof -
  have "route_retries 0 (r\<lparr>route_wait := 0\<rparr>)" by (simp add: route_retries_def)
  from submit_frames_effect [OF this assms [unfolded send_block_def]]
  obtain k m where "route_retries k r'" "m \<le> max n 1" "rp_submitted r' = rp_submitted r @ take m (response_frames cid data cs n)"
    "case res of Inl _ \<Rightarrow> m < max n 1 \<and> rp_calls r' = Suc (rp_calls r + m + k)
                | Inr _ \<Rightarrow> m = max n 1 \<and> rp_calls r' = rp_calls r + m + k"
    by (force simp: response_frames_def take_map split: sum.splits)
  then show ?thesis by (intro exI [of _ m]) (auto simp: route_retries_def split: sum.splits)
qed

lemma send_block_succeeds:
  assumes "refuses_only S tx" and "finite S" and "card S \<le> 25"
  shows "\<exists>r'. send_block tx cid data cs n r = (Inr (), r') \<and> rp_submitted r' = rp_submitted r @ response_frames cid data cs n"
proof -
  have "refusals_fit S (r\<lparr>route_wait := 0\<rparr>)" by (auto simp: refusals_fit_def route_retries_def)
  from submit_frames_succeeds [OF assms this] obtain r' where r': "send_block tx cid data cs n r = (Inr (), r')"
    unfolding send_block_def by blast
  from send_block_effect [OF this] obtain m where "rp_submitted r' = rp_submitted r @ take m (response_frames cid data cs n)" "m = max n 1"
    by auto
  then show ?thesis using r' by (simp add: response_frames_def)
qed

section \<open>Receiving\<close>

fun receive_frames ::
  "session_ctx \<Rightarrow> node_id \<Rightarrow> (nat \<times> bytes) list \<Rightarrow> 'p native_storage \<Rightarrow> storage_output list \<times> 'p native_storage" where
  "receive_frames ctx sender [] st = ([], st)"
| "receive_frames ctx sender ((now, data) # xs) st =
     (let (_, out, st) = handle_storage_message now ctx sender data st; (out', st) = receive_frames ctx sender xs st
      in (out @ out', st))"

lemma receive_chunks:
  assumes "is_valid_cid cid" and "1 < n" and "n \<le> MAX_WANT_CHUNKS" and "snd ` set order \<subseteq> {..<n}"
  shows "fst (receive_frames ctx sender (map (\<lambda>(now, i). (now, build_have_payload cid data i n cs)) order) st)
    = map OutSignal (fst (chunk_run (sx_room ctx) cid sender n (map (\<lambda>(now, i). (now, i, block_parts cs n data ! i)) order)
        (reg_state (ns_registry st), reg_counters (ns_registry st))))"
  using assms(4)
proof (induction order arbitrary: st)
  case (Cons p order)
  obtain now i where p: "p = (now, i)" by force
  obtain out st1 c1 where f: "fulfill_chunk_data_in now (sx_room ctx) cid sender i n (block_parts cs n data ! i)
      (reg_state (ns_registry st), reg_counters (ns_registry st)) = (out, st1, c1)" by (metis prod_cases3)
  let ?st = "st\<lparr>ns_registry := (ns_registry st)\<lparr>reg_state := st1, reg_counters := c1\<rparr>\<rparr>"
  have "handle_storage_message now ctx sender (build_have_payload cid data i n cs) st = (True, map OutSignal out, ?st)"
    using Cons.prems classify_chunk_payload [OF assms(1-3), of i data cs] f
    by (simp add: p handle_storage_message_def fulfill_chunk_in_def)
  then show ?case using Cons.IH [of ?st] Cons.prems f by (simp add: p case_prod_beta)
qed simp

lemma chunk_size_min: "MIN_CHUNK_SIZE \<le> chunk_size_for_limit cid limit"
  by (auto simp: chunk_size_for_limit_def Let_def MIN_CHUNK_SIZE_def HAVE_CHUNK_SIZE_def split: option.splits)

lemma block_fits_chunks:
  assumes "length data \<le> MAX_WANT_BLOCK_BYTES" and "MIN_CHUNK_SIZE \<le> cs"
  shows "\<exists>n \<le> MAX_WANT_CHUNKS. have_chunk_count (length data) cs = Some n"
proof -
  have "length data \<le> 8192 * cs" using assms by (simp add: MAX_WANT_BLOCK_BYTES_def MIN_CHUNK_SIZE_def)
  then have "div_ceil (length data) cs \<le> 8192"
    using assms(2) by (simp add: div_ceil_le_iff MIN_CHUNK_SIZE_def)
  then show ?thesis by (simp add: have_chunk_count_def Let_def MAX_WANT_CHUNKS_def)
qed

text \<open>What the receiver makes of the complete frames of a response, in any order.\<close>

lemma response_delivers:
  assumes cid: "is_valid_cid cid" and cs: "0 < cs" and n: "have_chunk_count (length data) cs = Some n" "n \<le> MAX_WANT_CHUNKS"
    and size: "length data \<le> MAX_WANT_BLOCK_BYTES"
    and reg: "ws_ok ws" "listeners cid sender room ws \<noteq> []" "\<forall>l \<in> set (listeners cid sender room ws). within (length data) l"
      "hm_get (assemblies ws) (cid, sender, room) = None" "length (assemblies ws) < MAX_WANT_ASSEMBLIES"
      "assembly_total ws + length data \<le> MAX_WANT_ASSEMBLY_BYTES"
    and ws: "ws = reg_state (ns_registry st)" and room: "room = sx_room ctx"
    and order: "distinct (map snd order)" "snd ` set order = {..<max n 1}"
  shows "fst (receive_frames ctx sender (map (\<lambda>(now, i). (now, response_frames cid data cs n ! i)) order) st)
    = map OutSignal (deliveries data (listeners cid sender room ws))"
proof (cases "1 < n")
  case True
  have eq: "map (\<lambda>(now, i). (now, response_frames cid data cs n ! i)) order = map (\<lambda>(now, i). (now, build_have_payload cid data i n cs)) order"
  proof (rule map_cong [OF refl])
    fix p assume "p \<in> set order"
    then have "snd p < n" using order(2) True by force
    then show "(\<lambda>(now, i). (now, response_frames cid data cs n ! i)) p = (\<lambda>(now, i). (now, build_have_payload cid data i n cs)) p"
      using True by (simp add: response_frames_def case_prod_beta)
  qed
  let ?parts = "block_parts cs n data"
  have parts: "concat ?parts = data" by (rule concat_block_parts [OF cs n(1)])
  have "fst (chunk_run room cid sender (length ?parts) (map (\<lambda>(now, i). (now, i, ?parts ! i)) order) (ws, reg_counters (ns_registry st)))
      = deliveries (concat ?parts) (listeners cid sender room ws)"
    by (rule chunk_run_delivers [OF assembling_start]) (use reg True n(2) size order parts in auto)
  then show ?thesis
    using receive_chunks [OF cid True n(2), of order ctx sender data cs st] order(2) True parts by (simp add: eq ws room)
next
  case False
  then have one: "response_frames cid data cs n = [build_have_payload cid data 0 n cs]" by (simp add: response_frames_def max_def)
  obtain now where o1: "order = [(now, 0)]"
  proof -
    have "snd ` set order = {0}" using order(2) False by (auto simp: max_def lessThan_Suc)
    then obtain now xs where "order = (now, 0) # xs" "xs = []" using order(1) by (cases order; cases "tl order") auto
    then show thesis using that by simp
  qed
  obtain out ws1 c1 where f: "fulfill_data_in now room cid sender data (ws, reg_counters (ns_registry st)) = (out, ws1, c1)"
    by (metis prod_cases3)
  have "overflows (length data) (listeners cid sender room ws) = []" using reg(3) by (auto simp: overflows_def)
  moreover have "filter (within (length data)) (listeners cid sender room ws) = listeners cid sender room ws" using reg(3) by simp
  ultimately have out: "out = deliveries data (listeners cid sender room ws)"
    using have_message_exact [OF reg(1), of now room cid sender data "reg_counters (ns_registry st)"] f size by simp
  show ?thesis
    using classify_whole_payload [OF cid, of n data 0 cs] False f out
    by (simp add: o1 one handle_storage_message_def fulfill_in_def ws room)
qed

lemma handle_want_serves:
  assumes "is_valid_cid cid" and "provider_get_block (ns_providers st) (sx_room ctx) peer cid = None"
    and "ns_storage st = Some s" and "hm_get (se_blocks s) cid = Some data" and "io_load io cid = Inr ()"
  shows "fst (handle_want io tx ctx peer cid st) = respond_with tx ctx peer cid data"
  using assms by (simp add: handle_want_def load_wanted_def get_block_def load_block_def)

section \<open>Single-block fetches\<close>

definition single_ok :: "single_env \<Rightarrow> single_fetch \<Rightarrow> bool" where
  "single_ok env f \<longleftrightarrow> (\<forall>data. sg_phase f = SgDone (Inr data) \<longrightarrow>
     verify_cid (sg_sha256 env) (sg_varint env) (sg_cid f) data (sg_codec f))
   \<and> ((\<forall>e. sg_phase f \<noteq> SgDone (Inl e)) \<longrightarrow> cid_codec (sg_unvarint env) (sg_cid f) = Some (sg_codec f))"

lemma single_request_ok: "single_ok env f \<Longrightarrow> (\<forall>r. sg_phase f \<noteq> SgDone r) \<Longrightarrow> single_ok env (fst (single_request peer f r))"
  by (auto simp: single_request_def single_ok_def Let_def split: prod.splits)

lemma fetch_block_ok: "single_ok env (fst (fetch_block env nid now has_session room cid opts r))"
proof -
  have "single_ok env (fst (single_request peer f r))" if "cid_codec (sg_unvarint env) (sg_cid f) = Some (sg_codec f)" "sg_phase f = SgBroadcast" for peer f
    by (rule single_request_ok) (use that in \<open>auto simp: single_ok_def\<close>)
  then show ?thesis by (auto simp: fetch_block_def Let_def single_ok_def case_prod_beta split: option.splits)
qed

lemma single_notice_fields [simp]:
  "sg_phase (single_notice news f) = sg_phase f" "sg_cid (single_notice news f) = sg_cid f" "sg_codec (single_notice news f) = sg_codec f"
  by (auto simp: single_notice_def Let_def split: prod.splits list.splits option.splits)

lemma single_transfer_ok: "single_ok env f \<Longrightarrow> single_ok env (fst (single_transfer env p f r))"
  using single_request_ok [of env f]
  by (auto simp: single_transfer_def single_receive_def single_ok_def split: single_phase.splits option.splits sum.splits)

lemma single_step_ok: "single_ok env (fst s) \<Longrightarrow> single_ok env (fst (single_poll_step env p s))"
proof -
  assume ok: "single_ok env (fst s)"
  obtain news r where t: "sp_tasks p (snd s) = (news, r)" by (cases "sp_tasks p (snd s)")
  have "single_ok env (single_notice news (fst s))" using ok by (simp add: single_ok_def)
  from single_transfer_ok [OF this, of p r] this show ?thesis
    using t by (cases s; cases "single_transfer env p (single_notice news (fst s)) r")
      (auto simp: single_poll_step_def single_end_def Let_def single_ok_def split: single_phase.splits)
qed

interpretation single: step_machine "\<lambda>s p. single_poll_step env p s" "\<lambda>s. single_ok env (fst s)" "\<lambda>_. True" for env
  by unfold_locales (simp add: single_step_ok)

text \<open>A single-block fetch that succeeds, whatever the schedule and the peers, returns bytes that hash to the requested identifier.\<close>

lemma single_fetch_authentic:
  assumes "sg_phase (fst (foldl (\<lambda>s p. single_poll_step env p s) (fetch_block env nid now has_session room cid opts r) ps)) = SgDone (Inr data)"
  shows "verify_cid (sg_sha256 env) (sg_varint env) (sg_cid (fst (foldl (\<lambda>s p. single_poll_step env p s)
      (fetch_block env nid now has_session room cid opts r) ps))) data (sg_codec (fst (foldl (\<lambda>s p. single_poll_step env p s)
      (fetch_block env nid now has_session room cid opts r) ps)))"
proof -
  have "single_ok env (fst (foldl (\<lambda>s p. single_poll_step env p s) (fetch_block env nid now has_session room cid opts r) ps))"
    by (rule single.run_inv) (simp_all add: fetch_block_ok)
  with assms show ?thesis by (simp add: single_ok_def)
qed

section \<open>Properties\<close>

text \<open>
  Property C10. A response is submitted in order and with bounded effort: whatever the transport answers,
  the frames it accepted are a prefix of the frames of the block, in index order and without
  repetition; all of them exactly if the responder reports success; and at most 25 calls more than
  there are frames are made.
\<close>

theorem response_in_order:
  assumes "send_block tx cid data chunk_size n responder_new = (res, r)"
  shows "\<exists>m \<le> max n 1. rp_submitted r = map (\<lambda>i. build_have_payload cid data i n chunk_size) [0..<m]
    \<and> (res = Inr () \<longleftrightarrow> m = max n 1) \<and> rp_calls r \<le> max n 1 + 25"
  using send_block_effect [OF assms] by (auto simp: response_frames_def take_map responder_new_def)

theorem response_in_order_witness:
  "\<exists>m \<le> max 2 1. rp_submitted (snd (send_block (\<lambda>k _. if k = 1 then Inl (RouteNotFound (NodeId ''p'')) else Inr ()) ''bafk2'' [1, 2, 3] 2 2 responder_new))
     = map (\<lambda>i. build_have_payload ''bafk2'' [1, 2, 3] i 2 2) [0..<m]
   \<and> (fst (send_block (\<lambda>k _. if k = 1 then Inl (RouteNotFound (NodeId ''p'')) else Inr ()) ''bafk2'' [1, 2, 3] 2 2 responder_new) = Inr () \<longleftrightarrow> m = max 2 1)
   \<and> rp_calls (snd (send_block (\<lambda>k _. if k = 1 then Inl (RouteNotFound (NodeId ''p'')) else Inr ()) ''bafk2'' [1, 2, 3] 2 2 responder_new)) \<le> max 2 1 + 25"
  by (rule response_in_order) simp

end
