(* ===== verification/Nostr_Exchange.thy ===== *)
theory Nostr_Exchange
  imports Core_Types "HOL-Library.Product_Lexorder"
begin

text \<open>
  The delivery budget of discovery requests (\<open>signaling/nostr/exchange.rs\<close>): which peers a request
  may be published to, when it may be retried, and how the session's retries are shared out. Times are
  milliseconds; \<open>Instant::now()\<close> in \<open>release\<close> is an argument. The log lines are not represented.
\<close>

section \<open>State\<close>

definition MAX_RETRIES :: nat where "MAX_RETRIES = 3"
definition MAX_SESSION_RETRIES :: nat where "MAX_SESSION_RETRIES = 12"

record exchange =
  next_at :: instant
  ex_retries :: nat
  progressed :: bool
  queued :: bool
  evidence :: "bool \<times> nat"
  first_advertisement :: "nat option"
  cap_logged :: bool

record discovery_exchanges =
  peers :: "(string, exchange) btmap"
  retries :: nat
  sent_retries :: nat

definition exchanges_default :: discovery_exchanges where
  "exchanges_default = \<lparr>peers = [], retries = 0, sent_retries = 0\<rparr>"

definition retry_delay :: "nat \<Rightarrow> duration" where
  "retry_delay n = 1500 * 2 ^ min n 2"

section \<open>Operations\<close>

definition new_exchange :: "instant \<Rightarrow> bool \<Rightarrow> exchange" where
  "new_exchange t done = \<lparr>next_at = t, ex_retries = 0, progressed = done, queued = False,
     evidence = (False, 0), first_advertisement = None, cap_logged = False\<rparr>"

definition exchange_request :: "string \<Rightarrow> instant \<Rightarrow> discovery_exchanges \<Rightarrow> bool \<times> discovery_exchanges" where
  "exchange_request pubkey now d =
     (case bt_get (peers d) pubkey of
        Some peer \<Rightarrow>
          if queued peer \<or> progressed peer \<or> now < next_at peer then (False, d)
          else if ex_retries peer \<ge> MAX_RETRIES \<or> retries d \<ge> MAX_SESSION_RETRIES then
            (False, d\<lparr>peers := hm_update pubkey (\<lambda>p. p\<lparr>cap_logged := True\<rparr>) (peers d)\<rparr>)
          else
            (True, d\<lparr>peers := hm_update pubkey
                 (\<lambda>p. p\<lparr>ex_retries := ex_retries p + 1, next_at := now + retry_delay (ex_retries p + 1)\<rparr>) (peers d),
               retries := retries d + 1\<rparr>)
      | None \<Rightarrow> (True, d\<lparr>peers := bt_insert pubkey (new_exchange (now + retry_delay 0) False) (peers d)\<rparr>))"

text \<open>The sort key of \<open>poll_with_evidence\<close>: freshest evidence first, fewer retries among equals.\<close>

definition poll_rank :: "(string \<Rightarrow> bool \<times> nat) \<Rightarrow> discovery_exchanges \<Rightarrow> string \<Rightarrow> (nat \<times> bool) reverse \<times> nat" where
  "poll_rank hints d key =
     (case bt_get (peers d) key of
        None \<Rightarrow> (Reverse (0, False), 0)
      | Some peer \<Rightarrow>
          let hint = hints key; latest = max (snd (evidence peer)) (snd hint)
          in (Reverse (latest, fst (evidence peer) \<or> fst hint), ex_retries peer))"

text \<open>The loop over the sorted keys; every key is in the map, so the lookup does not fail.\<close>

fun poll_loop :: "instant \<Rightarrow> nat \<Rightarrow> string list \<Rightarrow> discovery_exchanges \<Rightarrow> string list \<times> discovery_exchanges" where
  "poll_loop now protected [] d = ([], d)"
| "poll_loop now protected (key # keys) d =
     (case bt_get (peers d) key of
        None \<Rightarrow> ([], d)
      | Some peer \<Rightarrow>
          if progressed peer \<or> ex_retries peer \<ge> MAX_RETRIES then poll_loop now protected keys d
          else if MAX_SESSION_RETRIES - retries d \<le> protected then
            ([], if retries d = MAX_SESSION_RETRIES then snd (exchange_request key now d) else d)
          else
            case exchange_request key now d of
              (True, d') \<Rightarrow> (let (due, d'') = poll_loop now protected keys d' in (key # due, d''))
            | (False, d') \<Rightarrow> poll_loop now (protected + 1) keys d')"

definition poll_with_evidence ::
  "instant \<Rightarrow> (string \<Rightarrow> bool \<times> nat) \<Rightarrow> discovery_exchanges \<Rightarrow> string list \<times> discovery_exchanges" where
  "poll_with_evidence now hints d =
     poll_loop now 0 (sort_key (poll_rank hints d) (map fst (peers d))) d"

definition exchange_poll :: "instant \<Rightarrow> discovery_exchanges \<Rightarrow> string list \<times> discovery_exchanges" where
  "exchange_poll now d = poll_with_evidence now (\<lambda>_. (False, 0)) d"

definition observe_evidence :: "string \<Rightarrow> bool \<times> nat \<Rightarrow> discovery_exchanges \<Rightarrow> discovery_exchanges" where
  "observe_evidence pubkey ev d = d\<lparr>peers := hm_update pubkey (\<lambda>p.
     p\<lparr>evidence := (fst (evidence p) \<or> fst ev, max (snd (evidence p)) (snd ev)),
       first_advertisement :=
         (if snd ev > 0 \<and> first_advertisement p = None then Some (snd ev) else first_advertisement p)\<rparr>) (peers d)\<rparr>"

definition observe_advertisement :: "string \<Rightarrow> nat \<Rightarrow> nat option \<Rightarrow> discovery_exchanges \<Rightarrow> discovery_exchanges" where
  "observe_advertisement pubkey created_at joined_at d = d\<lparr>peers := hm_update pubkey (\<lambda>p.
     let first = min (case first_advertisement p of None \<Rightarrow> created_at | Some f \<Rightarrow> f) created_at;
         latest = max (snd (evidence p)) created_at
     in p\<lparr>first_advertisement := Some first,
          evidence := (fst (evidence p) \<or> latest - first \<ge> 30
            \<or> (case joined_at of None \<Rightarrow> False
                 | Some joined \<Rightarrow> joined > 0 \<and> created_at - joined div 1000 \<ge> 30), latest)\<rparr>) (peers d)\<rparr>"

definition mark_queued :: "string \<Rightarrow> discovery_exchanges \<Rightarrow> discovery_exchanges" where
  "mark_queued pubkey d = d\<lparr>peers := hm_update pubkey (\<lambda>p. p\<lparr>queued := True\<rparr>) (peers d)\<rparr>"

definition is_queued :: "string \<Rightarrow> discovery_exchanges \<Rightarrow> bool" where
  "is_queued pubkey d \<longleftrightarrow> (case bt_get (peers d) pubkey of None \<Rightarrow> False | Some p \<Rightarrow> queued p \<and> \<not> progressed p)"

definition log_sent :: "string \<Rightarrow> discovery_exchanges \<Rightarrow> discovery_exchanges" where
  "log_sent pubkey d =
     (case bt_get (peers d) pubkey of
        None \<Rightarrow> d
      | Some p \<Rightarrow> if ex_retries p > 0 then d\<lparr>sent_retries := sent_retries d + 1\<rparr> else d)"

definition exchange_activity :: "string \<Rightarrow> nat \<Rightarrow> discovery_exchanges \<Rightarrow> discovery_exchanges" where
  "exchange_activity pubkey created_at d = d\<lparr>peers := hm_update pubkey (\<lambda>p.
     let latest = max (snd (evidence p)) created_at
     in p\<lparr>evidence := ((case first_advertisement p of None \<Rightarrow> fst (evidence p)
                         | Some first \<Rightarrow> fst (evidence p) \<or> latest - first \<ge> 30), latest)\<rparr>) (peers d)\<rparr>"

definition exchange_sent :: "string \<Rightarrow> instant \<Rightarrow> discovery_exchanges \<Rightarrow> discovery_exchanges" where
  "exchange_sent pubkey now d = d\<lparr>peers := hm_update pubkey
     (\<lambda>p. p\<lparr>queued := False, next_at := now + retry_delay (ex_retries p)\<rparr>) (peers d)\<rparr>"

definition release :: "string \<Rightarrow> instant \<Rightarrow> discovery_exchanges \<Rightarrow> discovery_exchanges" where
  "release pubkey now d =
     (case bt_get (peers d) pubkey of
        None \<Rightarrow> d
      | Some peer \<Rightarrow>
          if ex_retries peer = 0 \<and> \<not> progressed peer then d\<lparr>peers := bt_remove pubkey (peers d)\<rparr>
          else
            d\<lparr>peers := hm_update pubkey (\<lambda>p. p\<lparr>queued := False, ex_retries := ex_retries p - 1, next_at := now\<rparr>) (peers d),
              retries := (if ex_retries peer > 0 then retries d - 1 else retries d)\<rparr>)"

definition exchange_progress :: "string \<Rightarrow> instant \<Rightarrow> discovery_exchanges \<Rightarrow> discovery_exchanges" where
  "exchange_progress pubkey now d =
     (let ps = (if bt_get (peers d) pubkey = None then bt_insert pubkey (new_exchange now True) (peers d) else peers d)
      in d\<lparr>peers := hm_update pubkey (\<lambda>p. p\<lparr>progressed := True\<rparr>) ps\<rparr>)"

definition pending :: "string \<Rightarrow> discovery_exchanges \<Rightarrow> bool" where
  "pending pubkey d \<longleftrightarrow> (case bt_get (peers d) pubkey of None \<Rightarrow> False | Some p \<Rightarrow> \<not> progressed p)"

section \<open>The budget invariant\<close>

definition exchanges_ok :: "discovery_exchanges \<Rightarrow> bool" where
  "exchanges_ok d \<longleftrightarrow> bt_ok (peers d) \<and> retries d = hm_sum ex_retries (peers d) \<and> retries d \<le> MAX_SESSION_RETRIES
     \<and> (\<forall>k p. bt_get (peers d) k = Some p \<longrightarrow> ex_retries p \<le> MAX_RETRIES)"

text \<open>What an operation does to the entry of one peer: its reservations so far, counting the first.\<close>

definition spent :: "string \<Rightarrow> discovery_exchanges \<Rightarrow> nat" where
  "spent k d = (case bt_get (peers d) k of None \<Rightarrow> 0 | Some p \<Rightarrow> 1 + ex_retries p)"

definition settled :: "string \<Rightarrow> discovery_exchanges \<Rightarrow> bool" where
  "settled k d \<longleftrightarrow> (case bt_get (peers d) k of None \<Rightarrow> False | Some p \<Rightarrow> progressed p)"

lemma spent_le: "exchanges_ok d \<Longrightarrow> spent k d \<le> 1 + MAX_RETRIES"
  by (auto simp: spent_def exchanges_ok_def split: option.splits)

text \<open>An update of one entry that keeps its retry count keeps the budget.\<close>

lemma sum_update_same: "(\<And>p. ex_retries (f p) = ex_retries p) \<Longrightarrow> hm_sum ex_retries (hm_update k f m) = hm_sum ex_retries m"
  by (auto simp: hm_sum_def hm_update_def comp_def intro!: arg_cong [where f = sum_list])

lemma exchanges_ok_update:
  "exchanges_ok d \<Longrightarrow> (\<And>p. ex_retries (f p) = ex_retries p) \<Longrightarrow> exchanges_ok (d\<lparr>peers := hm_update k f (peers d)\<rparr>)"
  by (auto simp: exchanges_ok_def sum_update_same split: if_splits)

lemma spent_update: "(\<And>p. ex_retries (f p) = ex_retries p) \<Longrightarrow> spent k' (d\<lparr>peers := hm_update k f (peers d)\<rparr>) = spent k' d"
  by (auto simp: spent_def split: option.splits)

lemma settled_update:
  "(\<And>p. progressed (f p) = progressed p) \<Longrightarrow> settled k' (d\<lparr>peers := hm_update k f (peers d)\<rparr>) = settled k' d"
  by (auto simp: settled_def split: option.splits)

lemma exchange_request_ok: "exchanges_ok d \<Longrightarrow> exchanges_ok (snd (exchange_request k now d))"
proof (cases "bt_get (peers d) k")
  case None
  moreover assume "exchanges_ok d"
  ultimately show ?thesis
    by (auto simp: exchange_request_def exchanges_ok_def bt_sum_insert new_exchange_def)
next
  case (Some p)
  assume ok: "exchanges_ok d"
  have "hm_sum ex_retries (hm_update k f (peers d)) = hm_sum ex_retries (peers d) + 1"
    if "ex_retries (f p) = ex_retries p + 1" for f
    using bt_sum_update [of "peers d" k p ex_retries f] ok Some that by (auto simp: exchanges_ok_def)
  with ok Some show ?thesis
    by (auto simp: exchange_request_def sum_update_same exchanges_ok_def split: if_splits)
qed

lemma exchange_request_spent:
  "exchanges_ok d \<Longrightarrow> spent k' (snd (exchange_request k now d)) = spent k' d + (if fst (exchange_request k now d) \<and> k' = k then 1 else 0)"
  by (auto simp: exchange_request_def spent_def exchanges_ok_def new_exchange_def split: option.splits)

lemma exchange_request_settled:
  "exchanges_ok d \<Longrightarrow> settled k' (snd (exchange_request k now d)) = settled k' d"
  by (auto simp: exchange_request_def settled_def exchanges_ok_def new_exchange_def split: option.splits)

lemma exchange_request_granted: "fst (exchange_request k now d) \<Longrightarrow> \<not> settled k d"
  by (auto simp: exchange_request_def settled_def split: option.splits if_splits)

lemma poll_loop_effect:
  "exchanges_ok d \<Longrightarrow> poll_loop now prot keys d = (due, d') \<Longrightarrow>
     exchanges_ok d' \<and> spent k d' = spent k d + count_list due k \<and> settled k d' = settled k d
     \<and> (\<forall>x \<in> set due. \<not> settled x d) \<and> set due \<subseteq> set keys"
proof (induction now prot keys d arbitrary: due d' rule: poll_loop.induct)
  case (1 now prot d)
  then show ?case by simp
next
  case (2 now prot key keys d)
  note request = exchange_request_ok [OF \<open>exchanges_ok d\<close>, of key now]
    exchange_request_spent [OF \<open>exchanges_ok d\<close>, of _ key now]
    exchange_request_settled [OF \<open>exchanges_ok d\<close>, of _ key now] exchange_request_granted [of key now d]
  obtain g d1 where g: "exchange_request key now d = (g, d1)" by fastforce
  show ?case
  proof (cases "bt_get (peers d) key")
    case None
    with "2.prems" show ?thesis by simp
  next
    case (Some peer)
    consider "progressed peer \<or> ex_retries peer \<ge> MAX_RETRIES"
      | "\<not> (progressed peer \<or> ex_retries peer \<ge> MAX_RETRIES)" "MAX_SESSION_RETRIES - retries d \<le> prot"
      | "\<not> (progressed peer \<or> ex_retries peer \<ge> MAX_RETRIES)" "\<not> MAX_SESSION_RETRIES - retries d \<le> prot"
      by blast
    then show ?thesis
    proof cases
      case 1
      with Some "2.prems" have "poll_loop now prot keys d = (due, d')" by simp
      from "2.IH"(1) [OF Some 1 "2.prems"(1) this] show ?thesis by auto
    next
      case 2
      have "\<not> fst (exchange_request key now d)" if "retries d = MAX_SESSION_RETRIES"
        using that Some by (auto simp: exchange_request_def)
      moreover have "due = [] \<and> d' = (if retries d = MAX_SESSION_RETRIES then snd (exchange_request key now d) else d)"
        using "2.prems"(2) Some 2 by simp
      ultimately show ?thesis using request \<open>exchanges_ok d\<close> by simp
    next
      case 3
      show ?thesis
      proof (cases g)
        case True
        obtain due1 where r: "poll_loop now prot keys d1 = (due1, d')" "due = key # due1"
          using "2.prems"(2) Some 3 g True by (auto split: prod.splits)
        with "2.IH"(2) [OF Some 3 g [symmetric] eqTrueI [OF True]] request(1) g
        have "exchanges_ok d'" "spent k d' = spent k d1 + count_list due1 k" "settled k d' = settled k d1"
          "\<forall>x \<in> set due1. \<not> settled x d1" "set due1 \<subseteq> set keys" by (simp_all add: True)
        with request g True r show ?thesis by auto
      next
        case False
        with "2.prems"(2) Some 3 g have r: "poll_loop now (prot + 1) keys d1 = (due, d')" by simp
        with "2.IH"(3) [OF Some 3 g [symmetric] ] request g False show ?thesis by auto
      qed
    qed
  qed
qed

text \<open>A peer that a poll may still grant a retry to, now or later.\<close>

definition waiting :: "string \<Rightarrow> discovery_exchanges \<Rightarrow> bool" where
  "waiting k d \<longleftrightarrow> (case bt_get (peers d) k of None \<Rightarrow> False | Some p \<Rightarrow> \<not> progressed p \<and> ex_retries p < MAX_RETRIES)"

lemma exchange_request_other: "exchanges_ok d \<Longrightarrow> k \<noteq> key \<Longrightarrow> waiting k (snd (exchange_request key now d)) = waiting k d"
  by (auto simp: exchange_request_def waiting_def exchanges_ok_def split: option.splits)

lemma exchange_request_retries:
  "bt_get (peers d) key = Some p \<Longrightarrow>
     retries (snd (exchange_request key now d)) = retries d + (if fst (exchange_request key now d) then 1 else 0)"
  by (auto simp: exchange_request_def)

text \<open>One round of the loop in the case that neither stops nor skips it.\<close>

lemma poll_loop_round:
  assumes "bt_get (peers d) key = Some peer" "\<not> progressed peer" "ex_retries peer < MAX_RETRIES"
    and "prot < MAX_SESSION_RETRIES - retries d" and "exchange_request key now d = (g, d1)"
  shows "poll_loop now prot (key # keys) d =
    (if g then (key # fst (poll_loop now prot keys d1), snd (poll_loop now prot keys d1)) else poll_loop now (prot + 1) keys d1)"
  using assms by (auto split: prod.splits bool.splits)

lemma poll_loop_stop:
  assumes "bt_get (peers d) key = Some peer" "\<not> progressed peer" "ex_retries peer < MAX_RETRIES"
    and "MAX_SESSION_RETRIES - retries d \<le> prot"
  shows "fst (poll_loop now prot (key # keys) d) = []" and "retries (snd (poll_loop now prot (key # keys) d)) = retries d"
  using assms exchange_request_retries [of d key peer now] by (auto simp: exchange_request_def split: if_splits)

lemma poll_loop_skip:
  "\<not> waiting key d \<Longrightarrow> poll_loop now prot (key # keys) d =
     (if bt_get (peers d) key = None then ([], d) else poll_loop now prot keys d)"
  by (auto simp: waiting_def split: option.splits)

declare poll_loop.simps(2) [simp del]

lemma poll_loop_room:
  "exchanges_ok d \<Longrightarrow> prot \<le> MAX_SESSION_RETRIES - retries d \<Longrightarrow>
     prot \<le> MAX_SESSION_RETRIES - retries (snd (poll_loop now prot keys d))"
proof (induction keys arbitrary: prot d)
  case Nil
  then show ?case by simp
next
  case (Cons key keys)
  obtain g d1 where g: "exchange_request key now d = (g, d1)" by fastforce
  have d1: "exchanges_ok d1" using exchange_request_ok [OF Cons.prems(1), of key now] g by simp
  show ?case
  proof (cases "waiting key d")
    case False
    with Cons show ?thesis by (simp add: poll_loop_skip)
  next
    case True
    then obtain peer where p: "bt_get (peers d) key = Some peer" "\<not> progressed peer" "ex_retries peer < MAX_RETRIES"
      by (auto simp: waiting_def split: option.splits)
    have r1: "retries d1 = retries d + (if g then 1 else 0)" using exchange_request_retries [OF p(1), of now] g by simp
    show ?thesis
    proof (cases "prot < MAX_SESSION_RETRIES - retries d")
      case False
      with poll_loop_stop [OF p, of prot now keys] Cons.prems show ?thesis by simp
    next
      case True
      with Cons.IH [OF d1, of prot] Cons.IH [OF d1, of "prot + 1"] r1
      show ?thesis by (auto simp: poll_loop_round [OF p True g])
    qed
  qed
qed

lemma poll_loop_keys: "exchanges_ok d \<Longrightarrow> set (fst (poll_loop now prot keys d)) \<subseteq> set keys"
  using poll_loop_effect [of d now prot keys "fst (poll_loop now prot keys d)" "snd (poll_loop now prot keys d)"] by simp

lemma poll_loop_reserve:
  "exchanges_ok d \<Longrightarrow> distinct (pre @ k # post) \<Longrightarrow> prot \<le> MAX_SESSION_RETRIES - retries d \<Longrightarrow>
   k \<in> set (fst (poll_loop now prot (pre @ k # post) d)) \<Longrightarrow>
     prot + length (filter (\<lambda>x. waiting x d \<and> x \<notin> set (fst (poll_loop now prot (pre @ k # post) d))) pre)
       \<le> MAX_SESSION_RETRIES - retries (snd (poll_loop now prot (pre @ k # post) d))"
proof (induction pre arbitrary: prot d)
  case Nil
  then show ?case using poll_loop_room [of d prot now "k # post"] by simp
next
  case (Cons key pre)
  let ?keys = "pre @ k # post"
  obtain g d1 where g: "exchange_request key now d = (g, d1)" by fastforce
  have d1: "exchanges_ok d1" "\<And>x. x \<noteq> key \<Longrightarrow> waiting x d1 = waiting x d"
    using exchange_request_ok [OF Cons.prems(1), of key now] exchange_request_other [OF Cons.prems(1), of _ key now] g by simp_all
  have ks: "distinct ?keys" "key \<noteq> k" "key \<notin> set pre" using Cons.prems(2) by auto
  show ?case
  proof (cases "waiting key d")
    case False
    with Cons.IH [OF Cons.prems(1) ks(1) Cons.prems(3)] Cons.prems(4) show ?thesis
      by (auto simp: poll_loop_skip split: if_splits)
  next
    case True
    then obtain peer where p: "bt_get (peers d) key = Some peer" "\<not> progressed peer" "ex_retries peer < MAX_RETRIES"
      by (auto simp: waiting_def split: option.splits)
    have r1: "retries d1 = retries d + (if g then 1 else 0)" using exchange_request_retries [OF p(1), of now] g by simp
    have room: "prot < MAX_SESSION_RETRIES - retries d"
      using poll_loop_stop(1) [OF p, of prot now ?keys] Cons.prems(4) by (cases "prot < MAX_SESSION_RETRIES - retries d") auto
    note round = poll_loop_round [OF p room g, of ?keys]
    define prot' where "prot' = (if g then prot else prot + 1)"
    define res where "res = poll_loop now prot' ?keys d1"
    have eq: "poll_loop now prot ((key # pre) @ k # post) d = ((if g then [key] else []) @ fst res, snd res)"
      by (simp add: round res_def prot'_def)
    have k: "k \<in> set (fst res)" using Cons.prems(4) ks(2) unfolding eq by (auto split: if_splits)
    have key: "key \<notin> set (fst res)" using poll_loop_keys [OF d1(1), of now prot' ?keys] Cons.prems(2) by (auto simp: res_def)
    have "prot' \<le> MAX_SESSION_RETRIES - retries d1" using room r1 by (auto simp: prot'_def)
    from Cons.IH [OF d1(1) ks(1) this] k
    have "prot' + length (filter (\<lambda>x. waiting x d1 \<and> x \<notin> set (fst res)) pre) \<le> MAX_SESSION_RETRIES - retries (snd res)"
      by (simp add: res_def)
    moreover have "filter (\<lambda>x. waiting x d1 \<and> x \<notin> set (fst res)) pre =
        filter (\<lambda>x. waiting x d \<and> x \<notin> set ((if g then [key] else []) @ fst res)) pre"
    proof (rule filter_cong [OF refl])
      fix x assume "x \<in> set pre"
      with ks(3) have x: "x \<noteq> key" by blast
      show "(waiting x d1 \<and> x \<notin> set (fst res)) = (waiting x d \<and> x \<notin> set ((if g then [key] else []) @ fst res))"
        using d1(2) [OF x] x by simp
    qed
    ultimately show ?thesis
      unfolding eq using True key by (auto simp: prot'_def split: if_splits)
  qed
qed

section \<open>Runs\<close>

datatype exchange_event =
    RequestEv string instant | PollEv instant "string \<Rightarrow> bool \<times> nat" | QueuedEv string | SentEv string instant
  | LogSentEv string | ReleaseEv string instant | ProgressEv string instant | EvidenceEv string "bool \<times> nat"
  | AdvertisementEv string nat "nat option" | ActivityEv string nat

text \<open>A step answers with the reservations it grants.\<close>

fun exchange_step :: "exchange_event \<Rightarrow> discovery_exchanges \<Rightarrow> string list \<times> discovery_exchanges" where
  "exchange_step (RequestEv k now) d = (let (g, d) = exchange_request k now d in (if g then [k] else [], d))"
| "exchange_step (PollEv now hints) d = poll_with_evidence now hints d"
| "exchange_step (QueuedEv k) d = ([], mark_queued k d)"
| "exchange_step (SentEv k now) d = ([], exchange_sent k now d)"
| "exchange_step (LogSentEv k) d = ([], log_sent k d)"
| "exchange_step (ReleaseEv k now) d = ([], release k now d)"
| "exchange_step (ProgressEv k now) d = ([], exchange_progress k now d)"
| "exchange_step (EvidenceEv k e) d = ([], observe_evidence k e d)"
| "exchange_step (AdvertisementEv k c j) d = ([], observe_advertisement k c j d)"
| "exchange_step (ActivityEv k c) d = ([], exchange_activity k c d)"

fun exchange_run :: "exchange_event list \<Rightarrow> discovery_exchanges \<Rightarrow> string list \<times> discovery_exchanges" where
  "exchange_run [] d = ([], d)"
| "exchange_run (e # es) d =
     (let (out, d) = exchange_step e d; (outs, d) = exchange_run es d in (out @ outs, d))"

definition releases :: "string \<Rightarrow> exchange_event list \<Rightarrow> nat" where
  "releases k es = length (filter (\<lambda>e. case e of ReleaseEv k' _ \<Rightarrow> k' = k | _ \<Rightarrow> False) es)"

lemmas exchange_updates = mark_queued_def exchange_sent_def observe_evidence_def observe_advertisement_def exchange_activity_def

lemma release_ok: "exchanges_ok d \<Longrightarrow> exchanges_ok (release k now d)"
proof (cases "bt_get (peers d) k")
  case None
  then show "exchanges_ok d \<Longrightarrow> ?thesis" by (simp add: release_def)
next
  case (Some p)
  assume ok: "exchanges_ok d"
  show ?thesis
    using ok Some bt_sum_update [of "peers d" k p ex_retries "\<lambda>p. p\<lparr>queued := False, ex_retries := ex_retries p - 1, next_at := now\<rparr>"]
      bt_sum_remove [of "peers d" k p ex_retries]
    by (auto simp: release_def exchanges_ok_def split: if_splits intro: order.trans [OF diff_le_self])
qed

lemma release_spent: "exchanges_ok d \<Longrightarrow> spent k' d \<le> spent k' (release k now d) + (if k' = k then 1 else 0)"
  by (auto simp: release_def spent_def exchanges_ok_def split: option.splits if_splits)

lemma release_settled: "exchanges_ok d \<Longrightarrow> settled k' (release k now d) = settled k' d"
  by (auto simp: release_def settled_def exchanges_ok_def split: option.splits)

lemma exchange_progress_effect:
  assumes "exchanges_ok d"
  shows "exchanges_ok (exchange_progress k now d)"
    and "spent k' d \<le> spent k' (exchange_progress k now d)"
    and "settled k' (exchange_progress k now d) \<longleftrightarrow> settled k' d \<or> k' = k"
proof -
  let ?d = "if bt_get (peers d) k = None then d\<lparr>peers := bt_insert k (new_exchange now True) (peers d)\<rparr> else d"
  have ok: "exchanges_ok ?d" using assms by (auto simp: exchanges_ok_def bt_sum_insert new_exchange_def)
  have eq: "exchange_progress k now d = ?d\<lparr>peers := hm_update k (\<lambda>p. p\<lparr>progressed := True\<rparr>) (peers ?d)\<rparr>"
    by (simp add: exchange_progress_def)
  show "exchanges_ok (exchange_progress k now d)" unfolding eq by (rule exchanges_ok_update [OF ok]) simp
  show "spent k' d \<le> spent k' (exchange_progress k now d)"
    using assms by (auto simp: eq spent_def exchanges_ok_def split: option.splits)
  show "settled k' (exchange_progress k now d) \<longleftrightarrow> settled k' d \<or> k' = k"
    using assms by (auto simp: eq settled_def exchanges_ok_def split: option.splits)
qed

lemma exchange_step_effect:
  assumes "exchanges_ok d"
  shows "exchanges_ok (snd (exchange_step e d))"
    and "spent k d + count_list (fst (exchange_step e d)) k \<le> spent k (snd (exchange_step e d)) + releases k [e]"
    and "settled k d \<Longrightarrow> settled k (snd (exchange_step e d)) \<and> k \<notin> set (fst (exchange_step e d))"
proof -
  have poll: "exchanges_ok (snd (poll_with_evidence now hints d))
      \<and> spent k (snd (poll_with_evidence now hints d)) = spent k d + count_list (fst (poll_with_evidence now hints d)) k
      \<and> settled k (snd (poll_with_evidence now hints d)) = settled k d
      \<and> (\<forall>x \<in> set (fst (poll_with_evidence now hints d)). \<not> settled x d)" for now hints
    unfolding poll_with_evidence_def using poll_loop_effect [OF assms] by (metis prod.collapse)
  have upd: "exchanges_ok (d\<lparr>peers := hm_update k' f (peers d)\<rparr>) \<and> spent k (d\<lparr>peers := hm_update k' f (peers d)\<rparr>) = spent k d
      \<and> settled k (d\<lparr>peers := hm_update k' f (peers d)\<rparr>) = settled k d"
    if "\<And>p. ex_retries (f p) = ex_retries p" "\<And>p. progressed (f p) = progressed p" for k' f
    using that assms by (simp add: exchanges_ok_update spent_update settled_update)
  have log: "exchanges_ok (log_sent k' d) \<and> spent k (log_sent k' d) = spent k d \<and> settled k (log_sent k' d) = settled k d" for k'
    using assms by (auto simp: log_sent_def exchanges_ok_def spent_def settled_def split: option.splits)
  have rel: "spent k d \<le> Suc (spent k (release k t d))" "k' \<noteq> k \<Longrightarrow> spent k d \<le> spent k (release k' t d)" for k' t
    using release_spent [OF assms, of k k t] release_spent [OF assms, of k k' t] by auto
  note effects = exchange_request_ok exchange_request_spent exchange_request_settled exchange_request_granted
    release_ok release_spent release_settled exchange_progress_effect
  show "exchanges_ok (snd (exchange_step e d))"
    using assms poll log upd by (cases e) (auto simp: effects case_prod_beta exchange_updates Let_def)
  show "spent k d + count_list (fst (exchange_step e d)) k \<le> spent k (snd (exchange_step e d)) + releases k [e]"
    using assms poll log upd rel exchange_progress_effect(2) [OF assms]
    by (cases e) (auto simp: exchange_request_spent case_prod_beta exchange_updates Let_def releases_def)
  show "settled k d \<Longrightarrow> settled k (snd (exchange_step e d)) \<and> k \<notin> set (fst (exchange_step e d))"
    using assms poll log upd by (cases e) (auto simp: effects case_prod_beta exchange_updates Let_def)
qed

lemma exchange_run_effect:
  "exchanges_ok d \<Longrightarrow> exchanges_ok (snd (exchange_run es d))
     \<and> spent k d + count_list (fst (exchange_run es d)) k \<le> spent k (snd (exchange_run es d)) + releases k es
     \<and> (settled k d \<longrightarrow> k \<notin> set (fst (exchange_run es d)))"
proof (induction es arbitrary: d)
  case Nil
  then show ?case by simp
next
  case (Cons e es)
  from Cons.IH [OF exchange_step_effect(1) [OF Cons.prems, of e]] exchange_step_effect(2,3) [OF Cons.prems, of k e]
  show ?case by (auto simp: case_prod_beta releases_def)
qed

lemma exchanges_default_ok: "exchanges_ok exchanges_default"
  by (simp add: exchanges_ok_def exchanges_default_def bt_get_def)

section \<open>Properties\<close>

text \<open>
  Property C40. The discovery budget holds over every run: the session counter is the sum of the
  peers' retries and at most 12, a peer has at most 3, and at most four reservations (the first and
  three retries) are granted to one public key, plus one for each that was handed back unsent; once a
  peer has progressed no further reservation is granted to it.
\<close>

theorem discovery_budget:
  assumes "exchange_run es exchanges_default = (granted, d)"
  shows "retries d = hm_sum ex_retries (peers d) \<and> retries d \<le> 12
    \<and> (\<forall>p. bt_get (peers d) k = Some p \<longrightarrow> ex_retries p \<le> 3)
    \<and> count_list granted k \<le> 4 + releases k es
    \<and> k \<notin> set (fst (exchange_run later (exchange_progress k now d)))"
proof -
  from exchange_run_effect [OF exchanges_default_ok, of es k] assms
  have ok: "exchanges_ok d" and spent: "spent k exchanges_default + count_list granted k \<le> spent k d + releases k es" by simp_all
  have "k \<notin> set (fst (exchange_run later (exchange_progress k now d)))"
    using exchange_run_effect [of "exchange_progress k now d" later k] exchange_progress_effect [OF ok] by blast
  then show ?thesis
    using ok spent spent_le [OF ok, of k] by (auto simp: exchanges_ok_def MAX_RETRIES_def MAX_SESSION_RETRIES_def)
qed

theorem discovery_budget_witness:
  "count_list (fst (exchange_run [RequestEv ''a'' 0, RequestEv ''a'' 2000, RequestEv ''a'' 9000, RequestEv ''b'' 9000,
      RequestEv ''a'' 90000, RequestEv ''a'' 990000, PollEv 999000 (\<lambda>_. (False, 0))] exchanges_default)) ''a'' \<le> 4"
  using discovery_budget [OF prod.collapse [symmetric],
      of "[RequestEv ''a'' 0, RequestEv ''a'' 2000, RequestEv ''a'' 9000, RequestEv ''b'' 9000,
           RequestEv ''a'' 90000, RequestEv ''a'' 990000, PollEv 999000 (\<lambda>_. (False, 0))]" "''a''"]
  by (simp add: releases_def del: exchange_run.simps)

text \<open>
  A poll never spends the retries that higher-ranked peers may still need: if it grants a
  retry to a peer, then for every peer ranked above it that is still pending and was not granted one
  in this poll, a retry of the session budget is left over.
\<close>

lemma poll_keeps_reserve:
  assumes "exchanges_ok d" and "sort_key (poll_rank hints d) (map fst (peers d)) = higher @ k # lower"
    and "poll_with_evidence now hints d = (due, d')" and "k \<in> set due"
  shows "length (filter (\<lambda>x. waiting x d \<and> x \<notin> set due) higher) \<le> MAX_SESSION_RETRIES - retries d'"
proof -
  have "distinct (higher @ k # lower)"
    using assms(1,2) bt_ok_distinct [of "peers d"] unfolding exchanges_ok_def by (metis distinct_sort)
  from poll_loop_reserve [OF assms(1) this, of 0 now] assms(2,3,4) show ?thesis
    by (simp add: poll_with_evidence_def)
qed

definition demo_exchanges :: discovery_exchanges where
  "demo_exchanges = \<lparr>peers = [(''a'', (new_exchange 0 False)\<lparr>queued := True, evidence := (False, 50)\<rparr>), (''b'', new_exchange 0 False)],
     retries = 0, sent_retries = 0\<rparr>"

theorem poll_keeps_reserve_witness:
  "fst (poll_with_evidence 5 (\<lambda>_. (False, 0)) demo_exchanges) = [''b'']
   \<and> length (filter (\<lambda>x. waiting x demo_exchanges \<and> x \<notin> {''b''}) [''a''])
       \<le> MAX_SESSION_RETRIES - retries (snd (poll_with_evidence 5 (\<lambda>_. (False, 0)) demo_exchanges))"
proof -
  let ?hints = "\<lambda>_. (False, 0)" and ?d = demo_exchanges
  have ok: "exchanges_ok ?d"
    by (simp add: exchanges_ok_def demo_exchanges_def new_exchange_def bt_ok_def hm_sum_def bt_get_def)
  have order: "sort_key (poll_rank ?hints ?d) (map fst (peers ?d)) = [] @ [''a''] @ [''b'']"
    by (simp add: demo_exchanges_def poll_rank_def bt_get_def new_exchange_def Let_def less_eq_reverse_def)
  have poll: "fst (poll_with_evidence 5 ?hints ?d) = [''b'']"
    unfolding poll_with_evidence_def order
    by (simp add: demo_exchanges_def poll_loop.simps exchange_request_def new_exchange_def bt_get_def hm_update_def
        MAX_RETRIES_def MAX_SESSION_RETRIES_def)
  show ?thesis
    using poll_keeps_reserve [OF ok, of ?hints "[''a'']" "''b''" "[]" 5 "[''b'']" "snd (poll_with_evidence 5 ?hints ?d)"] order poll
    by (simp add: prod_eq_iff)
qed

end
