(* ===== verification/Nostr_Outbox.thy ===== *)
theory Nostr_Outbox
  imports Core_Types
begin

text \<open>
  The bounded queue of discovery requests waiting to be published (\<open>signaling/nostr/outbox.rs\<close>):
  priorities, eviction when full, and the pacing between two publications. Times are milliseconds.
\<close>

section \<open>State and operations\<close>

definition CAPACITY :: nat where "CAPACITY = 32"
definition DISCOVERY_INTERVAL :: duration where "DISCOVERY_INTERVAL = 100"

datatype discovery_priority = Reply | Probe | Ordinary

instantiation discovery_priority :: linorder
begin

fun prio_rank :: "discovery_priority \<Rightarrow> nat" where
  "prio_rank Reply = 0"
| "prio_rank Probe = 1"
| "prio_rank Ordinary = 2"

definition less_eq_discovery_priority :: "discovery_priority \<Rightarrow> discovery_priority \<Rightarrow> bool" where
  "less_eq_discovery_priority a b \<longleftrightarrow> prio_rank a \<le> prio_rank b"

definition less_discovery_priority :: "discovery_priority \<Rightarrow> discovery_priority \<Rightarrow> bool" where
  "less_discovery_priority a b \<longleftrightarrow> prio_rank a < prio_rank b"

instance
proof
  fix a b :: discovery_priority
  show "a \<le> b \<Longrightarrow> b \<le> a \<Longrightarrow> a = b"
    by (cases a; cases b) (simp_all add: less_eq_discovery_priority_def)
qed (auto simp: less_eq_discovery_priority_def less_discovery_priority_def)

end

record discovery_request =
  req_pubkey :: string
  req_priority :: discovery_priority
  req_delay :: duration
  queued_at :: instant

record discovery_outbox =
  queue :: "discovery_request list"
  last_send :: "instant option"
  worker_epoch :: "nat option"

definition outbox_default :: discovery_outbox where
  "outbox_default = \<lparr>queue = [], last_send = None, worker_epoch = None\<rparr>"

text \<open>The first item with the given key, as \<open>iter_mut().find\<close> updates it.\<close>

fun promote_first :: "string \<Rightarrow> discovery_request list \<Rightarrow> discovery_request list" where
  "promote_first k [] = []"
| "promote_first k (x # xs) =
     (if req_pubkey x = k then x\<lparr>req_priority := Reply, req_delay := 0\<rparr> # xs else x # promote_first k xs)"

definition promote_reply :: "string \<Rightarrow> discovery_outbox \<Rightarrow> bool \<times> discovery_outbox" where
  "promote_reply k ob = (k \<in> req_pubkey ` set (queue ob), ob\<lparr>queue := promote_first k (queue ob)\<rparr>)"

fun index_of :: "('a \<Rightarrow> bool) \<Rightarrow> 'a list \<Rightarrow> nat option" where
  "index_of P [] = None"
| "index_of P (x # xs) = (if P x then Some 0 else map_option Suc (index_of P xs))"

definition remove_at :: "nat \<Rightarrow> 'a list \<Rightarrow> 'a list" where
  "remove_at i xs = take i xs @ drop (Suc i) xs"

definition outbox_push ::
  "string \<Rightarrow> discovery_priority \<Rightarrow> duration \<Rightarrow> instant \<Rightarrow> discovery_outbox \<Rightarrow> string option \<times> discovery_outbox" where
  "outbox_push pubkey prio dly now ob =
     (let item = \<lparr>req_pubkey = pubkey, req_priority = prio, req_delay = dly, queued_at = now\<rparr> in
      if length (queue ob) = CAPACITY then
        let lowest = Max (set (map req_priority (queue ob))) in
        if prio > lowest then (Some pubkey, ob)
        else case index_of (\<lambda>x. req_priority x = lowest) (queue ob) of
               None \<Rightarrow> (None, ob\<lparr>queue := queue ob @ [item]\<rparr>)
             | Some i \<Rightarrow> (Some (req_pubkey (queue ob ! i)), ob\<lparr>queue := remove_at i (queue ob) @ [item]\<rparr>)
      else (None, ob\<lparr>queue := queue ob @ [item]\<rparr>))"

definition next_index :: "discovery_outbox \<Rightarrow> nat option" where
  "next_index ob = map_option fst (min_by_key (req_priority \<circ> snd) (enumerate 0 (queue ob)))"

definition outbox_delay :: "instant \<Rightarrow> discovery_outbox \<Rightarrow> duration option" where
  "outbox_delay now ob =
     (case next_index ob of
        None \<Rightarrow> None
      | Some i \<Rightarrow>
          let item = queue ob ! i;
              deadline =
                (if req_priority item = Ordinary then
                   (case last_send ob of None \<Rightarrow> queued_at item | Some t \<Rightarrow> t) + max (req_delay item) DISCOVERY_INTERVAL
                 else (case last_send ob of None \<Rightarrow> now | Some t \<Rightarrow> t + DISCOVERY_INTERVAL))
          in Some (deadline - now))"

definition outbox_pop :: "instant \<Rightarrow> discovery_outbox \<Rightarrow> discovery_request option \<times> discovery_outbox" where
  "outbox_pop now ob =
     (case outbox_delay now ob of
        None \<Rightarrow> (None, ob)
      | Some dly \<Rightarrow>
          if dly \<noteq> 0 then (None, ob)
          else case next_index ob of
                 None \<Rightarrow> (None, ob)
               | Some i \<Rightarrow> (Some (queue ob ! i), ob\<lparr>last_send := Some now, queue := remove_at i (queue ob)\<rparr>))"

definition outbox_sent :: "instant \<Rightarrow> discovery_outbox \<Rightarrow> discovery_outbox" where
  "outbox_sent now ob = ob\<lparr>last_send := Some now\<rparr>"

definition stop_probes :: "discovery_outbox \<Rightarrow> string list \<times> discovery_outbox" where
  "stop_probes ob =
     (map req_pubkey (filter (\<lambda>x. req_priority x = Probe) (queue ob)),
      ob\<lparr>queue := filter (\<lambda>x. req_priority x \<noteq> Probe) (queue ob)\<rparr>)"

section \<open>Positions\<close>

lemma index_of_None: "index_of P xs = None \<longleftrightarrow> (\<forall>x \<in> set xs. \<not> P x)"
  by (induction xs) auto

lemma index_of_Some: "index_of P xs = Some i \<Longrightarrow> i < length xs \<and> P (xs ! i)"
  by (induction xs arbitrary: i) (auto split: if_splits)

lemma mset_remove_at: "i < length xs \<Longrightarrow> mset xs = add_mset (xs ! i) (mset (remove_at i xs))"
  by (metis add_mset_add_single id_take_nth_drop mset.simps(2) mset_append remove_at_def union_mset_add_mset_right)

lemma length_remove_at [simp]: "i < length xs \<Longrightarrow> length (remove_at i xs) = length xs - 1"
  by (simp add: remove_at_def)

lemma next_index_Some:
  assumes "next_index ob = Some i"
  shows "i < length (queue ob)" and "x \<in> set (queue ob) \<Longrightarrow> req_priority (queue ob ! i) \<le> req_priority x"
proof -
  from assms obtain item where m: "min_by_key (req_priority \<circ> snd) (enumerate 0 (queue ob)) = Some (i, item)"
    by (auto simp: next_index_def)
  from min_by_key_in [OF m] have i: "i < length (queue ob)" "item = queue ob ! i"
    by (auto simp: in_set_enumerate_eq)
  show "i < length (queue ob)" by (rule i)
  assume "x \<in> set (queue ob)"
  then obtain j where "j < length (queue ob)" "x = queue ob ! j" by (auto simp: in_set_conv_nth)
  then have "(j, x) \<in> set (enumerate 0 (queue ob))" by (simp add: in_set_enumerate_eq)
  from min_by_key_le [OF m this] show "req_priority (queue ob ! i) \<le> req_priority x" by (simp add: i(2))
qed

lemma next_index_None: "next_index ob = None \<longleftrightarrow> queue ob = []"
  by (simp add: next_index_def) (metis length_0_conv length_enumerate)

section \<open>Effects\<close>

lemma keys_promote [simp]: "map req_pubkey (promote_first k xs) = map req_pubkey xs"
  by (induction xs) auto

lemma promote_length [simp]: "length (promote_first k xs) = length xs"
  by (metis keys_promote length_map)

text \<open>The public keys that are waiting, with repetitions.\<close>

definition waiting_keys :: "discovery_outbox \<Rightarrow> string multiset" where
  "waiting_keys ob = mset (map req_pubkey (queue ob))"

lemma outbox_push_effect:
  assumes "length (queue ob) \<le> CAPACITY" and "outbox_push k prio dly now ob = (out, ob')"
  shows "length (queue ob') \<le> CAPACITY" and "add_mset k (waiting_keys ob) = waiting_keys ob' + mset_set (set_option out)"
    and "last_send ob' = last_send ob"
proof -
  let ?lowest = "Max (set (map req_priority (queue ob)))"
  have full: "index_of (\<lambda>x. req_priority x = ?lowest) (queue ob) \<noteq> None" if "length (queue ob) = CAPACITY"
  proof -
    have "set (map req_priority (queue ob)) \<noteq> {}" using that by (auto simp: CAPACITY_def)
    then have "?lowest \<in> set (map req_priority (queue ob))" by (intro Max_in) auto
    then show ?thesis unfolding index_of_None by auto
  qed
  have rem: "image_mset req_pubkey (mset (queue ob)) =
      add_mset (req_pubkey (queue ob ! i)) (image_mset req_pubkey (mset (remove_at i (queue ob))))" if "i < length (queue ob)" for i
    using arg_cong [OF mset_remove_at [OF that], of "image_mset req_pubkey"] by simp
  show "length (queue ob') \<le> CAPACITY" "last_send ob' = last_send ob"
    using assms full by (auto simp: outbox_push_def Let_def dest!: index_of_Some split: if_splits option.splits)
  show "add_mset k (waiting_keys ob) = waiting_keys ob' + mset_set (set_option out)"
    using assms(2) full
    by (auto simp: outbox_push_def Let_def waiting_keys_def intro!: rem dest!: index_of_Some
        split: if_splits option.splits)
qed

lemma outbox_pop_effect:
  assumes "outbox_pop now ob = (Some item, ob')"
  shows "waiting_keys ob = add_mset (req_pubkey item) (waiting_keys ob')" and "length (queue ob') < length (queue ob)"
    and "last_send ob' = Some now" and "\<And>x. x \<in> set (queue ob) \<Longrightarrow> req_priority item \<le> req_priority x"
    and "case last_send ob of None \<Rightarrow> True | Some t \<Rightarrow> t + DISCOVERY_INTERVAL \<le> now"
proof -
  from assms obtain i where i: "next_index ob = Some i" and item: "item = queue ob ! i"
    and ob': "ob' = ob\<lparr>last_send := Some now, queue := remove_at i (queue ob)\<rparr>" and dly: "outbox_delay now ob = Some 0"
    by (auto simp: outbox_pop_def split: option.splits if_splits)
  note idx = next_index_Some [OF i]
  show "waiting_keys ob = add_mset (req_pubkey item) (waiting_keys ob')"
    using arg_cong [OF mset_remove_at [OF idx(1)], of "image_mset req_pubkey"] by (simp add: waiting_keys_def ob' item)
  show "length (queue ob') < length (queue ob)" "last_send ob' = Some now" using idx(1) by (auto simp: ob')
  show "\<And>x. x \<in> set (queue ob) \<Longrightarrow> req_priority item \<le> req_priority x" using idx(2) item by blast
  show "case last_send ob of None \<Rightarrow> True | Some t \<Rightarrow> t + DISCOVERY_INTERVAL \<le> now"
    using dly i by (auto simp: outbox_delay_def Let_def split: option.splits if_splits)
qed

lemma outbox_pop_None: "outbox_pop now ob = (None, ob') \<Longrightarrow> ob' = ob"
  by (auto simp: outbox_pop_def split: option.splits if_splits)

lemma stop_probes_effect: "stop_probes ob = (ks, ob') \<Longrightarrow> waiting_keys ob = waiting_keys ob' + mset ks \<and> last_send ob' = last_send ob
   \<and> length (queue ob') \<le> length (queue ob)"
  using multiset_partition [of "mset (queue ob)" "\<lambda>x. req_priority x = Probe"]
  by (auto simp: stop_probes_def waiting_keys_def mset_filter image_mset_union [symmetric] simp del: image_mset_union)

section \<open>Runs\<close>

datatype outbox_event =
    PushEv string discovery_priority duration instant | PopEv instant | PromoteEv string | SentEv instant | StopProbesEv

text \<open>A step answers with what it publishes (and when), and with the keys it drops.\<close>

fun outbox_step :: "outbox_event \<Rightarrow> discovery_outbox \<Rightarrow> (instant \<times> discovery_request) list \<times> string list \<times> discovery_outbox" where
  "outbox_step (PushEv k p dly now) ob =
     (let (out, ob) = outbox_push k p dly now ob in ([], case out of None \<Rightarrow> [] | Some k' \<Rightarrow> [k'], ob))"
| "outbox_step (PopEv now) ob =
     (let (out, ob) = outbox_pop now ob in (case out of None \<Rightarrow> [] | Some item \<Rightarrow> [(now, item)], [], ob))"
| "outbox_step (PromoteEv k) ob = ([], [], snd (promote_reply k ob))"
| "outbox_step (SentEv now) ob = ([], [], outbox_sent now ob)"
| "outbox_step StopProbesEv ob = (let (ks, ob) = stop_probes ob in ([], ks, ob))"

fun outbox_run :: "outbox_event list \<Rightarrow> discovery_outbox \<Rightarrow> (instant \<times> discovery_request) list \<times> string list \<times> discovery_outbox" where
  "outbox_run [] ob = ([], [], ob)"
| "outbox_run (e # es) ob =
     (let (pub, dropped, ob) = outbox_step e ob; (pubs, dropped', ob) = outbox_run es ob in (pub @ pubs, dropped @ dropped', ob))"

fun pushed_keys :: "outbox_event list \<Rightarrow> string list" where
  "pushed_keys [] = []"
| "pushed_keys (PushEv k p dly now # es) = k # pushed_keys es"
| "pushed_keys (_ # es) = pushed_keys es"

fun event_time :: "outbox_event \<Rightarrow> instant option" where
  "event_time (PushEv k p dly now) = Some now"
| "event_time (PopEv now) = Some now"
| "event_time (SentEv now) = Some now"
| "event_time _ = None"

lemma outbox_step_effect:
  assumes "length (queue ob) \<le> CAPACITY" and "outbox_step e ob = (pub, dropped, ob')"
  shows "length (queue ob') \<le> CAPACITY
    \<and> mset (pushed_keys [e]) + waiting_keys ob = waiting_keys ob' + mset (map (req_pubkey \<circ> snd) pub) + mset dropped"
proof (cases e)
  case (PushEv k p dly now)
  obtain out ob1 where r: "outbox_push k p dly now ob = (out, ob1)" by fastforce
  from assms(2) outbox_push_effect [OF assms(1) r] show ?thesis by (auto simp: PushEv r split: option.splits)
next
  case (PopEv now)
  obtain out ob1 where r: "outbox_pop now ob = (out, ob1)" by fastforce
  show ?thesis
    using assms outbox_pop_None [of now ob ob1] outbox_pop_effect(1,2) [of now ob _ ob1] r
    by (cases out) (fastforce simp: PopEv)+
next
  case (PromoteEv k)
  with assms show ?thesis by (auto simp: promote_reply_def waiting_keys_def simp flip: mset_map)
next
  case (SentEv now)
  with assms show ?thesis by (auto simp: outbox_sent_def waiting_keys_def)
next
  case StopProbesEv
  obtain ks ob1 where r: "stop_probes ob = (ks, ob1)" by fastforce
  with assms stop_probes_effect [OF r] show ?thesis by (auto simp: StopProbesEv)
qed

lemma conserve_trans:
  fixes A :: "'a multiset"
  assumes "A + W = W' + P + D" and "B + W' = W'' + P' + D'"
  shows "A + B + W = W'' + (P + P') + (D + D')"
proof (rule multiset_eqI)
  fix x
  show "count (A + B + W) x = count (W'' + (P + P') + (D + D')) x"
    using arg_cong [OF assms(1), of "\<lambda>m. count m x"] arg_cong [OF assms(2), of "\<lambda>m. count m x"] by simp
qed

lemma outbox_run_effect:
  "length (queue ob) \<le> CAPACITY \<Longrightarrow> outbox_run es ob = (pub, dropped, ob') \<Longrightarrow>
     length (queue ob') \<le> CAPACITY
     \<and> mset (pushed_keys es) + waiting_keys ob = waiting_keys ob' + mset (map (req_pubkey \<circ> snd) pub) + mset dropped"
proof (induction es arbitrary: ob pub dropped)
  case Nil
  then show ?case by simp
next
  case (Cons e es)
  obtain pub1 dropped1 ob1 where s: "outbox_step e ob = (pub1, dropped1, ob1)" by (metis prod_cases3)
  obtain pub2 dropped2 where r: "outbox_run es ob1 = (pub2, dropped2, ob')" and out: "pub = pub1 @ pub2" "dropped = dropped1 @ dropped2"
    using Cons.prems(2) s by (auto split: prod.splits)
  have "pushed_keys (e # es) = pushed_keys [e] @ pushed_keys es" by (cases e) auto
  with outbox_step_effect [OF Cons.prems(1) s] Cons.IH [OF _ r] show ?case
    by (auto simp: out comp_def intro: conserve_trans)
qed

text \<open>The times of publications keep the interval, and none comes earlier than the last one allows.\<close>

fun spaced :: "instant option \<Rightarrow> instant list \<Rightarrow> bool" where
  "spaced prev [] = True"
| "spaced prev (t # ts) = ((case prev of None \<Rightarrow> True | Some s \<Rightarrow> s + DISCOVERY_INTERVAL \<le> t) \<and> spaced (Some t) ts)"

lemma spaced_mono: "spaced (Some t) ts \<Longrightarrow> s \<le> t \<Longrightarrow> spaced (Some s) ts"
  by (cases ts) auto

lemma outbox_run_spaced:
  "sorted (List.map_filter event_time es) \<Longrightarrow> (\<And>l t. last_send ob = Some l \<Longrightarrow> t \<in> set (List.map_filter event_time es) \<Longrightarrow> l \<le> t) \<Longrightarrow>
     outbox_run es ob = (pub, dropped, ob') \<Longrightarrow> spaced (last_send ob) (map fst pub)"
proof (induction es arbitrary: ob pub dropped)
  case Nil
  then show ?case by simp
next
  case (Cons e es)
  obtain pub1 dropped1 ob1 where s: "outbox_step e ob = (pub1, dropped1, ob1)" by (metis prod_cases3)
  obtain pub2 dropped2 where r: "outbox_run es ob1 = (pub2, dropped2, ob')" and out: "pub = pub1 @ pub2"
    using Cons.prems(3) s by (auto split: prod.splits)
  have sorted: "sorted (List.map_filter event_time es)"
    using Cons.prems(1) by (auto simp: map_filter_simps split: option.splits)
  note IH = Cons.IH [OF sorted _ r]
  have same: "last_send ob1 = last_send ob \<Longrightarrow> pub1 = [] \<Longrightarrow> ?case"
    using IH Cons.prems(2) by (auto simp: out map_filter_simps split: option.splits)
  have later: "t \<in> set (List.map_filter event_time es) \<Longrightarrow> now \<le> t" if "event_time e = Some now" for t now
    using Cons.prems(1) that by (auto simp: map_filter_simps)
  show ?case
  proof (cases e)
    case (PushEv k p dly now)
    obtain out ob2 where "outbox_push k p dly now ob = (out, ob2)" by fastforce
    then have "last_send ob2 = last_send ob" by (auto simp: outbox_push_def Let_def split: if_splits option.splits)
    with s same \<open>outbox_push k p dly now ob = (out, ob2)\<close> show ?thesis by (simp add: PushEv)
  next
    case (PopEv now)
    obtain out ob2 where p: "outbox_pop now ob = (out, ob2)" by fastforce
    show ?thesis
    proof (cases out)
      case None
      with s p outbox_pop_None [of now ob ob2] same show ?thesis by (simp add: PopEv)
    next
      case (Some item)
      note eff = outbox_pop_effect(3,5) [OF p [unfolded Some]]
      have "ob1 = ob2" "pub1 = [(now, item)]" using s p Some by (auto simp: PopEv)
      moreover have "spaced (last_send ob1) (map fst pub2)"
        using IH later [of now] eff(1) by (auto simp: PopEv \<open>ob1 = ob2\<close>)
      ultimately show ?thesis using eff by (auto simp: out)
    qed
  next
    case (PromoteEv k)
    with s same show ?thesis by (auto simp: promote_reply_def)
  next
    case (SentEv now)
    then have "last_send ob1 = Some now" "pub1 = []" using s by (auto simp: outbox_sent_def)
    with IH later [of now] have "spaced (Some now) (map fst pub)" by (auto simp: out SentEv)
    moreover have "l \<le> now" if "last_send ob = Some l" for l
      using Cons.prems(2) [OF that, of now] by (simp add: SentEv map_filter_simps)
    ultimately show ?thesis by (cases "last_send ob"; cases "map fst pub") (auto intro: spaced_mono)
  next
    case StopProbesEv
    with s same show ?thesis by (auto simp: stop_probes_def)
  qed
qed

section \<open>Properties\<close>

text \<open>
  No discovery request is lost or duplicated: over every sequence of operations the
  requests pushed are exactly those published, those reported back as dropped and those still waiting,
  and never more than 32 wait.
\<close>

lemma outbox_conserves_requests:
  assumes "outbox_run es outbox_default = (published, dropped, ob)"
  shows "mset (pushed_keys es) = mset (map (req_pubkey \<circ> snd) published) + mset dropped + mset (map req_pubkey (queue ob))
    \<and> length (queue ob) \<le> 32"
  using outbox_run_effect [OF _ assms] by (simp add: outbox_default_def waiting_keys_def CAPACITY_def ac_simps)

theorem outbox_conserves_requests_witness:
  "fst (snd (outbox_run [PushEv ''a'' Probe 0 0, PushEv ''b'' Ordinary 0 0, StopProbesEv] outbox_default)) = [''a'']
   \<and> length (queue (snd (snd (outbox_run [PushEv ''a'' Probe 0 0, PushEv ''b'' Ordinary 0 0, StopProbesEv] outbox_default)))) \<le> 32"
  using outbox_conserves_requests [of "[PushEv ''a'' Probe 0 0, PushEv ''b'' Ordinary 0 0, StopProbesEv]", OF prod_eqI]
  by (simp add: outbox_push_def outbox_default_def CAPACITY_def stop_probes_def Let_def)

text \<open>
  Publications are paced and ordered by priority: with a clock that does not run
  backwards any two publications of a run are at least 100 ms apart, and what is published has the
  highest priority of everything waiting.
\<close>

lemma outbox_paced:
  assumes "sorted (List.map_filter event_time es)" and "outbox_run es outbox_default = (published, dropped, ob)"
  shows "spaced None (map fst published)
    \<and> (case fst (outbox_pop now ob) of None \<Rightarrow> True
         | Some item \<Rightarrow> item \<in> set (queue ob) \<and> (\<forall>x. x \<in> set (queue ob) \<longrightarrow> req_priority item \<le> req_priority x))"
proof -
  have "fst (outbox_pop now ob) = Some item \<Longrightarrow> item \<in> set (queue ob)" for item
    using next_index_Some(1) [of ob] by (auto simp: outbox_pop_def split: option.splits if_splits)
  moreover have "fst (outbox_pop now ob) = Some item \<Longrightarrow> x \<in> set (queue ob) \<Longrightarrow> req_priority item \<le> req_priority x" for item x
    using outbox_pop_effect(4) [of now ob item "snd (outbox_pop now ob)" x] by (simp add: prod_eq_iff)
  ultimately show ?thesis
    using outbox_run_spaced [OF assms(1) _ assms(2)] by (auto simp: outbox_default_def split: option.splits)
qed

theorem outbox_paced_witness:
  "map fst (fst (outbox_run [PushEv ''a'' Reply 0 0, PushEv ''b'' Ordinary 0 0, PopEv 5, PopEv 50, PopEv 105] outbox_default)) = [5, 105]
   \<and> spaced None (map fst (fst (outbox_run [PushEv ''a'' Reply 0 0, PushEv ''b'' Ordinary 0 0, PopEv 5, PopEv 50, PopEv 105] outbox_default)))"
  (is "?p = _ \<and> _")
proof
  show "?p = [5, 105]"
    by (simp add: outbox_push_def outbox_pop_def outbox_delay_def next_index_def outbox_default_def CAPACITY_def Let_def
        remove_at_def DISCOVERY_INTERVAL_def less_discovery_priority_def)
  obtain published dropped ob where
    r: "outbox_run [PushEv ''a'' Reply 0 0, PushEv ''b'' Ordinary 0 0, PopEv 5, PopEv 50, PopEv 105] outbox_default = (published, dropped, ob)"
    by (metis prod_cases3)
  show "spaced None ?p" using outbox_paced [OF _ r] unfolding r by (simp add: map_filter_simps)
qed

end
