(* ===== verification/Nostr_Armor.thy ===== *)
theory Nostr_Armor
  imports Storage_Cid
begin

unbundle bit_operations_syntax

text \<open>
  The text and length encodings of relay payloads: hexadecimal (\<open>signaling/nostr/util.rs\<close>),
  unpadded base64url (\<open>signaling/nostr/crypto/armor.rs\<close>), plaintext padding
  (\<open>signaling/nostr/crypto/padding.rs\<close>) and the size limits (\<open>signaling/nostr/limits.rs\<close>). The random
  numbers of the padding are arguments: \<open>rnd\<close> is the value of \<open>next_u32\<close>, \<open>fill n\<close> the \<open>n\<close> bytes
  written by \<open>fill_bytes\<close>.
\<close>

section \<open>Limits\<close>

definition MAX_NOSTR_SIGNALING_PLAINTEXT_BYTES :: nat where "MAX_NOSTR_SIGNALING_PLAINTEXT_BYTES = 64 * 1024"
definition MAX_NOSTR_EVENT_CONTENT_CHARS :: nat where "MAX_NOSTR_EVENT_CONTENT_CHARS = 140 * 1024"
definition MAX_NOSTR_RELAY_FRAME_BYTES :: nat where "MAX_NOSTR_RELAY_FRAME_BYTES = 256 * 1024"
definition MAX_NOSTR_EVENT_TAGS :: nat where "MAX_NOSTR_EVENT_TAGS = 32"
definition MAX_NOSTR_EVENT_TAG_FIELDS :: nat where "MAX_NOSTR_EVENT_TAG_FIELDS = 8"
definition MAX_NOSTR_EVENT_TAG_FIELD_CHARS :: nat where "MAX_NOSTR_EVENT_TAG_FIELD_CHARS = 2 * 1024"

section \<open>Hexadecimal\<close>

definition between :: "char \<Rightarrow> char \<Rightarrow> char \<Rightarrow> bool" where
  "between a b c \<longleftrightarrow> byte_of a \<le> byte_of c \<and> byte_of c \<le> byte_of b"

definition hex_encode :: "bytes \<Rightarrow> string" where
  "hex_encode data = concat (map (\<lambda>b. [hex_digit (drop_bit 4 (unat b)), hex_digit (unat b AND 0x0F)]) data)"

definition hex_nibble :: "char \<Rightarrow> nat result" where
  "hex_nibble c =
     (if between CHR ''0'' CHR ''9'' c then Inr (byte_of c - byte_of CHR ''0'')
      else if between CHR ''a'' CHR ''f'' c then Inr (byte_of c - byte_of CHR ''a'' + 10)
      else if between CHR ''A'' CHR ''F'' c then Inr (byte_of c - byte_of CHR ''A'' + 10)
      else Inl (Signaling ''invalid hex character''))"

fun hex_pairs :: "string \<Rightarrow> bytes result" where
  "hex_pairs (a # b # cs) =
     (case hex_nibble a of Inl e \<Rightarrow> Inl e | Inr high \<Rightarrow>
      case hex_nibble b of Inl e \<Rightarrow> Inl e | Inr low \<Rightarrow>
      case hex_pairs cs of Inl e \<Rightarrow> Inl e | Inr out \<Rightarrow> Inr (of_nat (push_bit 4 high OR low) # out))"
| "hex_pairs _ = Inr []"

definition hex_decode :: "string \<Rightarrow> bytes result" where
  "hex_decode v = (if odd (length v) then Inl (Signaling ''hex string has odd length'') else hex_pairs v)"

section \<open>Base64url\<close>

definition BASE64URL :: string where
  "BASE64URL = ''ABCDEFGHIJKLMNOPQRSTUVWXYZabcdefghijklmnopqrstuvwxyz0123456789-_''"

text \<open>The indices into the alphabet, one chunk of three bytes at a time.\<close>

fun base64_indices :: "nat list \<Rightarrow> nat list" where
  "base64_indices [] = []"
| "base64_indices [b0] = [drop_bit 2 b0, push_bit 4 (b0 AND 0x03) OR drop_bit 4 0]"
| "base64_indices [b0, b1] =
     [drop_bit 2 b0, push_bit 4 (b0 AND 0x03) OR drop_bit 4 b1, push_bit 2 (b1 AND 0x0F) OR drop_bit 6 0]"
| "base64_indices (b0 # b1 # b2 # bs) =
     [drop_bit 2 b0, push_bit 4 (b0 AND 0x03) OR drop_bit 4 b1, push_bit 2 (b1 AND 0x0F) OR drop_bit 6 b2, b2 AND 0x3F]
     @ base64_indices bs"

definition encode_base64url_no_pad :: "bytes \<Rightarrow> string" where
  "encode_base64url_no_pad input = map (\<lambda>i. BASE64URL ! i) (base64_indices (map unat input))"

definition base64url_value :: "char \<Rightarrow> nat result" where
  "base64url_value c =
     (if between CHR ''A'' CHR ''Z'' c then Inr (byte_of c - byte_of CHR ''A'')
      else if between CHR ''a'' CHR ''z'' c then Inr (byte_of c - byte_of CHR ''a'' + 26)
      else if between CHR ''0'' CHR ''9'' c then Inr (byte_of c - byte_of CHR ''0'' + 52)
      else if c = CHR ''-'' then Inr 62
      else if c = CHR ''_'' then Inr 63
      else Inl (Signaling ''invalid armored Nostr payload''))"

fun base64_drain :: "nat \<Rightarrow> nat \<Rightarrow> bytes \<Rightarrow> nat \<times> nat \<times> bytes" where
  "base64_drain buffer bits out =
     (if bits \<ge> 8 then
        base64_drain (buffer AND (2 ^ (bits - 8) - 1)) (bits - 8) (out @ [of_nat (drop_bit (bits - 8) buffer AND 0xFF)])
      else (buffer, bits, out))"

declare base64_drain.simps [simp del]

fun base64_decode_loop :: "string \<Rightarrow> nat \<Rightarrow> nat \<Rightarrow> bytes \<Rightarrow> (nat \<times> nat \<times> bytes) result" where
  "base64_decode_loop [] buffer bits out = Inr (buffer, bits, out)"
| "base64_decode_loop (c # cs) buffer bits out =
     (case base64url_value c of
        Inl e \<Rightarrow> Inl e
      | Inr v \<Rightarrow>
          let (buffer, bits, out) = base64_drain (take_bit 32 (push_bit 6 buffer) OR v) (bits + 6) out
          in base64_decode_loop cs buffer bits out)"

definition decode_base64url_no_pad :: "string \<Rightarrow> bytes result" where
  "decode_base64url_no_pad v =
     (if length v mod 4 = 1 then Inl (Signaling ''invalid armored Nostr payload'')
      else case base64_decode_loop v 0 0 [] of
             Inl e \<Rightarrow> Inl e
           | Inr (buffer, bits, out) \<Rightarrow>
               if bits > 0 \<and> buffer \<noteq> 0 then Inl (Signaling ''invalid armored Nostr payload'') else Inr out)"

section \<open>Padding\<close>

definition PADDED_PLAINTEXT_LEN_BYTES :: nat where "PADDED_PLAINTEXT_LEN_BYTES = 4"
definition RANDOM_PADDING_TARGET_BYTES :: "nat list" where "RANDOM_PADDING_TARGET_BYTES = [1024, 2048, 4096, 8192]"
definition OVERFLOW_PADDING_BLOCK_BYTES :: nat where "OVERFLOW_PADDING_BLOCK_BYTES = 1024"

definition next_multiple_of :: "nat \<Rightarrow> nat \<Rightarrow> nat" where
  "next_multiple_of n m = (if n mod m = 0 then n else n + (m - n mod m))"

definition u32_to_be_bytes :: "nat \<Rightarrow> bytes" where
  "u32_to_be_bytes n = map (\<lambda>i. of_nat (n div 256 ^ i mod 256)) [3, 2, 1, 0]"

definition u32_from_be_bytes :: "bytes \<Rightarrow> nat" where
  "u32_from_be_bytes bs = foldl (\<lambda>acc b. acc * 256 + unat b) 0 bs"

definition random_padded_len :: "nat \<Rightarrow> nat \<Rightarrow> nat" where
  "random_padded_len rnd body_len =
     (let candidates = filter (\<lambda>target. body_len \<le> target) RANDOM_PADDING_TARGET_BYTES in
      if candidates = [] then next_multiple_of body_len OVERFLOW_PADDING_BLOCK_BYTES
      else candidates ! (rnd mod length candidates))"

definition pad_plaintext :: "nat \<Rightarrow> (nat \<Rightarrow> bytes) \<Rightarrow> bytes \<Rightarrow> bytes result" where
  "pad_plaintext rnd fill plaintext =
     (if length plaintext > MAX_NOSTR_SIGNALING_PLAINTEXT_BYTES then Inl (Signaling ''Nostr signaling payload is too large'')
      else if length plaintext > u32_max then Inl (Signaling ''Nostr payload is too large to pad'')
      else
        let body_len = PADDED_PLAINTEXT_LEN_BYTES + length plaintext;
            padded_len = random_padded_len rnd body_len
        in Inr (u32_to_be_bytes (length plaintext) @ plaintext @ fill (padded_len - body_len)))"

definition unpad_plaintext :: "bytes \<Rightarrow> bytes result" where
  "unpad_plaintext padded =
     (if length padded < PADDED_PLAINTEXT_LEN_BYTES then Inl (Signaling ''invalid padded Nostr payload'')
      else
        let plaintext_len = u32_from_be_bytes (take PADDED_PLAINTEXT_LEN_BYTES padded) in
        if plaintext_len > MAX_NOSTR_SIGNALING_PLAINTEXT_BYTES then Inl (Signaling ''Nostr signaling payload is too large'')
        else
          let fin = PADDED_PLAINTEXT_LEN_BYTES + plaintext_len in
          if fin > length padded then Inl (Signaling ''invalid padded Nostr payload'')
          else Inr (take plaintext_len (drop PADDED_PLAINTEXT_LEN_BYTES padded)))"

section \<open>Hexadecimal round trip\<close>

lemma hex_nibble_digit: "n < 16 \<Longrightarrow> hex_nibble (hex_digit n) = Inr n"
proof -
  have "\<forall>n \<in> set [0..<16]. hex_nibble (hex_digit n) = Inr n" by code_simp
  then show "n < 16 \<Longrightarrow> hex_nibble (hex_digit n) = Inr n" by simp
qed

lemma nibbles_less: "unat (b :: u8) AND 15 < 16" "drop_bit 4 (unat (b :: u8)) < 16"
  using and_mask_less [of "unat b" 4] unat_byte_less [of b] by (simp_all add: drop_bit_eq_div)

lemma nibbles_join: "push_bit 4 (drop_bit 4 (unat (b :: u8))) OR (unat b AND 15) = unat b"
proof -
  have m: "(15 :: nat) = mask 4" by (simp add: mask_eq_exp_minus_1)
  show ?thesis
    unfolding m by (rule bit_eqI) (auto simp: bit_or_iff bit_push_bit_iff bit_and_iff bit_drop_bit_eq bit_mask_iff)
qed

lemma hex_roundtrip_pairs: "hex_pairs (hex_encode data) = Inr data"
proof (induction data)
  case Nil
  then show ?case by (simp add: hex_encode_def)
next
  case (Cons b data)
  have "hex_encode (b # data) = hex_digit (drop_bit 4 (unat b)) # hex_digit (unat b AND 15) # hex_encode data"
    by (simp add: hex_encode_def)
  with Cons show ?case using nibbles_less by (simp add: hex_nibble_digit nibbles_join)
qed

lemma length_hex_encode [simp]: "length (hex_encode data) = 2 * length data"
  by (induction data) (auto simp: hex_encode_def)

lemma hex_roundtrip: "hex_decode (hex_encode data) = Inr data"
  by (simp add: hex_decode_def hex_roundtrip_pairs)

section \<open>Base64url round trip\<close>

lemma nbits_split: "nbits 8 b = nbits 6 (drop_bit 2 b) @ nbits 2 b" "nbits 8 b = nbits 4 (drop_bit 4 b) @ nbits 4 b"
  "nbits 8 b = nbits 2 (drop_bit 6 b) @ nbits 6 b"
  using nbits_add [of 6 2 b] nbits_add [of 4 4 b] nbits_add [of 2 6 b] by simp_all

lemma nbits_mask_low: "nbits 2 (b AND 3) = nbits 2 b" "nbits 4 (b AND 15) = nbits 4 b" "nbits 6 (b AND 63) = nbits 6 b"
  using nbits_and_mask [of 2 b] nbits_and_mask [of 4 b] nbits_and_mask [of 6 b] by simp_all

lemma drop_byte_less: "b < 256 \<Longrightarrow> drop_bit 2 b < (64::nat)" "b < 256 \<Longrightarrow> drop_bit 4 b < (16::nat)" "b < 256 \<Longrightarrow> drop_bit 6 b < (4::nat)"
  by (simp_all add: drop_bit_eq_div)

lemma or_less: "a < 2 ^ n \<Longrightarrow> y < 2 ^ n \<Longrightarrow> a OR y < (2 ^ n :: nat)"
  by (metis take_bit_nat_eq_self_iff take_bit_or)

lemma join_less: "x < 4 \<Longrightarrow> y < 16 \<Longrightarrow> push_bit 4 x OR y < (64::nat)" "x < 16 \<Longrightarrow> y < 4 \<Longrightarrow> push_bit 2 x OR y < (64::nat)"
  using or_less [of "push_bit 4 x" 6 y] or_less [of "push_bit 2 x" 6 y] by (simp_all add: push_bit_eq_mult)

lemma join_bits:
  "y < 16 \<Longrightarrow> nbits 6 (push_bit 4 x OR y) = nbits 2 x @ nbits 4 y"
  "y < 4 \<Longrightarrow> nbits 6 (push_bit 2 x OR y) = nbits 4 x @ nbits 2 y"
  using nbits_push [of y 4 2 x] nbits_push [of y 2 4 x] by simp_all

lemma mask_less: "b AND 3 < (4::nat)" "b AND 15 < (16::nat)" "b AND 63 < (64::nat)"
  using and_mask_less [of b 2] and_mask_less [of b 4] and_mask_less [of b 6] by simp_all

lemma sextets:
  "b1 < 256 \<Longrightarrow> nbits 6 (push_bit 4 (b0 AND 3) OR drop_bit 4 b1) = nbits 2 b0 @ nbits 4 (drop_bit 4 b1)"
  "b2 < 256 \<Longrightarrow> nbits 6 (push_bit 2 (b1 AND 15) OR drop_bit 6 b2) = nbits 4 b1 @ nbits 2 (drop_bit 6 b2)"
  using join_bits(1) [OF drop_byte_less(2), of b1 "b0 AND 3"] join_bits(2) [OF drop_byte_less(3), of b2 "b1 AND 15"]
  by (simp_all only: nbits_mask_low)

lemma sextets_less:
  "b1 < 256 \<Longrightarrow> push_bit 4 (b0 AND 3) OR drop_bit 4 b1 < (64::nat)" "b2 < 256 \<Longrightarrow> push_bit 2 (b1 AND 15) OR drop_bit 6 b2 < (64::nat)"
  by (rule join_less(1) [OF mask_less(1) drop_byte_less(2)], assumption) (rule join_less(2) [OF mask_less(2) drop_byte_less(3)], assumption)

text \<open>The indices are the bits of the bytes in groups of six, filled up with zeros.\<close>

lemma base64_indices_spec:
  "list_all (\<lambda>b. b < 256) bs \<Longrightarrow>
     list_all (\<lambda>i. i < 64) (base64_indices bs) \<and>
     (\<exists>k < 6. bits_of 6 (base64_indices bs) = bits_of 8 bs @ replicate k False)"
proof (induction bs rule: base64_indices.induct)
  case 1
  show ?case by (auto intro: exI [of _ 0])
next
  case (2 b0)
  then have b: "b0 < 256" by simp
  have "bits_of 6 (base64_indices [b0]) = bits_of 8 [b0] @ replicate 4 False"
    unfolding base64_indices.simps bits_of_Cons bits_of_Nil sextets(1) [OF zero_less_numeral] nbits_split(1)
    unfolding drop_bit_of_0 nbits_zero by simp
  then show ?case
    unfolding base64_indices.simps list.pred_inject
    using drop_byte_less(1) [OF b] sextets_less(1) [OF zero_less_numeral] by (intro conjI exI [of _ 4]) simp_all
next
  case (3 b0 b1)
  then have b: "b0 < 256" "b1 < 256" by simp_all
  have "bits_of 6 (base64_indices [b0, b1]) = bits_of 8 [b0, b1] @ replicate 2 False"
    unfolding base64_indices.simps bits_of_Cons bits_of_Nil sextets(1) [OF b(2)] sextets(2) [OF zero_less_numeral]
      nbits_split(1) [of b0] nbits_split(2) [of b1]
    unfolding drop_bit_of_0 nbits_zero by simp
  then show ?case
    unfolding base64_indices.simps list.pred_inject
    using drop_byte_less(1) [OF b(1)] sextets_less(1) [OF b(2)] sextets_less(2) [OF zero_less_numeral] by (intro conjI exI [of _ 2]) simp_all
next
  case (4 b0 b1 b2 bs)
  then have b: "b0 < 256" "b1 < 256" "b2 < 256" by simp_all
  from 4 obtain k where k: "k < 6" "bits_of 6 (base64_indices bs) = bits_of 8 bs @ replicate k False"
    and less: "list_all (\<lambda>i. i < 64) (base64_indices bs)" by auto
  have "bits_of 6 (base64_indices (b0 # b1 # b2 # bs)) = bits_of 8 (b0 # b1 # b2 # bs) @ replicate k False"
    unfolding base64_indices.simps bits_of_append bits_of_Cons bits_of_Nil k(2) sextets(1) [OF b(2)] sextets(2) [OF b(3)] nbits_mask_low
      nbits_split(1) [of b0] nbits_split(2) [of b1] nbits_split(3) [of b2] by simp
  moreover have "list_all (\<lambda>i. i < 64) (base64_indices (b0 # b1 # b2 # bs))"
    unfolding base64_indices.simps list_all_append list.pred_inject
    using drop_byte_less(1) [OF b(1)] sextets_less(1) [OF b(2)] sextets_less(2) [OF b(3)] mask_less(3) less by simp
  ultimately show ?case using k(1) by blast
qed

lemma base64_length: "length (base64_indices bs) = (4 * length bs + 2) div 3"
  by (induction bs rule: base64_indices.induct) auto

lemma base64url_alphabet: "i < 64 \<Longrightarrow> base64url_value (BASE64URL ! i) = Inr i"
proof -
  have "\<forall>i \<in> set [0..<64]. base64url_value (BASE64URL ! i) = Inr i" by code_simp
  then show "i < 64 \<Longrightarrow> base64url_value (BASE64URL ! i) = Inr i" by simp
qed

lemma base64url_bytes:
  "v < 26 \<Longrightarrow> byte_of (BASE64URL ! v) = v + 65" "26 \<le> v \<Longrightarrow> v < 52 \<Longrightarrow> byte_of (BASE64URL ! v) = v + 71"
  "52 \<le> v \<Longrightarrow> v < 62 \<Longrightarrow> byte_of (BASE64URL ! v) = v - 4"
proof -
  have "\<forall>v \<in> set [0..<26]. byte_of (BASE64URL ! v) = v + 65" "\<forall>v \<in> set [26..<52]. byte_of (BASE64URL ! v) = v + 71"
    "\<forall>v \<in> set [52..<62]. byte_of (BASE64URL ! v) = v - 4" by code_simp+
  note all = this [THEN bspec]
  show "v < 26 \<Longrightarrow> byte_of (BASE64URL ! v) = v + 65" by (rule all) (simp only: set_upt atLeastLessThan_iff le0)
  show "26 \<le> v \<Longrightarrow> v < 52 \<Longrightarrow> byte_of (BASE64URL ! v) = v + 71" by (rule all) (simp only: set_upt atLeastLessThan_iff)
  show "52 \<le> v \<Longrightarrow> v < 62 \<Longrightarrow> byte_of (BASE64URL ! v) = v - 4" by (rule all) (simp only: set_upt atLeastLessThan_iff)
qed

lemma byte_of_eq_iff: "byte_of a = byte_of b \<longleftrightarrow> a = b"
  by (simp add: byte_of_def of_char_eq_iff)

lemma base64url_value_inject:
  assumes "base64url_value c = Inr v"
  shows "v < 64 \<and> c = BASE64URL ! v"
proof -
  have letters: "byte_of CHR ''A'' = 65" "byte_of CHR ''Z'' = 90" "byte_of CHR ''a'' = 97" "byte_of CHR ''z'' = 122"
    "byte_of CHR ''0'' = 48" "byte_of CHR ''9'' = 57" by (simp_all add: byte_of_def)
  consider "v < 26" "byte_of c = v + 65" | "26 \<le> v" "v < 52" "byte_of c = v + 71" | "52 \<le> v" "v < 62" "byte_of c = v - 4"
    | "v = 62" "c = CHR ''-''" | "v = 63" "c = CHR ''_''"
    using assms by (auto simp: base64url_value_def between_def letters split: if_splits)
  then show ?thesis
  proof cases
    case 1 then show ?thesis using base64url_bytes(1) [of v] by (simp flip: byte_of_eq_iff)
  next
    case 2 then show ?thesis using base64url_bytes(2) [of v] by (simp flip: byte_of_eq_iff)
  next
    case 3 then show ?thesis using base64url_bytes(3) [of v] by (simp flip: byte_of_eq_iff)
  qed (simp_all add: BASE64URL_def)
qed

lemma base64_drain_once:
  "bits < 8 \<Longrightarrow> base64_drain buffer (bits + 6) out =
     (if bits + 6 \<ge> 8 then (buffer AND (2 ^ (bits + 6 - 8) - 1), bits + 6 - 8, out @ [of_nat (drop_bit (bits + 6 - 8) buffer AND 0xFF)])
      else (buffer, bits + 6, out))"
  by (auto simp: base64_drain.simps [of buffer "bits + 6"] base64_drain.simps [of _ "bits - 2"])

text \<open>The accumulator holds fewer than eight bits, exactly those not yet emitted.\<close>

lemma base64_decode_loop_spec:
  "bits < 8 \<Longrightarrow> buffer < 2 ^ bits \<Longrightarrow> base64_decode_loop cs buffer bits out = Inr (buffer', bits', out') \<Longrightarrow>
     \<exists>vs. map (\<lambda>i. BASE64URL ! i) vs = cs \<and> (\<forall>v \<in> set vs. v < 64) \<and> bits' < 8 \<and> buffer' < 2 ^ bits' \<and>
       bits_of 8 (map unat out') @ nbits bits' buffer' = bits_of 8 (map unat out) @ nbits bits buffer @ bits_of 6 vs"
proof (induction cs arbitrary: buffer bits out)
  case Nil
  then show ?case by auto
next
  case (Cons c cs)
  then obtain v where v: "base64url_value c = Inr v" by (auto split: sum.splits)
  from base64url_value_inject [OF v] have v64: "v < 64" and c: "c = BASE64URL ! v" by auto
  let ?buf = "take_bit 32 (push_bit 6 buffer) OR v"
  have bits6: "nbits (bits + 6) ?buf = nbits bits buffer @ nbits 6 v"
    using Cons.prems(1) v64 by (intro nbits_take_push) auto
  show ?case
  proof (cases "8 \<le> bits + 6")
    case True
    let ?n = "bits + 6 - 8"
    let ?b = "of_nat (drop_bit ?n ?buf AND 0xFF) :: u8"
    have sum8: "8 + ?n = bits + 6" using True by simp
    have n8: "?n < 8" using Cons.prems(1) by simp
    have low: "?buf AND (2 ^ ?n - 1) < 2 ^ ?n" by (rule and_mask_less)
    have byte: "nbits 8 (unat ?b) = nbits 8 (drop_bit ?n ?buf)"
      using nbits_and_mask [of 8 "drop_bit ?n ?buf"] by (simp add: nbits_byte_of_nat)
    have whole: "nbits 8 (unat ?b) @ nbits ?n (?buf AND (2 ^ ?n - 1)) = nbits bits buffer @ nbits 6 v"
      using nbits_add [of 8 ?n ?buf] unfolding byte nbits_and_mask bits6 [symmetric] sum8 by (rule sym)
    have "base64_decode_loop cs (?buf AND (2 ^ ?n - 1)) ?n (out @ [?b]) = Inr (buffer', bits', out')"
      using Cons.prems(1,3) v True by (simp add: base64_drain_once)
    from Cons.IH [OF n8 low this] obtain vs where vs:
      "map (\<lambda>i. BASE64URL ! i) vs = cs" "\<forall>v \<in> set vs. v < 64" "bits' < 8" "buffer' < 2 ^ bits'"
      "bits_of 8 (map unat out') @ nbits bits' buffer'
         = bits_of 8 (map unat (out @ [?b])) @ nbits ?n (?buf AND (2 ^ ?n - 1)) @ bits_of 6 vs" by blast
    have "bits_of 8 (map unat out') @ nbits bits' buffer' = bits_of 8 (map unat out) @ nbits bits buffer @ bits_of 6 (v # vs)"
      unfolding vs(5) using whole by simp
    with vs(1-4) v64 c show ?thesis by (intro exI [of _ "v # vs"]) simp
  next
    case False
    have "push_bit 6 buffer < 2 ^ (bits + 6)" using Cons.prems(2) by (simp add: push_bit_eq_mult power_add)
    moreover have "v < 2 ^ (bits + 6)" using v64 by (rule less_le_trans) (simp add: power_add)
    ultimately have "?buf < 2 ^ (bits + 6)" by (intro or_less le_less_trans [OF take_bit_nat_less_eq_self])
    moreover have "base64_decode_loop cs ?buf (bits + 6) out = Inr (buffer', bits', out')"
      using Cons.prems(1,3) v False by (simp add: base64_drain_once)
    ultimately obtain vs where vs: "map (\<lambda>i. BASE64URL ! i) vs = cs" "\<forall>v \<in> set vs. v < 64" "bits' < 8" "buffer' < 2 ^ bits'"
      "bits_of 8 (map unat out') @ nbits bits' buffer' = bits_of 8 (map unat out) @ nbits (bits + 6) ?buf @ bits_of 6 vs"
      using Cons.IH [of "bits + 6" ?buf out] False by auto
    have "bits_of 8 (map unat out') @ nbits bits' buffer' = bits_of 8 (map unat out) @ nbits bits buffer @ bits_of 6 (v # vs)"
      unfolding vs(5) bits6 by simp
    with vs(1-4) v64 c show ?thesis by (intro exI [of _ "v # vs"]) simp
  qed
qed

lemma leftover_bits:
  fixes a b c :: nat
  assumes "8 * a + b = 6 * c" and "b < 8" and "c mod 4 \<noteq> 1"
  shows "b < 6"
proof (rule ccontr)
  assume "\<not> b < 6"
  with assms(2) consider "b = 6" | "b = 7" by linarith
  then show False
  proof cases
    case 1
    with assms(1) have "3 * c = 4 * a + 3" by simp
    with assms(3) show False by presburger
  next
    case 2
    with assms(1) show False by presburger
  qed
qed

lemma base64_decode_loop_total:
  "\<forall>v \<in> set vs. v < 64 \<Longrightarrow> \<exists>r. base64_decode_loop (map (\<lambda>i. BASE64URL ! i) vs) buffer bits out = Inr r"
  by (induction vs arbitrary: buffer bits out) (auto simp: base64url_alphabet split: prod.splits)

text \<open>Decoding succeeds exactly on the canonical encodings.\<close>

lemma base64url_canonical: "decode_base64url_no_pad s = Inr data \<longleftrightarrow> s = encode_base64url_no_pad data"
proof
  obtain k where k: "k < 6" "bits_of 6 (base64_indices (map unat data)) = bits_of 8 (map unat data) @ replicate k False"
    and less: "\<forall>i \<in> set (base64_indices (map unat data)). i < 64"
    using base64_indices_spec [of "map unat data"] unat_byte_less by (auto simp: list_all_iff)
  {
    assume "decode_base64url_no_pad s = Inr data"
    then obtain buffer bits where dec: "base64_decode_loop s 0 0 [] = Inr (buffer, bits, data)"
      and len: "length s mod 4 \<noteq> 1" and zero: "bits = 0 \<or> buffer = 0"
      by (auto simp: decode_base64url_no_pad_def split: if_splits sum.splits)
    from base64_decode_loop_spec [OF _ _ dec] obtain vs where vs: "map (\<lambda>i. BASE64URL ! i) vs = s" "\<forall>v \<in> set vs. v < 64"
      "bits < 8" "bits_of 8 (map unat data) @ nbits bits buffer = bits_of 6 vs" by auto
    have "nbits bits buffer = replicate bits False" using zero by (auto simp: nbits_zero)
    moreover have "bits < 6"
    proof -
      have "8 * length data + bits = 6 * length s" using arg_cong [OF vs(4), of length] vs(1) by auto
      with vs(3) len show ?thesis by (intro leftover_bits)
    qed
    ultimately have vs6: "bits < 6" "bits_of 6 vs = bits_of 8 (map unat data) @ replicate bits False" using vs(4) by auto
    have "bits = k"
    proof -
      have "6 * length vs = 8 * length data + bits" "6 * length (base64_indices (map unat data)) = 8 * length data + k"
        using arg_cong [OF vs6(2), of length] arg_cong [OF k(2), of length] by auto
      with vs6(1) k(1) show ?thesis by presburger
    qed
    then have same: "bits_of 6 vs = bits_of 6 (base64_indices (map unat data))" using vs6(2) k(2) by simp
    from arg_cong [OF this, of length] have "length vs = length (base64_indices (map unat data))" unfolding length_bits_of by simp
    with bits_of_inject [OF same] vs(2) less have "vs = base64_indices (map unat data)" by simp
    with vs(1) show "s = encode_base64url_no_pad data" by (simp add: encode_base64url_no_pad_def)
  }
  assume s: "s = encode_base64url_no_pad data"
  then obtain buffer bits out where dec: "base64_decode_loop s 0 0 [] = Inr (buffer, bits, out)"
    using base64_decode_loop_total [OF less] by (metis encode_base64url_no_pad_def prod_cases3)
  from base64_decode_loop_spec [OF _ _ dec] obtain vs where vs: "map (\<lambda>i. BASE64URL ! i) vs = s" "\<forall>v \<in> set vs. v < 64"
    "bits < 8" "buffer < 2 ^ bits" "bits_of 8 (map unat out) @ nbits bits buffer = bits_of 6 vs" by auto
  have "vs = base64_indices (map unat data)"
  proof (rule nth_equalityI)
    show len: "length vs = length (base64_indices (map unat data))"
      using vs(1) s by (metis encode_base64url_no_pad_def length_map)
    fix i assume i: "i < length vs"
    then have "BASE64URL ! (vs ! i) = BASE64URL ! (base64_indices (map unat data) ! i)"
      using vs(1) s len unfolding encode_base64url_no_pad_def by (metis nth_map)
    with i len vs(2) less show "vs ! i = base64_indices (map unat data) ! i"
      by (metis base64url_alphabet nth_mem old.sum.inject(2))
  qed
  with vs(5) k(2) have "bits_of 8 (map unat out) @ nbits bits buffer = bits_of 8 (map unat data) @ replicate k False" by simp
  then have same: "map unat out = map unat data" and zeros: "nbits bits buffer = replicate k False"
    using regroup [of 8 "map unat out" "nbits bits buffer" "map unat data" "replicate k False"] vs(3) k(1) unat_byte_less by auto
  have "bits = k" using arg_cong [OF zeros, of length] by simp
  with zeros vs(4) have "buffer = 0" by (intro nbits_all_zero [of bits]) simp_all
  moreover have "out = data" using same by (metis inj_map_eq_map inj_on_def word_unat_eq_iff)
  moreover have "length s mod 4 \<noteq> 1"
    using base64_length [of "map unat data"] s by (simp add: encode_base64url_no_pad_def) presburger
  ultimately show "decode_base64url_no_pad s = Inr data" using dec by (simp add: decode_base64url_no_pad_def)
qed

interpretation base64url: roundtrip_codec encode_base64url_no_pad "\<lambda>s. case decode_base64url_no_pad s of Inl _ \<Rightarrow> None | Inr d \<Rightarrow> Some d" "\<lambda>_. True"
  by unfold_locales (simp add: base64url_canonical [THEN iffD2])

lemma length_base64url: "length (encode_base64url_no_pad data) = (4 * length data + 2) div 3"
  by (simp add: encode_base64url_no_pad_def base64_length)

section \<open>Padding round trip\<close>

lemma length_u32_to_be [simp]: "length (u32_to_be_bytes n) = 4"
  by (simp add: u32_to_be_bytes_def)

lemma u32_be_roundtrip: "n \<le> u32_max \<Longrightarrow> u32_from_be_bytes (u32_to_be_bytes n) = n"
proof -
  assume "n \<le> u32_max"
  then have n: "n < 256 ^ 4" by (simp add: u32_max_def)
  have byte: "unat (of_nat m :: u8) = m mod 256" for m
    by (simp add: unsigned_of_nat take_bit_nat_def)
  have top: "n div 16777216 mod 256 = n div 16777216" using n by simp
  have split: "m = m div 256 * 256 + m mod 256" for m :: nat by simp
  have divs: "n div 65536 div 256 = n div 16777216" "n div 256 div 256 = n div 65536" by (simp_all flip: div_mult2_eq)
  have s1: "n div 16777216 * 256 + n div 65536 mod 256 = n div 65536" using split [of "n div 65536"] divs(1) by simp
  have s2: "n div 65536 * 256 + n div 256 mod 256 = n div 256" using split [of "n div 256"] divs(2) by simp
  have s3: "n div 256 * 256 + n mod 256 = n" by simp
  have "((n div 16777216 mod 256 * 256 + n div 65536 mod 256) * 256 + n div 256 mod 256) * 256 + n mod 256 = n"
    unfolding top s1 s2 s3 ..
  then show ?thesis
    unfolding u32_to_be_bytes_def u32_from_be_bytes_def by (simp add: byte top)
qed

lemma next_multiple_of_ge: "0 < m \<Longrightarrow> n \<le> next_multiple_of n m \<and> m dvd next_multiple_of n m \<and> next_multiple_of n m < n + m"
proof -
  assume m: "0 < m"
  have "m dvd n + (m - n mod m)"
  proof -
    have "n + (m - n mod m) = m * (n div m) + m" using m by (metis (no_types, lifting) Nat.add_diff_assoc add.assoc add.commute diff_add_inverse2 le_add1 le_add_diff_inverse mod_less_divisor mult_div_mod_eq nat_less_le)
    then show ?thesis by simp
  qed
  moreover have "n mod m < m" using m by simp
  moreover from this have "n \<le> n + (m - n mod m)" "0 < n mod m \<Longrightarrow> n + (m - n mod m) < n + m" by simp_all
  ultimately show ?thesis using m unfolding next_multiple_of_def by (auto simp del: Nat.add_diff_assoc)
qed

text \<open>The sizes a padded plaintext can have: four fixed sizes, or the next multiple of 1024 above 8192.\<close>

definition padded_size :: "nat \<Rightarrow> bool" where
  "padded_size n \<longleftrightarrow> n \<in> {1024, 2048, 4096, 8192} \<or> 8192 < n \<and> 1024 dvd n"

lemma random_padded_len_spec:
  "body_len \<le> random_padded_len rnd body_len \<and> padded_size (random_padded_len rnd body_len)
   \<and> random_padded_len rnd body_len < max 8193 (body_len + 1024)"
proof (cases "filter (\<lambda>target. body_len \<le> target) RANDOM_PADDING_TARGET_BYTES = []")
  case True
  then have "8192 < body_len" by (auto simp: RANDOM_PADDING_TARGET_BYTES_def split: if_splits)
  with True next_multiple_of_ge [of 1024 body_len] show ?thesis
    by (auto simp: random_padded_len_def OVERFLOW_PADDING_BLOCK_BYTES_def padded_size_def)
next
  case False
  let ?cs = "filter (\<lambda>target. body_len \<le> target) RANDOM_PADDING_TARGET_BYTES"
  have "random_padded_len rnd body_len = ?cs ! (rnd mod length ?cs)"
    using False by (simp add: random_padded_len_def Let_def)
  moreover have "?cs ! (rnd mod length ?cs) \<in> set ?cs" using False by (intro nth_mem) simp
  ultimately have "random_padded_len rnd body_len \<in> set RANDOM_PADDING_TARGET_BYTES" "body_len \<le> random_padded_len rnd body_len"
    by (simp_all only: set_filter mem_Collect_eq)
  then show ?thesis by (auto simp: RANDOM_PADDING_TARGET_BYTES_def padded_size_def)
qed

lemma pad_plaintext_ok:
  assumes "length x \<le> MAX_NOSTR_SIGNALING_PLAINTEXT_BYTES"
  shows "pad_plaintext rnd fill x = Inr (u32_to_be_bytes (length x) @ x @ fill (random_padded_len rnd (4 + length x) - (4 + length x)))"
  using assms by (simp add: pad_plaintext_def MAX_NOSTR_SIGNALING_PLAINTEXT_BYTES_def u32_max_def PADDED_PLAINTEXT_LEN_BYTES_def Let_def)

lemma unpad_pad:
  assumes "pad_plaintext rnd fill x = Inr padded"
  shows "unpad_plaintext padded = Inr x"
proof -
  have len: "length x \<le> MAX_NOSTR_SIGNALING_PLAINTEXT_BYTES"
    using assms by (auto simp: pad_plaintext_def split: if_splits)
  then have "length x \<le> u32_max" by (simp add: MAX_NOSTR_SIGNALING_PLAINTEXT_BYTES_def u32_max_def)
  with len assms show ?thesis
    by (auto simp: pad_plaintext_ok [OF len] unpad_plaintext_def PADDED_PLAINTEXT_LEN_BYTES_def u32_be_roundtrip Let_def)
qed

section \<open>Properties\<close>

text \<open>
  The relay armour is a canonical encoding: a text decodes to some bytes exactly if it is
  the encoding of these bytes, so no two texts stand for the same payload and every payload survives
  the round trip; hexadecimal text decodes to what was encoded.
\<close>

lemma armor_canonical:
  "(decode_base64url_no_pad s = Inr data \<longleftrightarrow> s = encode_base64url_no_pad data) \<and> hex_decode (hex_encode data) = Inr data"
  by (simp add: base64url_canonical hex_roundtrip)

text \<open>
  Padding is transparent and hides the length: a plaintext is accepted exactly up to 64
  KiB, unpadding returns it, and the padded size depends on it only up to the choice of one of the
  sizes 1024, 2048, 4096, 8192 or the next multiple of 1024.
\<close>

lemma padding_roundtrip:
  assumes "\<And>n. length (fill n) = n"
  shows "(length x \<le> 65536 \<longleftrightarrow> (\<exists>padded. pad_plaintext rnd fill x = Inr padded))
    \<and> (\<forall>padded. pad_plaintext rnd fill x = Inr padded \<longrightarrow>
         unpad_plaintext padded = Inr x \<and> padded_size (length padded) \<and> length padded < max 8193 (length x + 1028))"
proof -
  have "length x \<le> 65536" if "pad_plaintext rnd fill x = Inr padded" for padded
    using that by (auto simp: pad_plaintext_def MAX_NOSTR_SIGNALING_PLAINTEXT_BYTES_def split: if_splits)
  moreover have "length padded = random_padded_len rnd (4 + length x)" if "pad_plaintext rnd fill x = Inr padded" "length x \<le> 65536" for padded
    using that random_padded_len_spec [of "4 + length x" rnd]
    by (auto simp: pad_plaintext_ok MAX_NOSTR_SIGNALING_PLAINTEXT_BYTES_def assms)
  moreover have "\<exists>padded. pad_plaintext rnd fill x = Inr padded" if "length x \<le> 65536"
    using that by (simp add: pad_plaintext_ok MAX_NOSTR_SIGNALING_PLAINTEXT_BYTES_def)
  ultimately show ?thesis
    using unpad_pad random_padded_len_spec [of "4 + length x" rnd] by (fastforce simp: add.commute)
qed

theorem padding_roundtrip_witness:
  "\<exists>padded. pad_plaintext 5 (\<lambda>n. replicate n 0) [1, 2, 3] = Inr padded \<and> unpad_plaintext padded = Inr [1, 2, 3]"
  using padding_roundtrip [of "\<lambda>n. replicate n 0" "[1, 2, 3]" 5] by auto

end
