(* ===== verification/Nostr_Codec.thy ===== *)
theory Nostr_Codec
  imports Nostr_Armor Link_Stats
begin

text \<open>
  Signed and encrypted relay events: key derivation (\<open>signaling/nostr/invite.rs\<close>), event identifiers and
  tags (\<open>event.rs\<close>), signatures (\<open>signature.rs\<close>), payload encryption (\<open>crypto.rs\<close>), the message
  envelope (\<open>codec/envelope.rs\<close>), validation (\<open>codec/validation.rs\<close>) and building and decoding events
  (\<open>codec.rs\<close>). SHA-256, HKDF, ECDH, AES-GCM, Schnorr signatures and JSON are crates outside the
  repository: they are the fields of \<open>crypto_prims\<close> and \<open>json_prims\<close>. The clock (\<open>now\<close>, seconds) and
  the random bytes are arguments. Where a crate reports an error the code forwards, the field answers
  with the error.
\<close>

section \<open>Decimal numbers\<close>

definition digit_char :: "nat \<Rightarrow> char" where
  "digit_char d = ''0123456789'' ! d"

fun u64_to_string :: "nat \<Rightarrow> string" where
  "u64_to_string n = (if n < 10 then [digit_char n] else u64_to_string (n div 10) @ [digit_char (n mod 10)])"

declare u64_to_string.simps [simp del]

definition digit_value :: "char \<Rightarrow> nat option" where
  "digit_value c = (if between CHR ''0'' CHR ''9'' c then Some (byte_of c - byte_of CHR ''0'') else None)"

fun parse_digits :: "nat \<Rightarrow> string \<Rightarrow> nat option" where
  "parse_digits acc [] = Some acc"
| "parse_digits acc (c # cs) =
     (case digit_value c of
        None \<Rightarrow> None
      | Some d \<Rightarrow> if acc * 10 + d > u64_max then None else parse_digits (acc * 10 + d) cs)"

text \<open>\<open>str::parse::<u64>\<close>: an optional plus sign, at least one digit, no overflow.\<close>

definition parse_u64 :: "string \<Rightarrow> nat option" where
  "parse_u64 s = (let ds = (case s of [] \<Rightarrow> [] | c # cs \<Rightarrow> if c = CHR ''+'' then cs else s)
                  in if ds = [] then None else parse_digits 0 ds)"

lemma digit_value_char: "d < 10 \<Longrightarrow> digit_value (digit_char d) = Some d \<and> digit_char d \<noteq> CHR ''+''"
proof -
  have "\<forall>d \<in> set [0..<10]. digit_value (digit_char d) = Some d \<and> digit_char d \<noteq> CHR ''+''" by code_simp
  then show "d < 10 \<Longrightarrow> digit_value (digit_char d) = Some d \<and> digit_char d \<noteq> CHR ''+''" by simp
qed

lemma parse_digits_append:
  "parse_digits acc (xs @ ys) = (case parse_digits acc xs of None \<Rightarrow> None | Some a \<Rightarrow> parse_digits a ys)"
  by (induction xs arbitrary: acc) (auto split: option.splits)

lemma u64_to_string_parse: "n \<le> u64_max \<Longrightarrow> parse_digits 0 (u64_to_string n) = Some n"
proof (induction n rule: u64_to_string.induct)
  case (1 n)
  show ?case
  proof (cases "n < 10")
    case True
    with 1 show ?thesis using digit_value_char by (simp add: u64_to_string.simps [of n])
  next
    case False
    have "n div 10 \<le> u64_max" using 1(2) by (meson div_le_dividend le_trans)
    with 1 False show ?thesis
      using digit_value_char [of "n mod 10"] by (simp add: u64_to_string.simps [of n] parse_digits_append)
  qed
qed

lemma u64_to_string_hd: "\<exists>d < 10. \<exists>cs. u64_to_string n = digit_char d # cs"
proof (induction n rule: u64_to_string.induct)
  case (1 n)
  then show ?case by (cases "n < 10") (auto simp: u64_to_string.simps [of n])
qed

lemma parse_u64_to_string: "n \<le> u64_max \<Longrightarrow> parse_u64 (u64_to_string n) = Some n"
  using u64_to_string_hd [of n] digit_value_char u64_to_string_parse [of n] by (auto simp: parse_u64_def)

lemma length_u64_to_string: "length (u64_to_string n) \<le> Suc n"
proof (induction n rule: u64_to_string.induct)
  case (1 n)
  then show ?case by (cases "n < 10") (auto simp: u64_to_string.simps [of n])
qed

lemma u64_to_string_short: "n < 10 ^ Suc k \<Longrightarrow> length (u64_to_string n) \<le> Suc k"
proof (induction k arbitrary: n)
  case 0
  then show ?case by (simp add: u64_to_string.simps [of n])
next
  case (Suc k)
  show ?case
  proof (cases "n < 10")
    case True
    then show ?thesis by (simp add: u64_to_string.simps [of n])
  next
    case False
    have "n div 10 < 10 ^ Suc k" using Suc.prems by (simp add: less_mult_imp_div_less mult.commute)
    from Suc.IH [OF this] False show ?thesis by (simp add: u64_to_string.simps [of n])
  qed
qed

section \<open>The crates behind the codec\<close>

record crypto_prims =
  sha256 :: "bytes \<Rightarrow> bytes"
  secret_ok :: "bytes \<Rightarrow> bool"
  point_ok :: "bytes \<Rightarrow> bool"
  diffie_hellman :: "bytes \<Rightarrow> bytes \<Rightarrow> bytes"
  hkdf_expand :: "bytes \<Rightarrow> bytes \<Rightarrow> bytes \<Rightarrow> bytes option"
  aes_encrypt :: "bytes \<Rightarrow> bytes \<Rightarrow> bytes \<Rightarrow> bytes \<Rightarrow> bytes option"
  aes_decrypt :: "bytes \<Rightarrow> bytes \<Rightarrow> bytes \<Rightarrow> bytes \<Rightarrow> bytes option"
  sign_prehash :: "bytes \<Rightarrow> bytes \<Rightarrow> bytes option"
  verifying_key_ok :: "bytes \<Rightarrow> bool"
  signature_ok :: "bytes \<Rightarrow> bool"
  verify_prehash :: "bytes \<Rightarrow> bytes \<Rightarrow> bytes \<Rightarrow> bool"

definition zstr :: "string \<Rightarrow> bytes" where
  "zstr s = str_bytes s @ [0]"

definition sha256_hex :: "crypto_prims \<Rightarrow> bytes \<Rightarrow> string" where
  "sha256_hex C data = hex_encode (sha256 C data)"

section \<open>Derived scopes and keys\<close>

definition derive_invite_scope :: "crypto_prims \<Rightarrow> string \<Rightarrow> string \<Rightarrow> string" where
  "derive_invite_scope C invite_salt invite_code =
     sha256_hex C (zstr ''mistlib-nostr-invite-scope:v1'' @ str_bytes invite_salt @ [0] @ str_bytes invite_code)"

definition derive_invite_secret :: "crypto_prims \<Rightarrow> string \<Rightarrow> string \<Rightarrow> bytes" where
  "derive_invite_secret C invite_salt invite_code =
     sha256 C (zstr ''mistlib-nostr-invite-secret:v1'' @ str_bytes invite_salt @ [0] @ str_bytes invite_code)"

definition derive_room_scope :: "crypto_prims \<Rightarrow> bytes \<Rightarrow> string \<Rightarrow> nat \<Rightarrow> string" where
  "derive_room_scope C secret room bucket =
     sha256_hex C (zstr ''mistlib-nostr-room-scope:v1'' @ secret @ [0] @ u64_to_le_bytes bucket @ [0] @ str_bytes room)"

definition derive_broadcast_sentinel :: "crypto_prims \<Rightarrow> bytes \<Rightarrow> string \<Rightarrow> nat \<Rightarrow> string" where
  "derive_broadcast_sentinel C secret room bucket =
     sha256_hex C (zstr ''mistlib-nostr-broadcast-p:v1'' @ secret @ [0] @ u64_to_le_bytes bucket @ [0] @ str_bytes room)"

definition derive_topology_rank :: "crypto_prims \<Rightarrow> bytes \<Rightarrow> string \<Rightarrow> string \<Rightarrow> string" where
  "derive_topology_rank C secret room pubkey =
     sha256_hex C (zstr ''mistlib-nostr-topology-rank:v1'' @ secret @ [0] @ str_bytes room @ [0] @ str_bytes pubkey)"

definition derive_discovery_proof :: "crypto_prims \<Rightarrow> bytes \<Rightarrow> string \<Rightarrow> string \<Rightarrow> nat \<Rightarrow> string \<Rightarrow> string" where
  "derive_discovery_proof C secret room pubkey expires_at nonce =
     sha256_hex C (zstr ''mistlib-nostr-discovery-proof:v1'' @ secret @ [0] @ str_bytes room @ [0] @ str_bytes pubkey @ [0]
       @ u64_to_le_bytes expires_at @ [0] @ str_bytes nonce)"

section \<open>Events\<close>

record nostr_event =
  ev_id :: string
  ev_pubkey :: string
  ev_created_at :: nat
  ev_kind :: nat
  ev_tags :: "string list list"
  ev_content :: string
  ev_sig :: string

record identity =
  public_key :: string
  secret_key :: bytes

text \<open>\<open>canonical\<close> is the JSON text of the array that \<open>refresh_id\<close> hashes.\<close>

type_synonym canonical = "string \<Rightarrow> nat \<Rightarrow> nat \<Rightarrow> string list list \<Rightarrow> string \<Rightarrow> bytes"

definition refresh_id :: "crypto_prims \<Rightarrow> canonical \<Rightarrow> nostr_event \<Rightarrow> nostr_event" where
  "refresh_id C canonical e =
     e\<lparr>ev_id := sha256_hex C (canonical (ev_pubkey e) (ev_created_at e) (ev_kind e) (ev_tags e) (ev_content e))\<rparr>"

definition unsigned_event :: "crypto_prims \<Rightarrow> canonical \<Rightarrow> nat \<Rightarrow> string \<Rightarrow> nat \<Rightarrow> string list list \<Rightarrow> string \<Rightarrow> nostr_event" where
  "unsigned_event C canonical now pubkey kind tags c =
     refresh_id C canonical \<lparr>ev_id = [], ev_pubkey = pubkey, ev_created_at = now, ev_kind = kind, ev_tags = tags,
       ev_content = c, ev_sig = []\<rparr>"

fun find_tag :: "string \<Rightarrow> string list list \<Rightarrow> string option" where
  "find_tag name [] = None"
| "find_tag name (t # ts) = (if length t \<ge> 2 \<and> t ! 0 = name then Some (t ! 1) else find_tag name ts)"

definition tag_value :: "nostr_event \<Rightarrow> string \<Rightarrow> string option" where
  "tag_value e name = find_tag name (ev_tags e)"

definition has_tag_value :: "nostr_event \<Rightarrow> string \<Rightarrow> string \<Rightarrow> bool" where
  "has_tag_value e name v \<longleftrightarrow> list_ex (\<lambda>t. length t \<ge> 2 \<and> t ! 0 = name \<and> t ! 1 = v) (ev_tags e)"

definition random_subscription_id :: "bytes \<Rightarrow> string" where
  "random_subscription_id rnd16 = hex_encode rnd16"

section \<open>Signatures\<close>

definition hex_decode_exact :: "string \<Rightarrow> nat \<Rightarrow> string \<Rightarrow> bytes result" where
  "hex_decode_exact v len label =
     (case hex_decode v of
        Inl _ \<Rightarrow> Inl (Signaling label)
      | Inr bs \<Rightarrow> if length bs \<noteq> len then Inl (Signaling label) else Inr bs)"

definition event_id_bytes :: "nostr_event \<Rightarrow> bytes result" where
  "event_id_bytes e = hex_decode_exact (ev_id e) 32 ''invalid Nostr event id''"

definition sign_event :: "crypto_prims \<Rightarrow> bytes \<Rightarrow> nostr_event \<Rightarrow> string result" where
  "sign_event C secret e =
     (if \<not> secret_ok C secret then Inl (Signaling ''invalid Nostr secret key'')
      else case event_id_bytes e of
             Inl err \<Rightarrow> Inl err
           | Inr i \<Rightarrow>
               (case sign_prehash C secret i of
                  None \<Rightarrow> Inl (Signaling ''Nostr signing failed'')
                | Some sg \<Rightarrow> Inr (hex_encode sg)))"

definition verify_event_signature :: "crypto_prims \<Rightarrow> nostr_event \<Rightarrow> unit result" where
  "verify_event_signature C e =
     (case event_id_bytes e of Inl err \<Rightarrow> Inl err | Inr i \<Rightarrow>
      case hex_decode_exact (ev_pubkey e) 32 ''invalid Nostr pubkey'' of Inl err \<Rightarrow> Inl err | Inr pk \<Rightarrow>
      case hex_decode_exact (ev_sig e) 64 ''invalid Nostr signature'' of Inl err \<Rightarrow> Inl err | Inr sg \<Rightarrow>
      if \<not> verifying_key_ok C pk then Inl (Signaling ''invalid Nostr pubkey'')
      else if \<not> signature_ok C sg then Inl (Signaling ''invalid Nostr signature'')
      else if verify_prehash C pk i sg then Inr () else Inl (Signaling ''invalid Nostr event signature''))"

section \<open>Payload encryption\<close>

definition LEGACY_UNPADDED_HEX_PAYLOAD_VERSION :: u8 where "LEGACY_UNPADDED_HEX_PAYLOAD_VERSION = 2"
definition LEGACY_PADDED_HEX_PAYLOAD_VERSION :: u8 where "LEGACY_PADDED_HEX_PAYLOAD_VERSION = 3"
definition ARMORED_COVER_LEN :: nat where "ARMORED_COVER_LEN = 1"
definition NONCE_LEN :: nat where "NONCE_LEN = 12"
definition GCM_TAG_LEN :: nat where "GCM_TAG_LEN = 16"
definition EVEN_Y_COMPRESSED_PREFIX :: u8 where "EVEN_Y_COMPRESSED_PREFIX = 2"

lemmas payload_lengths = ARMORED_COVER_LEN_def NONCE_LEN_def GCM_TAG_LEN_def

text \<open>The pre-shared key of \<open>InvitePskCrypto\<close> is the argument \<open>psk\<close> of its methods.\<close>

definition psk_new :: "crypto_prims \<Rightarrow> string \<Rightarrow> string \<Rightarrow> bytes" where
  "psk_new C invite_salt invite_code = derive_invite_secret C invite_salt invite_code"

definition public_key_from_xonly :: "crypto_prims \<Rightarrow> string \<Rightarrow> bytes result" where
  "public_key_from_xonly C pubkey =
     (case hex_decode pubkey of
        Inl _ \<Rightarrow> Inl (Signaling ''invalid Nostr pubkey'')
      | Inr x \<Rightarrow>
          if length x \<noteq> 32 then Inl (Signaling ''invalid Nostr pubkey'')
          else if point_ok C (EVEN_Y_COMPRESSED_PREFIX # x) then Inr (EVEN_Y_COMPRESSED_PREFIX # x)
          else Inl (Signaling ''invalid Nostr pubkey''))"

definition ordered_pair :: "string \<Rightarrow> string \<Rightarrow> bytes" where
  "ordered_pair a b = (if a \<le> b then str_bytes a @ [0] @ str_bytes b else str_bytes b @ [0] @ str_bytes a)"

definition pair_context :: "string \<Rightarrow> string \<Rightarrow> bytes" where
  "pair_context a b = zstr ''nostr-signaling-ecdh-aesgcm:v2'' @ ordered_pair a b"

definition message_aad :: "string \<Rightarrow> string \<Rightarrow> bytes" where
  "message_aad sender receiver = zstr ''nostr-signaling-message:v2'' @ str_bytes sender @ [0] @ str_bytes receiver"

definition message_scope_hash :: "crypto_prims \<Rightarrow> bytes \<Rightarrow> string \<Rightarrow> string \<Rightarrow> string \<Rightarrow> string" where
  "message_scope_hash C pair_key a b room =
     sha256_hex C (zstr ''nostr-signaling-message-scope:v1'' @ pair_key @ [0] @ ordered_pair a b @ [0] @ str_bytes room)"

definition pair_key :: "crypto_prims \<Rightarrow> bytes \<Rightarrow> identity \<Rightarrow> string \<Rightarrow> bytes result" where
  "pair_key C psk local remote_pubkey =
     (if \<not> secret_ok C (secret_key local) then Inl (Signaling ''invalid Nostr secret key'')
      else case public_key_from_xonly C remote_pubkey of
             Inl err \<Rightarrow> Inl err
           | Inr remote \<Rightarrow>
               (case hkdf_expand C psk (diffie_hellman C (secret_key local) remote) (pair_context (public_key local) remote_pubkey) of
                  None \<Rightarrow> Inl (Signaling ''failed to derive Nostr message key'')
                | Some out \<Rightarrow> Inr out))"

definition message_scope :: "crypto_prims \<Rightarrow> bytes \<Rightarrow> identity \<Rightarrow> string \<Rightarrow> string \<Rightarrow> string result" where
  "message_scope C psk local remote_pubkey room =
     (case pair_key C psk local remote_pubkey of
        Inl err \<Rightarrow> Inl err
      | Inr key \<Rightarrow> Inr (message_scope_hash C key (public_key local) remote_pubkey room))"

text \<open>The random choices of one encryption: nonce, cover byte, padding size and padding bytes.\<close>

record enc_random =
  rnd_nonce :: bytes
  rnd_cover :: bytes
  rnd_size :: nat
  rnd_fill :: "nat \<Rightarrow> bytes"

definition encrypt :: "crypto_prims \<Rightarrow> bytes \<Rightarrow> enc_random \<Rightarrow> identity \<Rightarrow> string \<Rightarrow> bytes \<Rightarrow> string result" where
  "encrypt C psk R sender receiver_pubkey plaintext =
     (case pair_key C psk sender receiver_pubkey of Inl err \<Rightarrow> Inl err | Inr key \<Rightarrow>
      let aad = message_aad (public_key sender) receiver_pubkey in
      case pad_plaintext (rnd_size R) (rnd_fill R) plaintext of Inl err \<Rightarrow> Inl err | Inr padded \<Rightarrow>
      case aes_encrypt C key (rnd_nonce R) aad padded of
        None \<Rightarrow> Inl (Signaling ''failed to encrypt Nostr payload'')
      | Some ciphertext \<Rightarrow> Inr (encode_base64url_no_pad (rnd_cover R @ rnd_nonce R @ ciphertext)))"

definition decrypt_legacy_hex :: "crypto_prims \<Rightarrow> bytes \<Rightarrow> identity \<Rightarrow> string \<Rightarrow> string \<Rightarrow> bytes option result" where
  "decrypt_legacy_hex C psk receiver sender_pubkey ciphertext =
     (case hex_decode ciphertext of
        Inl _ \<Rightarrow> Inr None
      | Inr p \<Rightarrow>
          if length p < 1 + NONCE_LEN + GCM_TAG_LEN then Inr None
          else
            let version = p ! 0 in
            if version \<noteq> LEGACY_PADDED_HEX_PAYLOAD_VERSION \<and> version \<noteq> LEGACY_UNPADDED_HEX_PAYLOAD_VERSION then Inr None
            else
              let nonce = take NONCE_LEN (drop 1 p); encrypted = drop (1 + NONCE_LEN) p in
              case pair_key C psk receiver sender_pubkey of Inl err \<Rightarrow> Inl err | Inr key \<Rightarrow>
              case aes_decrypt C key nonce (message_aad sender_pubkey (public_key receiver)) encrypted of
                None \<Rightarrow> Inl (Signaling ''invalid encrypted Nostr payload'')
              | Some decrypted \<Rightarrow>
                  if version = LEGACY_PADDED_HEX_PAYLOAD_VERSION then
                    (case unpad_plaintext decrypted of Inl err \<Rightarrow> Inl err | Inr x \<Rightarrow> Inr (Some x))
                  else Inr (Some decrypted))"

definition decrypt :: "crypto_prims \<Rightarrow> bytes \<Rightarrow> identity \<Rightarrow> string \<Rightarrow> string \<Rightarrow> bytes result" where
  "decrypt C psk receiver sender_pubkey ciphertext =
     (if length ciphertext > MAX_NOSTR_EVENT_CONTENT_CHARS then Inl (Signaling ''Nostr event content is too large'')
      else case decrypt_legacy_hex C psk receiver sender_pubkey ciphertext of
             Inl err \<Rightarrow> Inl err
           | Inr (Some plaintext) \<Rightarrow> Inr plaintext
           | Inr None \<Rightarrow>
               (case decode_base64url_no_pad ciphertext of Inl err \<Rightarrow> Inl err | Inr p \<Rightarrow>
                if length p < ARMORED_COVER_LEN + NONCE_LEN + GCM_TAG_LEN then Inl (Signaling ''unsupported encrypted Nostr payload'')
                else
                  let nonce_start = ARMORED_COVER_LEN; encrypted_start = nonce_start + NONCE_LEN;
                      nonce = take NONCE_LEN (drop nonce_start p); encrypted = drop encrypted_start p
                  in case pair_key C psk receiver sender_pubkey of Inl err \<Rightarrow> Inl err | Inr key \<Rightarrow>
                     case aes_decrypt C key nonce (message_aad sender_pubkey (public_key receiver)) encrypted of
                       None \<Rightarrow> Inl (Signaling ''invalid encrypted Nostr payload'')
                     | Some decrypted \<Rightarrow> unpad_plaintext decrypted))"

definition verify_event :: "crypto_prims \<Rightarrow> canonical \<Rightarrow> nostr_event \<Rightarrow> unit result" where
  "verify_event C canonical e =
     (if ev_id e \<noteq> ev_id (refresh_id C canonical e) then Inl (Signaling ''invalid Nostr event id'')
      else verify_event_signature C e)"

section \<open>The message envelope\<close>

record nostr_message_envelope =
  me_version :: nat
  me_message_id :: string
  me_sequence :: nat
  me_sender_joined_at :: "nat option"
  me_data :: signaling_data

record decoded_message_envelope =
  de_data :: signaling_data
  de_message_id :: "string option"
  de_sequence :: "nat option"
  de_sender_joined_at :: "nat option"

record 'v json_prims =
  to_vec :: "nostr_message_envelope \<Rightarrow> bytes result"
  from_slice :: "bytes \<Rightarrow> 'v result"
  has_key :: "'v \<Rightarrow> string \<Rightarrow> bool"
  data_from_value :: "'v \<Rightarrow> signaling_data result"
  envelope_from_value :: "'v \<Rightarrow> nostr_message_envelope result"

definition is_ascii_hexdigit :: "char \<Rightarrow> bool" where
  "is_ascii_hexdigit c \<longleftrightarrow> between CHR ''0'' CHR ''9'' c \<or> between CHR ''a'' CHR ''f'' c \<or> between CHR ''A'' CHR ''F'' c"

definition encode_message_envelope_with_joined_at ::
  "'v json_prims \<Rightarrow> bytes \<Rightarrow> signaling_data \<Rightarrow> nat \<Rightarrow> nat option \<Rightarrow> bytes result" where
  "encode_message_envelope_with_joined_at J rnd16 d seq joined =
     (if seq = 0 then Inl (Signaling ''Nostr message sequence must be positive'')
      else
        let envelope = \<lparr>me_version = 1, me_message_id = random_subscription_id rnd16, me_sequence = seq,
                        me_sender_joined_at = joined, me_data = d\<rparr>
        in case to_vec J envelope of
             Inl err \<Rightarrow> Inl err
           | Inr encoded \<Rightarrow>
               if length encoded > MAX_NOSTR_SIGNALING_PLAINTEXT_BYTES then Inl (Signaling ''Nostr signaling payload is too large'')
               else Inr encoded)"

definition decode_message_envelope :: "'v json_prims \<Rightarrow> bytes \<Rightarrow> decoded_message_envelope result" where
  "decode_message_envelope J plaintext =
     (if length plaintext > MAX_NOSTR_SIGNALING_PLAINTEXT_BYTES then Inl (Signaling ''Nostr signaling payload is too large'')
      else case from_slice J plaintext of Inl err \<Rightarrow> Inl err | Inr v \<Rightarrow>
        let is_envelope = has_key J v ''Version'' \<or> has_key J v ''MessageId'' \<or> has_key J v ''Sequence'' in
        if \<not> is_envelope then
          (case data_from_value J v of
             Inl err \<Rightarrow> Inl err
           | Inr d \<Rightarrow> Inr \<lparr>de_data = d, de_message_id = None, de_sequence = None, de_sender_joined_at = None\<rparr>)
        else case envelope_from_value J v of Inl err \<Rightarrow> Inl err | Inr envelope \<Rightarrow>
          if me_version envelope \<noteq> 1 then Inl (Signaling ''unsupported Nostr message envelope'')
          else if me_sequence envelope = 0 then Inl (Signaling ''invalid Nostr message sequence'')
          else if length (me_message_id envelope) \<noteq> 32 \<or> \<not> list_all is_ascii_hexdigit (me_message_id envelope) then
            Inl (Signaling ''invalid Nostr message id'')
          else Inr \<lparr>de_data = me_data envelope, de_message_id = Some (me_message_id envelope),
                    de_sequence = Some (me_sequence envelope), de_sender_joined_at = me_sender_joined_at envelope\<rparr>)"

section \<open>Codec configuration\<close>

definition TAG_INVITE_SCOPE :: string where "TAG_INVITE_SCOPE = ''d''"
definition TAG_EXPIRATION :: string where "TAG_EXPIRATION = ''expiration''"
definition TAG_NONCE :: string where "TAG_NONCE = ''nonce''"
definition TAG_DISCOVERY_PROOF :: string where "TAG_DISCOVERY_PROOF = ''proof''"
definition TAG_JOINED_AT :: string where "TAG_JOINED_AT = ''joined_at''"
definition TAG_P :: string where "TAG_P = ''p''"
definition MIN_ROOM_SCOPE_ROTATION_SECONDS :: nat where "MIN_ROOM_SCOPE_ROTATION_SECONDS = 30"
definition MAX_ROOM_SCOPE_ROTATION_SECONDS :: nat where "MAX_ROOM_SCOPE_ROTATION_SECONDS = 3600"

lemmas tag_defs = TAG_INVITE_SCOPE_def TAG_EXPIRATION_def TAG_NONCE_def TAG_DISCOVERY_PROOF_def TAG_JOINED_AT_def TAG_P_def

record nostr_signaling_config =
  sc_discovery_kind :: nat
  sc_message_kind :: nat
  sc_ttl_seconds :: nat
  sc_max_clock_skew_seconds :: nat
  sc_invite_salt :: string
  sc_invite_code :: string

record nostr_codec_config =
  discovery_kind :: nat
  message_kind :: nat
  ttl_seconds :: nat
  max_clock_skew_seconds :: nat
  invite_scope :: string
  room_scope_secret :: bytes

definition codec_from_config :: "crypto_prims \<Rightarrow> nostr_signaling_config \<Rightarrow> nostr_codec_config" where
  "codec_from_config C c =
     \<lparr>discovery_kind = sc_discovery_kind c, message_kind = sc_message_kind c, ttl_seconds = sc_ttl_seconds c,
      max_clock_skew_seconds = sc_max_clock_skew_seconds c,
      invite_scope = derive_invite_scope C (sc_invite_salt c) (sc_invite_code c),
      room_scope_secret = derive_invite_secret C (sc_invite_salt c) (sc_invite_code c)\<rparr>"

definition codec_expires_at :: "nat \<Rightarrow> nostr_codec_config \<Rightarrow> nat" where
  "codec_expires_at now cfg = saturating_add64 now (ttl_seconds cfg)"

definition room_scope_rotation_seconds :: "nostr_codec_config \<Rightarrow> nat" where
  "room_scope_rotation_seconds cfg =
     min (max (ttl_seconds cfg) MIN_ROOM_SCOPE_ROTATION_SECONDS) MAX_ROOM_SCOPE_ROTATION_SECONDS"

definition current_rotation_bucket :: "nat \<Rightarrow> nat \<Rightarrow> nat" where
  "current_rotation_bucket now rotation_seconds = now div max rotation_seconds 1"

definition room_scope :: "crypto_prims \<Rightarrow> nostr_codec_config \<Rightarrow> string \<Rightarrow> nat \<Rightarrow> string" where
  "room_scope C cfg room bucket = derive_room_scope C (room_scope_secret cfg) room bucket"

definition current_room_scope :: "crypto_prims \<Rightarrow> nat \<Rightarrow> nostr_codec_config \<Rightarrow> string \<Rightarrow> string" where
  "current_room_scope C now cfg room =
     room_scope C cfg room (current_rotation_bucket now (room_scope_rotation_seconds cfg))"

definition topology_rank :: "crypto_prims \<Rightarrow> nostr_codec_config \<Rightarrow> string \<Rightarrow> string \<Rightarrow> string" where
  "topology_rank C cfg room pubkey = derive_topology_rank C (room_scope_secret cfg) room pubkey"

definition discovery_proof :: "crypto_prims \<Rightarrow> nostr_codec_config \<Rightarrow> string \<Rightarrow> string \<Rightarrow> nat \<Rightarrow> string \<Rightarrow> string" where
  "discovery_proof C cfg room pubkey expires_at nonce =
     derive_discovery_proof C (room_scope_secret cfg) room pubkey expires_at nonce"

definition accepted_room_scopes :: "crypto_prims \<Rightarrow> nat \<Rightarrow> nostr_codec_config \<Rightarrow> string \<Rightarrow> string list" where
  "accepted_room_scopes C now cfg room =
     (let bucket = current_rotation_bucket now (room_scope_rotation_seconds cfg) in
      (if bucket > 0 then [room_scope C cfg room (bucket - 1)] else [])
      @ [room_scope C cfg room bucket, room_scope C cfg room (bucket + 1)])"

definition broadcast_sentinel :: "crypto_prims \<Rightarrow> nostr_codec_config \<Rightarrow> string \<Rightarrow> nat \<Rightarrow> string" where
  "broadcast_sentinel C cfg room bucket = derive_broadcast_sentinel C (room_scope_secret cfg) room bucket"

definition current_broadcast_sentinel :: "crypto_prims \<Rightarrow> nat \<Rightarrow> nostr_codec_config \<Rightarrow> string \<Rightarrow> string" where
  "current_broadcast_sentinel C now cfg room =
     broadcast_sentinel C cfg room (current_rotation_bucket now (room_scope_rotation_seconds cfg))"

definition accepted_broadcast_sentinels :: "crypto_prims \<Rightarrow> nat \<Rightarrow> nostr_codec_config \<Rightarrow> string \<Rightarrow> string list" where
  "accepted_broadcast_sentinels C now cfg room =
     (let bucket = current_rotation_bucket now (room_scope_rotation_seconds cfg) in
      (if bucket > 0 then [broadcast_sentinel C cfg room (bucket - 1)] else [])
      @ [broadcast_sentinel C cfg room bucket, broadcast_sentinel C cfg room (bucket + 1)])"

section \<open>Subscription filters\<close>

record nostr_filter =
  f_ids :: "string list option"
  f_authors :: "string list option"
  f_kinds :: "nat list option"
  f_since :: "nat option"
  f_until :: "nat option"
  tag_filters :: "(string, string list) btmap"

definition filter_default :: nostr_filter where
  "filter_default = \<lparr>f_ids = None, f_authors = None, f_kinds = None, f_since = None, f_until = None, tag_filters = []\<rparr>"

definition with_tag :: "string \<Rightarrow> string list \<Rightarrow> nostr_filter \<Rightarrow> nostr_filter" where
  "with_tag name vals f = f\<lparr>tag_filters := bt_insert (CHR ''#'' # name) vals (tag_filters f)\<rparr>"

definition discovery_filter :: "crypto_prims \<Rightarrow> nat \<Rightarrow> nostr_codec_config \<Rightarrow> string \<Rightarrow> nostr_filter" where
  "discovery_filter C now cfg room =
     with_tag TAG_INVITE_SCOPE (accepted_room_scopes C now cfg room)
       (filter_default\<lparr>f_kinds := Some [discovery_kind cfg], f_since := Some (now - ttl_seconds cfg)\<rparr>)"

definition message_filter :: "crypto_prims \<Rightarrow> nat \<Rightarrow> nostr_codec_config \<Rightarrow> string \<Rightarrow> string \<Rightarrow> nostr_filter" where
  "message_filter C now cfg room local_pubkey =
     with_tag TAG_P (local_pubkey # accepted_broadcast_sentinels C now cfg room)
       (with_tag TAG_INVITE_SCOPE (accepted_room_scopes C now cfg room)
         (filter_default\<lparr>f_kinds := Some [message_kind cfg], f_since := Some (now - ttl_seconds cfg)\<rparr>))"

section \<open>Validation\<close>

definition in_room_scope :: "crypto_prims \<Rightarrow> nat \<Rightarrow> nostr_codec_config \<Rightarrow> nostr_event \<Rightarrow> string \<Rightarrow> bool" where
  "in_room_scope C now cfg e room \<longleftrightarrow> list_ex (has_tag_value e TAG_INVITE_SCOPE) (accepted_room_scopes C now cfg room)"

definition is_room_mailbox_message :: "crypto_prims \<Rightarrow> nat \<Rightarrow> nostr_codec_config \<Rightarrow> nostr_event \<Rightarrow> string \<Rightarrow> bool" where
  "is_room_mailbox_message C now cfg e room \<longleftrightarrow>
     ev_kind e = message_kind cfg \<and> tag_value e TAG_P = None \<and> in_room_scope C now cfg e room"

definition is_broadcast_sentinel_message :: "crypto_prims \<Rightarrow> nat \<Rightarrow> nostr_codec_config \<Rightarrow> nostr_event \<Rightarrow> string \<Rightarrow> bool" where
  "is_broadcast_sentinel_message C now cfg e room \<longleftrightarrow>
     ev_kind e = message_kind cfg
     \<and> (case tag_value e TAG_P of None \<Rightarrow> False | Some pubkey \<Rightarrow> pubkey \<in> set (accepted_broadcast_sentinels C now cfg room))
     \<and> in_room_scope C now cfg e room"

definition is_hex_len :: "string \<Rightarrow> nat \<Rightarrow> bool" where
  "is_hex_len v len \<longleftrightarrow> length v = len \<and> list_all is_ascii_hexdigit v"

fun check_tags :: "string list list \<Rightarrow> unit result" where
  "check_tags [] = Inr ()"
| "check_tags (t # ts) =
     (if length t > MAX_NOSTR_EVENT_TAG_FIELDS then Inl (Signaling ''too many Nostr tag fields'')
      else if list_ex (\<lambda>field. length field > MAX_NOSTR_EVENT_TAG_FIELD_CHARS) t then Inl (Signaling ''Nostr tag field is too large'')
      else check_tags ts)"

definition validate_event_shape :: "nostr_event \<Rightarrow> unit result" where
  "validate_event_shape e =
     (if \<not> is_hex_len (ev_id e) 64 then Inl (Signaling ''invalid Nostr event id'')
      else if \<not> is_hex_len (ev_pubkey e) 64 then Inl (Signaling ''invalid Nostr pubkey'')
      else if \<not> is_hex_len (ev_sig e) 128 then Inl (Signaling ''invalid Nostr signature'')
      else if length (ev_content e) > MAX_NOSTR_EVENT_CONTENT_CHARS then Inl (Signaling ''Nostr event content is too large'')
      else if length (ev_tags e) > MAX_NOSTR_EVENT_TAGS then Inl (Signaling ''too many Nostr tags'')
      else check_tags (ev_tags e))"

definition event_expiration :: "nostr_event \<Rightarrow> nat result" where
  "event_expiration e =
     (case tag_value e TAG_EXPIRATION of
        None \<Rightarrow> Inl (Signaling ''missing Nostr expiration tag'')
      | Some v \<Rightarrow> (case parse_u64 v of None \<Rightarrow> Inl (Signaling ''invalid Nostr expiration tag'') | Some n \<Rightarrow> Inr n))"

definition validate_event_basics :: "nat \<Rightarrow> nostr_codec_config \<Rightarrow> nat \<Rightarrow> nostr_event \<Rightarrow> unit result" where
  "validate_event_basics now cfg expected_kind e =
     (case validate_event_shape e of Inl err \<Rightarrow> Inl err | Inr _ \<Rightarrow>
      if ev_kind e \<noteq> expected_kind then Inl (Signaling ''unexpected Nostr event kind'')
      else if ev_created_at e > saturating_add64 now (max_clock_skew_seconds cfg) then
        Inl (Signaling ''Nostr event timestamp is too far in the future'')
      else if saturating_add64 (saturating_add64 (ev_created_at e) (ttl_seconds cfg)) (max_clock_skew_seconds cfg) < now then
        Inl (Signaling ''Nostr event timestamp is too old'')
      else case event_expiration e of Inl err \<Rightarrow> Inl err | Inr expires_at \<Rightarrow>
        if expires_at \<le> now then Inl (Signaling ''expired Nostr event'')
        else if expires_at \<le> ev_created_at e then Inl (Signaling ''Nostr expiration must be after event timestamp'')
        else if expires_at > saturating_add64 (saturating_add64 now (ttl_seconds cfg)) (max_clock_skew_seconds cfg) then
          Inl (Signaling ''Nostr expiration is too far in the future'')
        else Inr ())"

definition validate_discovery_event :: "crypto_prims \<Rightarrow> nat \<Rightarrow> nostr_codec_config \<Rightarrow> nostr_event \<Rightarrow> string \<Rightarrow> unit result" where
  "validate_discovery_event C now cfg e room =
     (case validate_event_basics now cfg (discovery_kind cfg) e of Inl err \<Rightarrow> Inl err | Inr _ \<Rightarrow>
      if \<not> in_room_scope C now cfg e room then Inl (Signaling ''Nostr invite scope mismatch'')
      else case tag_value e TAG_NONCE of None \<Rightarrow> Inl (Signaling ''missing Nostr discovery nonce'') | Some nonce \<Rightarrow>
        case tag_value e TAG_DISCOVERY_PROOF of None \<Rightarrow> Inl (Signaling ''missing Nostr discovery proof'') | Some proof \<Rightarrow>
        case event_expiration e of Inl err \<Rightarrow> Inl err | Inr expires_at \<Rightarrow>
        if proof \<noteq> discovery_proof C cfg room (ev_pubkey e) expires_at nonce then Inl (Signaling ''invalid Nostr discovery proof'')
        else Inr ())"

section \<open>Building and decoding events\<close>

record decoded_discovery =
  dd_signaling_pubkey :: string
  dd_expires_at :: nat
  dd_topology_rank :: string
  dd_joined_at :: "nat option"

record decoded_message =
  dm_sender_pubkey :: string
  dm_data :: signaling_data
  dm_expires_at :: nat
  dm_message_id :: "string option"
  dm_sequence :: "nat option"
  dm_sender_joined_at :: "nat option"

definition event_tag :: "string \<Rightarrow> string \<Rightarrow> string list" where
  "event_tag name v = [name, v]"

definition build_discovery_event_with_joined_at ::
  "crypto_prims \<Rightarrow> canonical \<Rightarrow> nat \<Rightarrow> bytes \<Rightarrow> nostr_codec_config \<Rightarrow> identity \<Rightarrow> string \<Rightarrow> nat option \<Rightarrow> nostr_event result" where
  "build_discovery_event_with_joined_at C canonical now rnd16 cfg ident room joined_at =
     (let expires_at = codec_expires_at now cfg;
          nonce = random_subscription_id rnd16;
          proof = discovery_proof C cfg room (public_key ident) expires_at nonce;
          tags = [event_tag TAG_INVITE_SCOPE (current_room_scope C now cfg room), event_tag TAG_NONCE nonce,
                  event_tag TAG_EXPIRATION (u64_to_string expires_at), event_tag TAG_DISCOVERY_PROOF proof]
                 @ (case joined_at of None \<Rightarrow> [] | Some j \<Rightarrow> [event_tag TAG_JOINED_AT (u64_to_string j)]);
          e = unsigned_event C canonical now (public_key ident) (discovery_kind cfg) tags []
      in case sign_event C (secret_key ident) e of Inl err \<Rightarrow> Inl err | Inr sg \<Rightarrow> Inr (e\<lparr>ev_sig := sg\<rparr>))"

definition build_discovery_event ::
  "crypto_prims \<Rightarrow> canonical \<Rightarrow> nat \<Rightarrow> bytes \<Rightarrow> nostr_codec_config \<Rightarrow> identity \<Rightarrow> string \<Rightarrow> nostr_event result" where
  "build_discovery_event C canonical now rnd16 cfg ident room =
     build_discovery_event_with_joined_at C canonical now rnd16 cfg ident room None"

definition decode_discovery_event ::
  "crypto_prims \<Rightarrow> canonical \<Rightarrow> nat \<Rightarrow> nostr_codec_config \<Rightarrow> nostr_event \<Rightarrow> string \<Rightarrow> decoded_discovery result" where
  "decode_discovery_event C canonical now cfg e room =
     (case validate_event_shape e of Inl err \<Rightarrow> Inl err | Inr _ \<Rightarrow>
      case verify_event C canonical e of Inl err \<Rightarrow> Inl err | Inr _ \<Rightarrow>
      case validate_discovery_event C now cfg e room of Inl err \<Rightarrow> Inl err | Inr _ \<Rightarrow>
      case event_expiration e of Inl err \<Rightarrow> Inl err | Inr expires_at \<Rightarrow>
      Inr \<lparr>dd_signaling_pubkey = ev_pubkey e, dd_expires_at = expires_at,
           dd_topology_rank = topology_rank C cfg room (ev_pubkey e),
           dd_joined_at = Option.bind (tag_value e TAG_JOINED_AT) parse_u64\<rparr>)"

text \<open>\<open>mid\<close> and \<open>rnd16\<close> are the random bytes of the message identifier and of the nonce tag.\<close>

definition build_message_event_with_sequence_and_joined_at ::
  "crypto_prims \<Rightarrow> canonical \<Rightarrow> 'v json_prims \<Rightarrow> bytes \<Rightarrow> nat \<Rightarrow> bytes \<Rightarrow> bytes \<Rightarrow> enc_random \<Rightarrow> nostr_codec_config \<Rightarrow> identity
   \<Rightarrow> string \<Rightarrow> signaling_data \<Rightarrow> nat \<Rightarrow> nat option \<Rightarrow> nostr_event result" where
  "build_message_event_with_sequence_and_joined_at C canonical J psk now mid rnd16 R cfg ident receiver_pubkey d seq joined =
     (case encode_message_envelope_with_joined_at J mid d seq joined of Inl err \<Rightarrow> Inl err | Inr plaintext \<Rightarrow>
      case encrypt C psk R ident receiver_pubkey plaintext of Inl err \<Rightarrow> Inl err | Inr c \<Rightarrow>
      let expires_at = codec_expires_at now cfg;
          scope = current_room_scope C now cfg (room_id d);
          p_value = (if is_broadcast (receiver_id d) then current_broadcast_sentinel C now cfg (room_id d) else receiver_pubkey);
          tags = [event_tag TAG_INVITE_SCOPE scope, event_tag TAG_P p_value, event_tag TAG_NONCE (random_subscription_id rnd16),
                  event_tag TAG_EXPIRATION (u64_to_string expires_at)];
          e = unsigned_event C canonical now (public_key ident) (message_kind cfg) tags c
      in case sign_event C (secret_key ident) e of Inl err \<Rightarrow> Inl err | Inr sg \<Rightarrow> Inr (e\<lparr>ev_sig := sg\<rparr>))"

definition build_message_event_with_sequence ::
  "crypto_prims \<Rightarrow> canonical \<Rightarrow> 'v json_prims \<Rightarrow> bytes \<Rightarrow> nat \<Rightarrow> bytes \<Rightarrow> bytes \<Rightarrow> enc_random \<Rightarrow> nostr_codec_config \<Rightarrow> identity
   \<Rightarrow> string \<Rightarrow> signaling_data \<Rightarrow> nat \<Rightarrow> nostr_event result" where
  "build_message_event_with_sequence C canonical J psk now mid rnd16 R cfg ident receiver_pubkey d seq =
     build_message_event_with_sequence_and_joined_at C canonical J psk now mid rnd16 R cfg ident receiver_pubkey d seq None"

definition build_message_event ::
  "crypto_prims \<Rightarrow> canonical \<Rightarrow> 'v json_prims \<Rightarrow> bytes \<Rightarrow> nat \<Rightarrow> bytes \<Rightarrow> bytes \<Rightarrow> enc_random \<Rightarrow> nostr_codec_config \<Rightarrow> identity
   \<Rightarrow> string \<Rightarrow> signaling_data \<Rightarrow> nostr_event result" where
  "build_message_event C canonical J psk now mid rnd16 R cfg ident receiver_pubkey d =
     build_message_event_with_sequence C canonical J psk now mid rnd16 R cfg ident receiver_pubkey d 1"

text \<open>The check of the \<open>p\<close> tag and of the room scope in \<open>decode_message_event\<close>.\<close>

definition check_addressed :: "crypto_prims \<Rightarrow> nat \<Rightarrow> nostr_codec_config \<Rightarrow> identity \<Rightarrow> nostr_event \<Rightarrow> string \<Rightarrow> unit result" where
  "check_addressed C now cfg ident e room =
     (case tag_value e TAG_P of
        Some pubkey \<Rightarrow>
          if pubkey = public_key ident \<or> pubkey \<in> set (accepted_broadcast_sentinels C now cfg room) then
            (if \<not> in_room_scope C now cfg e room then Inl (Signaling ''Nostr message room scope mismatch'') else Inr ())
          else Inl (Signaling ''Nostr message receiver pubkey mismatch'')
      | None \<Rightarrow>
          if is_room_mailbox_message C now cfg e room then Inr () else Inl (Signaling ''Nostr message room scope mismatch''))"

definition decode_message_event ::
  "crypto_prims \<Rightarrow> canonical \<Rightarrow> 'v json_prims \<Rightarrow> bytes \<Rightarrow> nat \<Rightarrow> nostr_codec_config \<Rightarrow> identity \<Rightarrow> node_id \<Rightarrow> nostr_event \<Rightarrow> string
   \<Rightarrow> decoded_message result" where
  "decode_message_event C canonical J psk now cfg ident local_node e room =
     (case validate_event_shape e of Inl err \<Rightarrow> Inl err | Inr _ \<Rightarrow>
      case verify_event C canonical e of Inl err \<Rightarrow> Inl err | Inr _ \<Rightarrow>
      case validate_event_basics now cfg (message_kind cfg) e of Inl err \<Rightarrow> Inl err | Inr _ \<Rightarrow>
      case check_addressed C now cfg ident e room of Inl err \<Rightarrow> Inl err | Inr _ \<Rightarrow>
      case decrypt C psk ident (ev_pubkey e) (ev_content e) of Inl err \<Rightarrow> Inl err | Inr plaintext \<Rightarrow>
      case decode_message_envelope J plaintext of Inl err \<Rightarrow> Inl err | Inr decoded \<Rightarrow>
      if room_id (de_data decoded) \<noteq> room then Inl (Signaling ''decrypted Nostr message room mismatch'')
      else if receiver_id (de_data decoded) \<noteq> local_node \<and> \<not> is_broadcast (receiver_id (de_data decoded)) then
        Inl (Signaling ''decrypted Nostr message receiver mismatch'')
      else
        Inr \<lparr>dm_sender_pubkey = ev_pubkey e, dm_data = de_data decoded,
             dm_expires_at = (case Option.bind (tag_value e TAG_EXPIRATION) parse_u64 of
                                None \<Rightarrow> saturating_add64 now (ttl_seconds cfg) | Some n \<Rightarrow> n),
             dm_message_id = de_message_id decoded, dm_sequence = de_sequence decoded,
             dm_sender_joined_at = de_sender_joined_at decoded\<rparr>)"

section \<open>What the crates promise\<close>

text \<open>
  A SHA-256 digest has 32 bytes; AES-GCM decrypts what it encrypted and appends a 16-byte tag; a JSON
  document parses back to the envelope it was made from.
\<close>

definition crypto_laws :: "crypto_prims \<Rightarrow> bool" where
  "crypto_laws C \<longleftrightarrow> (\<forall>x. length (sha256 C x) = 32)
     \<and> (\<forall>k n aad m c. aes_encrypt C k n aad m = Some c \<longrightarrow> aes_decrypt C k n aad c = Some m \<and> length c = length m + 16)"

definition json_laws :: "'v json_prims \<Rightarrow> bool" where
  "json_laws J \<longleftrightarrow> (\<forall>env bs. to_vec J env = Inr bs \<longrightarrow>
     (\<exists>v. from_slice J bs = Inr v \<and> has_key J v ''Version'' \<and> envelope_from_value J v = Inr env))"

text \<open>A key pair: the public key is the hexadecimal form of a curve point and verifies the signatures of the secret.\<close>

definition key_pair :: "crypto_prims \<Rightarrow> identity \<Rightarrow> bytes \<Rightarrow> bool" where
  "key_pair C ident x \<longleftrightarrow> secret_ok C (secret_key ident) \<and> public_key ident = hex_encode x \<and> length x = 32
     \<and> point_ok C (EVEN_Y_COMPRESSED_PREFIX # x) \<and> verifying_key_ok C x
     \<and> (\<forall>m sg. sign_prehash C (secret_key ident) m = Some sg \<longrightarrow> length sg = 64 \<and> signature_ok C sg \<and> verify_prehash C x m sg)"

text \<open>Both ends of a Diffie-Hellman exchange compute the same secret.\<close>

definition dh_agree :: "crypto_prims \<Rightarrow> identity \<Rightarrow> bytes \<Rightarrow> identity \<Rightarrow> bytes \<Rightarrow> bool" where
  "dh_agree C a xa b xb \<longleftrightarrow>
     diffie_hellman C (secret_key a) (EVEN_Y_COMPRESSED_PREFIX # xb) = diffie_hellman C (secret_key b) (EVEN_Y_COMPRESSED_PREFIX # xa)"

section \<open>Keys and ciphertexts\<close>

lemma ordered_pair_sym: "ordered_pair a b = ordered_pair b a"
  by (auto simp: ordered_pair_def)

lemma public_key_from_xonly_ok:
  "key_pair C ident x \<Longrightarrow> public_key_from_xonly C (public_key ident) = Inr (EVEN_Y_COMPRESSED_PREFIX # x)"
  by (simp add: key_pair_def public_key_from_xonly_def hex_roundtrip)

lemma pair_key_symmetric:
  assumes "key_pair C a xa" and "key_pair C b xb" and "dh_agree C a xa b xb"
  shows "pair_key C psk a (public_key b) = pair_key C psk b (public_key a)"
proof -
  have "secret_ok C (secret_key a)" "secret_ok C (secret_key b)" using assms(1,2) by (simp_all add: key_pair_def)
  then show ?thesis
    using public_key_from_xonly_ok [OF assms(1)] public_key_from_xonly_ok [OF assms(2)] assms(3)
    by (simp add: pair_key_def dh_agree_def pair_context_def ordered_pair_sym)
qed

text \<open>Texts that the receiver would take for the hexadecimal format of an older version.\<close>

definition looks_legacy :: "string \<Rightarrow> bool" where
  "looks_legacy c \<longleftrightarrow>
     (case hex_decode c of Inl _ \<Rightarrow> False
      | Inr p \<Rightarrow> length p \<ge> 1 + NONCE_LEN + GCM_TAG_LEN
          \<and> (p ! 0 = LEGACY_PADDED_HEX_PAYLOAD_VERSION \<or> p ! 0 = LEGACY_UNPADDED_HEX_PAYLOAD_VERSION))"

lemma decrypt_legacy_None: "\<not> looks_legacy c \<Longrightarrow> decrypt_legacy_hex C psk b pk c = Inr None"
  by (auto simp: looks_legacy_def decrypt_legacy_hex_def Let_def split: sum.splits)

definition random_ok :: "enc_random \<Rightarrow> bool" where
  "random_ok R \<longleftrightarrow> length (rnd_nonce R) = NONCE_LEN \<and> length (rnd_cover R) = ARMORED_COVER_LEN \<and> (\<forall>n. length (rnd_fill R n) = n)"

lemma pad_plaintext_length:
  assumes "\<forall>n. length (fill n) = n" and "pad_plaintext rnd fill x = Inr padded"
  shows "4 \<le> length padded \<and> length padded \<le> 66563"
proof -
  have len: "length x \<le> 65536" using assms(2) by (auto simp: pad_plaintext_def MAX_NOSTR_SIGNALING_PLAINTEXT_BYTES_def split: if_splits)
  then have "length padded = 4 + length x + (random_padded_len rnd (4 + length x) - (4 + length x))"
    using assms by (auto simp: pad_plaintext_ok MAX_NOSTR_SIGNALING_PLAINTEXT_BYTES_def)
  with random_padded_len_spec [of "4 + length x" rnd] len show ?thesis by auto
qed

lemma encrypt_decrypt:
  assumes "crypto_laws C" and "random_ok R" and keys: "pair_key C psk a (public_key b) = pair_key C psk b (public_key a)"
    and enc: "encrypt C psk R a (public_key b) x = Inr c" and "\<not> looks_legacy c"
  shows "decrypt C psk b (public_key a) c = Inr x" and "length c \<le> MAX_NOSTR_EVENT_CONTENT_CHARS"
proof -
  from enc obtain key padded ct where key: "pair_key C psk a (public_key b) = Inr key"
    and pad: "pad_plaintext (rnd_size R) (rnd_fill R) x = Inr padded"
    and aes: "aes_encrypt C key (rnd_nonce R) (message_aad (public_key a) (public_key b)) padded = Some ct"
    and c: "c = encode_base64url_no_pad (rnd_cover R @ rnd_nonce R @ ct)"
    by (auto simp: encrypt_def Let_def split: sum.splits option.splits)
  from assms(1) aes have aead: "aes_decrypt C key (rnd_nonce R) (message_aad (public_key a) (public_key b)) ct = Some padded"
    "length ct = length padded + 16" by (auto simp: crypto_laws_def)
  have lens: "length (rnd_cover R) = 1" "length (rnd_nonce R) = 12" "4 \<le> length padded" "length padded \<le> 66563"
    using assms(2) pad_plaintext_length [OF _ pad] by (auto simp: random_ok_def payload_lengths)
  show short: "length c \<le> MAX_NOSTR_EVENT_CONTENT_CHARS"
    using lens aead(2) by (simp add: c length_base64url MAX_NOSTR_EVENT_CONTENT_CHARS_def)
  have "decode_base64url_no_pad c = Inr (rnd_cover R @ rnd_nonce R @ ct)" by (simp add: base64url_canonical c)
  moreover have "take NONCE_LEN (drop ARMORED_COVER_LEN (rnd_cover R @ rnd_nonce R @ ct)) = rnd_nonce R"
    "drop (ARMORED_COVER_LEN + NONCE_LEN) (rnd_cover R @ rnd_nonce R @ ct) = ct"
    using lens by (simp_all add: payload_lengths)
  ultimately show "decrypt C psk b (public_key a) c = Inr x"
    using short key aead lens unpad_pad [OF pad] keys
    by (simp add: decrypt_def decrypt_legacy_None [OF assms(5)] Let_def) (simp add: payload_lengths)
qed

section \<open>Signed events\<close>

lemma hexdigit_digit: "n < 16 \<Longrightarrow> is_ascii_hexdigit (hex_digit n)"
proof -
  have "\<forall>n \<in> set [0..<16]. is_ascii_hexdigit (hex_digit n)" by code_simp
  then show "n < 16 \<Longrightarrow> is_ascii_hexdigit (hex_digit n)" by simp
qed

lemma hex_encode_hexdigits: "list_all is_ascii_hexdigit (hex_encode data)"
  using nibbles_less by (induction data) (auto simp: hex_encode_def hexdigit_digit)

lemma is_hex_len_encode: "2 * length data = n \<Longrightarrow> is_hex_len (hex_encode data) n"
  by (simp add: is_hex_len_def hex_encode_hexdigits)

lemma sha256_hex_props: "crypto_laws C \<Longrightarrow> length (sha256_hex C x) = 64 \<and> is_hex_len (sha256_hex C x) 64"
  by (simp add: crypto_laws_def sha256_hex_def is_hex_len_encode)

lemma signed_event_verifies:
  assumes "crypto_laws C" and "key_pair C ident x" and "e = unsigned_event C canonical now (public_key ident) kind tags c"
    and "sign_event C (secret_key ident) e = Inr sg"
  shows "verify_event C canonical (e\<lparr>ev_sig := sg\<rparr>) = Inr ()" and "is_hex_len (ev_id e) 64" and "is_hex_len sg 128"
    and "is_hex_len (public_key ident) 64"
proof -
  have sha: "length (sha256 C y) = 32" for y using assms(1) by (simp add: crypto_laws_def)
  from assms(3) have id: "\<exists>y. ev_id e = hex_encode (sha256 C y)" "ev_pubkey e = public_key ident" "ev_id (refresh_id C canonical e) = ev_id e"
    by (auto simp: unsigned_event_def refresh_id_def sha256_hex_def)
  then obtain i where i: "ev_id e = hex_encode i" "length i = 32" using sha by blast
  have pk: "public_key ident = hex_encode x" "length x = 32" using assms(2) by (auto simp: key_pair_def)
  from assms(2,4) i obtain raw where raw: "sg = hex_encode raw" "length raw = 64" "signature_ok C raw" "verify_prehash C x i raw"
    by (auto simp: sign_event_def event_id_bytes_def hex_decode_exact_def hex_roundtrip key_pair_def split: sum.splits option.splits if_splits)
  have vk: "verifying_key_ok C x" using assms(2) by (simp add: key_pair_def)
  have "ev_id (refresh_id C canonical (e\<lparr>ev_sig := sg\<rparr>)) = ev_id e" using id(3) by (simp add: refresh_id_def)
  then show "verify_event C canonical (e\<lparr>ev_sig := sg\<rparr>) = Inr ()"
    using i pk raw vk id(2)
    by (simp add: verify_event_def verify_event_signature_def event_id_bytes_def hex_decode_exact_def hex_roundtrip)
  show "is_hex_len (ev_id e) 64" "is_hex_len sg 128" "is_hex_len (public_key ident) 64"
    using i raw pk by (simp_all add: is_hex_len_encode)
qed

lemma check_tags_ok:
  "list_all (\<lambda>t. length t \<le> MAX_NOSTR_EVENT_TAG_FIELDS \<and> list_all (\<lambda>f. length f \<le> MAX_NOSTR_EVENT_TAG_FIELD_CHARS) t) ts
   \<Longrightarrow> check_tags ts = Inr ()"
  by (induction ts) (auto simp: list_all_iff list_ex_iff not_less)

lemma event_tag_ok:
  "length name \<le> 2048 \<Longrightarrow> length v \<le> 2048 \<Longrightarrow>
     length (event_tag name v) \<le> MAX_NOSTR_EVENT_TAG_FIELDS \<and> list_all (\<lambda>f. length f \<le> MAX_NOSTR_EVENT_TAG_FIELD_CHARS) (event_tag name v)"
  by (simp add: event_tag_def MAX_NOSTR_EVENT_TAG_FIELDS_def MAX_NOSTR_EVENT_TAG_FIELD_CHARS_def)

lemma validate_event_shape_ok:
  assumes "is_hex_len (ev_id e) 64" "is_hex_len (ev_pubkey e) 64" "is_hex_len (ev_sig e) 128"
    "length (ev_content e) \<le> MAX_NOSTR_EVENT_CONTENT_CHARS" "length (ev_tags e) \<le> MAX_NOSTR_EVENT_TAGS"
    "list_all (\<lambda>t. length t \<le> MAX_NOSTR_EVENT_TAG_FIELDS \<and> list_all (\<lambda>f. length f \<le> MAX_NOSTR_EVENT_TAG_FIELD_CHARS) t) (ev_tags e)"
  shows "validate_event_shape e = Inr ()"
  using assms check_tags_ok by (simp add: validate_event_shape_def not_less)

lemma u64_string_length: "n \<le> u64_max \<Longrightarrow> length (u64_to_string n) \<le> 2048"
  using u64_to_string_short [of n 19] by (simp add: u64_max_def)

section \<open>Clocks\<close>

text \<open>The sender's clock reads \<open>s\<close>, the receiver's \<open>now\<close>; no sum of either with the limits overflows.\<close>

definition clocks_fit :: "nostr_codec_config \<Rightarrow> nat \<Rightarrow> nat \<Rightarrow> bool" where
  "clocks_fit cfg s now \<longleftrightarrow> s + ttl_seconds cfg + max_clock_skew_seconds cfg \<le> u64_max
     \<and> now + ttl_seconds cfg + max_clock_skew_seconds cfg \<le> u64_max"

lemma event_expiration_fresh:
  "tag_value e TAG_EXPIRATION = Some (u64_to_string n) \<Longrightarrow> n \<le> u64_max \<Longrightarrow> event_expiration e = Inr n"
  by (simp add: event_expiration_def parse_u64_to_string)

lemma basics_window:
  assumes "validate_event_shape e = Inr ()" and "ev_kind e = kind" and "ev_created_at e = s" and "0 < ttl_seconds cfg"
    and "tag_value e TAG_EXPIRATION = Some (u64_to_string (s + ttl_seconds cfg))" and "clocks_fit cfg s now"
  shows "validate_event_basics now cfg kind e = Inr () \<longleftrightarrow> s \<le> now + max_clock_skew_seconds cfg \<and> now < s + ttl_seconds cfg"
proof -
  have "event_expiration e = Inr (s + ttl_seconds cfg)"
    using assms(5,6) by (intro event_expiration_fresh) (auto simp: clocks_fit_def)
  moreover have "saturating_add64 now (max_clock_skew_seconds cfg) = now + max_clock_skew_seconds cfg"
    "saturating_add64 (saturating_add64 s (ttl_seconds cfg)) (max_clock_skew_seconds cfg) = s + ttl_seconds cfg + max_clock_skew_seconds cfg"
    "saturating_add64 (saturating_add64 now (ttl_seconds cfg)) (max_clock_skew_seconds cfg) = now + ttl_seconds cfg + max_clock_skew_seconds cfg"
    using assms(6) by (auto simp: clocks_fit_def saturating_add64_def)
  ultimately show ?thesis using assms(1-4) by (auto simp: validate_event_basics_def)
qed

text \<open>Two clocks at most one rotation apart are in the same or in neighbouring buckets.\<close>

lemma div_neighbours: "a \<le> b + r \<Longrightarrow> 0 < r \<Longrightarrow> a div r \<le> b div r + 1" for a b r :: nat
  by (metis add.commute div_add_self2 div_le_mono nat_neq_iff Suc_eq_plus1 less_nat_zero_code)

definition near :: "nostr_codec_config \<Rightarrow> nat \<Rightarrow> nat \<Rightarrow> bool" where
  "near cfg s now \<longleftrightarrow> s \<le> now + room_scope_rotation_seconds cfg \<and> now \<le> s + room_scope_rotation_seconds cfg"

lemma rotation_pos: "0 < room_scope_rotation_seconds cfg"
  by (simp add: room_scope_rotation_seconds_def MIN_ROOM_SCOPE_ROTATION_SECONDS_def MAX_ROOM_SCOPE_ROTATION_SECONDS_def)

lemma bucket_window:
  assumes "near cfg s now"
  defines "b \<equiv> current_rotation_bucket now (room_scope_rotation_seconds cfg)"
  shows "f (current_rotation_bucket s (room_scope_rotation_seconds cfg)) \<in> set ((if b > 0 then [f (b - 1)] else []) @ [f b, f (b + 1)])"
proof -
  let ?r = "room_scope_rotation_seconds cfg" and ?a = "current_rotation_bucket s (room_scope_rotation_seconds cfg)"
  have r: "0 < ?r" by (rule rotation_pos)
  have "?a \<le> b + 1" "b \<le> ?a + 1"
    using assms(1) div_neighbours [of s now ?r] div_neighbours [of now s ?r] r
    by (auto simp: near_def b_def current_rotation_bucket_def max_def)
  then consider "?a = b" | "?a = b + 1" | "b = ?a + 1" by linarith
  then show ?thesis by cases auto
qed

lemma room_scope_window:
  "near cfg s now \<Longrightarrow> current_room_scope C s cfg room \<in> set (accepted_room_scopes C now cfg room)"
  using bucket_window [of cfg s now "room_scope C cfg room"] by (simp add: current_room_scope_def accepted_room_scopes_def Let_def)

lemma sentinel_window:
  "near cfg s now \<Longrightarrow> current_broadcast_sentinel C s cfg room \<in> set (accepted_broadcast_sentinels C now cfg room)"
  using bucket_window [of cfg s now "broadcast_sentinel C cfg room"]
  by (simp add: current_broadcast_sentinel_def accepted_broadcast_sentinels_def Let_def)

section \<open>Round trips\<close>

lemma envelope_roundtrip:
  assumes "json_laws J" and "length mid = 16" and "encode_message_envelope_with_joined_at J mid d seq joined = Inr bs"
  shows "decode_message_envelope J bs = Inr \<lparr>de_data = d, de_message_id = Some (random_subscription_id mid), de_sequence = Some seq,
    de_sender_joined_at = joined\<rparr>"
proof -
  let ?env = "\<lparr>me_version = 1, me_message_id = random_subscription_id mid, me_sequence = seq, me_sender_joined_at = joined, me_data = d\<rparr>"
  from assms(3) have vec: "to_vec J ?env = Inr bs" and seq: "seq \<noteq> 0" and len: "length bs \<le> MAX_NOSTR_SIGNALING_PLAINTEXT_BYTES"
    by (auto simp: encode_message_envelope_with_joined_at_def Let_def split: if_splits sum.splits)
  from assms(1) vec obtain v where v: "from_slice J bs = Inr v" "has_key J v ''Version''" "envelope_from_value J v = Inr ?env"
    by (auto simp: json_laws_def)
  with seq len assms(2) show ?thesis
    by (simp add: decode_message_envelope_def Let_def random_subscription_id_def hex_encode_hexdigits)
qed

text \<open>The signed part of a message event, and what the receiver's checks make of it.\<close>

lemma message_event_accepted:
  fixes C canonical ident now s cfg room p_value rnd16 c
  defines "tags \<equiv> [event_tag TAG_INVITE_SCOPE (current_room_scope C s cfg room), event_tag TAG_P p_value,
      event_tag TAG_NONCE (random_subscription_id rnd16), event_tag TAG_EXPIRATION (u64_to_string (codec_expires_at s cfg))]"
  defines "e \<equiv> unsigned_event C canonical s (public_key ident) (message_kind cfg) tags c"
  assumes "crypto_laws C" and "key_pair C ident x" and "sign_event C (secret_key ident) e = Inr sg"
    and "length rnd16 = 16" and "length p_value \<le> 2048" and "length c \<le> MAX_NOSTR_EVENT_CONTENT_CHARS"
    and "clocks_fit cfg s now" and "s \<le> now + max_clock_skew_seconds cfg" and "now < s + ttl_seconds cfg" and "near cfg s now"
    and "0 < ttl_seconds cfg"
  shows "validate_event_shape (e\<lparr>ev_sig := sg\<rparr>) = Inr ()" and "verify_event C canonical (e\<lparr>ev_sig := sg\<rparr>) = Inr ()"
    and "validate_event_basics now cfg (message_kind cfg) (e\<lparr>ev_sig := sg\<rparr>) = Inr ()"
    and "in_room_scope C now cfg (e\<lparr>ev_sig := sg\<rparr>) room"
    and "tag_value (e\<lparr>ev_sig := sg\<rparr>) TAG_P = Some p_value"
    and "tag_value (e\<lparr>ev_sig := sg\<rparr>) TAG_EXPIRATION = Some (u64_to_string (s + ttl_seconds cfg))"
    and "ev_content (e\<lparr>ev_sig := sg\<rparr>) = c" and "ev_pubkey (e\<lparr>ev_sig := sg\<rparr>) = public_key ident"
proof -
  note signed = signed_event_verifies [OF assms(3,4) e_def [THEN meta_eq_to_obj_eq] assms(5)]
  have fields: "ev_pubkey e = public_key ident" "ev_created_at e = s" "ev_kind e = message_kind cfg" "ev_tags e = tags" "ev_content e = c"
    by (simp_all add: e_def unsigned_event_def refresh_id_def)
  then show "ev_content (e\<lparr>ev_sig := sg\<rparr>) = c" "ev_pubkey (e\<lparr>ev_sig := sg\<rparr>) = public_key ident" by simp_all
  have exp: "codec_expires_at s cfg = s + ttl_seconds cfg" and le: "s + ttl_seconds cfg \<le> u64_max"
    using assms(9) by (auto simp: codec_expires_at_def saturating_add64_def clocks_fit_def)
  have scope: "length (current_room_scope C s cfg room) = 64"
    using sha256_hex_props [OF assms(3)] by (simp add: current_room_scope_def room_scope_def derive_room_scope_def)
  show shape: "validate_event_shape (e\<lparr>ev_sig := sg\<rparr>) = Inr ()"
    using signed(2-4) fields assms(6-8) scope u64_string_length [OF le]
    by (intro validate_event_shape_ok)
      (simp_all add: tags_def exp event_tag_ok MAX_NOSTR_EVENT_TAGS_def tag_defs random_subscription_id_def)
  show "verify_event C canonical (e\<lparr>ev_sig := sg\<rparr>) = Inr ()" by (rule signed(1))
  show p: "tag_value (e\<lparr>ev_sig := sg\<rparr>) TAG_P = Some p_value"
    and ex: "tag_value (e\<lparr>ev_sig := sg\<rparr>) TAG_EXPIRATION = Some (u64_to_string (s + ttl_seconds cfg))"
    by (simp_all add: tag_value_def fields tags_def event_tag_def tag_defs exp)
  show "validate_event_basics now cfg (message_kind cfg) (e\<lparr>ev_sig := sg\<rparr>) = Inr ()"
    using basics_window [OF shape _ _ assms(13) ex assms(9), of "message_kind cfg"] fields assms(10,11) by simp
  have "has_tag_value (e\<lparr>ev_sig := sg\<rparr>) TAG_INVITE_SCOPE (current_room_scope C s cfg room)"
    by (simp add: has_tag_value_def fields tags_def event_tag_def)
  with room_scope_window [OF assms(12)] show "in_room_scope C now cfg (e\<lparr>ev_sig := sg\<rparr>) room"
    by (auto simp: in_room_scope_def list_ex_iff)
qed

lemma message_event_decodes:
  assumes "crypto_laws C" and "json_laws J" and "random_ok R" and "key_pair C a xa" and "key_pair C b xb" and "dh_agree C a xa b xb"
    and "length mid = 16" and "length rnd16 = 16" and "0 < ttl_seconds cfg"
    and "clocks_fit cfg s now" and "s \<le> now + max_clock_skew_seconds cfg" and "now < s + ttl_seconds cfg" and "near cfg s now"
    and "receiver_id d = local \<or> is_broadcast (receiver_id d)"
    and "build_message_event_with_sequence_and_joined_at C canonical J psk s mid rnd16 R cfg a (public_key b) d seq joined = Inr e"
    and "\<not> looks_legacy (ev_content e)"
  shows "decode_message_event C canonical J psk now cfg b local e (room_id d) =
    Inr \<lparr>dm_sender_pubkey = public_key a, dm_data = d, dm_expires_at = s + ttl_seconds cfg,
         dm_message_id = Some (random_subscription_id mid), dm_sequence = Some seq, dm_sender_joined_at = joined\<rparr>"
proof -
  let ?p = "if is_broadcast (receiver_id d) then current_broadcast_sentinel C s cfg (room_id d) else public_key b"
  let ?tags = "[event_tag TAG_INVITE_SCOPE (current_room_scope C s cfg (room_id d)), event_tag TAG_P ?p,
      event_tag TAG_NONCE (random_subscription_id rnd16), event_tag TAG_EXPIRATION (u64_to_string (codec_expires_at s cfg))]"
  from assms(15) obtain bs c sg where bs: "encode_message_envelope_with_joined_at J mid d seq joined = Inr bs"
    and c: "encrypt C psk R a (public_key b) bs = Inr c"
    and sg: "sign_event C (secret_key a) (unsigned_event C canonical s (public_key a) (message_kind cfg) ?tags c) = Inr sg"
    and e: "e = (unsigned_event C canonical s (public_key a) (message_kind cfg) ?tags c)\<lparr>ev_sig := sg\<rparr>"
    unfolding build_message_event_with_sequence_and_joined_at_def Let_def by (auto split: sum.splits)
  have pubs: "length (public_key b) = 64" using assms(5) by (simp add: key_pair_def)
  have p: "length ?p \<le> 2048" using pubs sha256_hex_props [OF assms(1)]
    by (simp add: current_broadcast_sentinel_def broadcast_sentinel_def derive_broadcast_sentinel_def)
  have content: "ev_content e = c" by (simp add: e unsigned_event_def refresh_id_def)
  note dec = encrypt_decrypt [OF assms(1,3) pair_key_symmetric [OF assms(4,5,6)] c assms(16) [unfolded content]]
  note acc = message_event_accepted [OF assms(1,4) sg assms(8) p dec(2) assms(10-13,9), folded e]
  have "check_addressed C now cfg b e (room_id d) = Inr ()"
    using acc(4,5) sentinel_window [OF assms(13), of C "room_id d"] by (auto simp: check_addressed_def)
  moreover have "parse_u64 (u64_to_string (s + ttl_seconds cfg)) = Some (s + ttl_seconds cfg)"
    using assms(10) by (intro parse_u64_to_string) (auto simp: clocks_fit_def)
  ultimately show ?thesis
    using acc dec(1) envelope_roundtrip [OF assms(2,7) bs] assms(14) by (auto simp: decode_message_event_def)
qed

text \<open>A small instance of the crates, in which every signature verifies and encryption appends a tag.\<close>

definition demo_crypto :: crypto_prims where
  "demo_crypto = \<lparr>sha256 = \<lambda>_. replicate 32 7, secret_ok = \<lambda>_. True, point_ok = \<lambda>_. True, diffie_hellman = \<lambda>_ _. [],
     hkdf_expand = \<lambda>_ _ _. Some [], aes_encrypt = \<lambda>_ _ _ m. Some (m @ replicate 16 0),
     aes_decrypt = \<lambda>_ _ _ c. Some (take (length c - 16) c), sign_prehash = \<lambda>_ _. Some (replicate 64 1),
     verifying_key_ok = \<lambda>_. True, signature_ok = \<lambda>_. True, verify_prehash = \<lambda>_ _ _. True\<rparr>"

definition demo_data :: signaling_data where
  "demo_data = \<lparr>sender_id = NodeId ''a'', receiver_id = NodeId ''b'', room_id = ''room'', sdata = ''x'', signaling_type = Offer\<rparr>"

definition demo_message :: nostr_message_envelope where
  "demo_message = \<lparr>me_version = 1, me_message_id = random_subscription_id (replicate 16 3), me_sequence = 1,
     me_sender_joined_at = None, me_data = demo_data\<rparr>"

definition demo_json :: "nostr_message_envelope json_prims" where
  "demo_json = \<lparr>to_vec = \<lambda>env. if env = demo_message then Inr [9] else Inl (Serialization []),
     from_slice = \<lambda>_. Inr demo_message, has_key = \<lambda>_ _. True, data_from_value = \<lambda>v. Inr (me_data v), envelope_from_value = Inr\<rparr>"

definition demo_identity :: "nat \<Rightarrow> identity" where
  "demo_identity n = \<lparr>public_key = hex_encode (replicate 32 (of_nat n)), secret_key = [of_nat n]\<rparr>"

definition demo_random :: enc_random where
  "demo_random = \<lparr>rnd_nonce = replicate 12 0, rnd_cover = [255], rnd_size = 0, rnd_fill = \<lambda>n. replicate n 0\<rparr>"

definition demo_config :: nostr_codec_config where
  "demo_config = \<lparr>discovery_kind = 25049, message_kind = 25050, ttl_seconds = 600, max_clock_skew_seconds = 300,
     invite_scope = ''i'', room_scope_secret = [1]\<rparr>"

lemma demo_laws: "crypto_laws demo_crypto" "json_laws demo_json" "random_ok demo_random"
  "key_pair demo_crypto (demo_identity n) (replicate 32 (of_nat n))"
  "dh_agree demo_crypto a xa b xb"
  by (simp_all add: crypto_laws_def demo_crypto_def json_laws_def demo_json_def random_ok_def demo_random_def payload_lengths
      key_pair_def demo_identity_def dh_agree_def)

lemma base64url_head: "\<exists>cs. encode_base64url_no_pad (b # bs) = BASE64URL ! drop_bit 2 (unat b) # cs"
  by (cases "map unat (b # bs)" rule: base64_indices.cases) (auto simp: encode_base64url_no_pad_def)

lemma not_legacy_head: "hex_nibble c = Inl err \<Longrightarrow> \<not> looks_legacy (c # cs)"
  by (cases cs) (auto simp: looks_legacy_def hex_decode_def)

lemma cover_not_legacy: "\<not> looks_legacy (encode_base64url_no_pad (255 # bs))"
proof -
  obtain cs where "encode_base64url_no_pad (255 # bs) = BASE64URL ! drop_bit 2 (unat (255 :: u8)) # cs"
    using base64url_head [of 255 bs] by blast
  moreover have "drop_bit 2 (unat (255 :: u8)) = 63" by (simp add: drop_bit_eq_div)
  moreover have "hex_nibble (BASE64URL ! 63) = Inl (Signaling ''invalid hex character'')" by code_simp
  ultimately show ?thesis using not_legacy_head by simp
qed

lemma signed_exists:
  assumes "\<exists>sg. sign_event C sk u = Inr sg"
  shows "\<exists>e. (case sign_event C sk u of Inl err \<Rightarrow> Inl err | Inr sg \<Rightarrow> Inr (u\<lparr>ev_sig := sg\<rparr>)) = Inr e \<and> ev_content e = ev_content u"
  using assms by auto

lemma unsigned_content: "ev_content (unsigned_event C canonical t k n tags c) = c"
  by (simp add: unsigned_event_def refresh_id_def)

lemma demo_build:
  obtains e where "build_message_event_with_sequence_and_joined_at demo_crypto (\<lambda>_ _ _ _ _. []) demo_json [] 1000 (replicate 16 3) (replicate 16 4)
      demo_random demo_config (demo_identity 1) (public_key (demo_identity 2)) demo_data 1 None = Inr e"
    and "\<not> looks_legacy (ev_content e)"
proof -
  let ?C = demo_crypto and ?canon = "\<lambda>_ _ _ _ _. [] :: bytes" and ?a = "demo_identity 1" and ?b = "demo_identity 2"
  let ?build = "build_message_event_with_sequence_and_joined_at ?C ?canon demo_json [] 1000 (replicate 16 3) (replicate 16 4)
      demo_random demo_config ?a (public_key ?b) demo_data 1 None"
  have env: "encode_message_envelope_with_joined_at demo_json (replicate 16 3) demo_data 1 None = Inr [9]"
    by (simp add: encode_message_envelope_with_joined_at_def demo_json_def demo_message_def MAX_NOSTR_SIGNALING_PLAINTEXT_BYTES_def)
  have key: "pair_key ?C [] ?a (public_key ?b) = Inr []"
    using public_key_from_xonly_ok [OF demo_laws(4) [of 2]] by (simp add: pair_key_def demo_crypto_def)
  obtain rest where enc: "encrypt ?C [] demo_random ?a (public_key ?b) [9] = Inr (encode_base64url_no_pad (255 # rest))"
    using key by (simp add: encrypt_def pad_plaintext_ok MAX_NOSTR_SIGNALING_PLAINTEXT_BYTES_def demo_random_def) (simp add: demo_crypto_def)
  have sign: "\<exists>sg. sign_event ?C (secret_key ?a) (unsigned_event ?C ?canon t k n tags c) = Inr sg" for t k n tags c
    by (simp add: sign_event_def unsigned_event_def refresh_id_def event_id_bytes_def hex_decode_exact_def sha256_hex_def hex_roundtrip)
      (simp add: demo_crypto_def)
  have "\<exists>e. ?build = Inr e \<and> ev_content e = encode_base64url_no_pad (255 # rest)"
    unfolding build_message_event_with_sequence_and_joined_at_def env enc Let_def sum.case
    using signed_exists [OF sign] unfolding unsigned_content .
  then show ?thesis using that cover_not_legacy by metis
qed

section \<open>Properties\<close>

text \<open>
  Property C34. A signaling message survives the relay: an event built for a peer of the same room is
  decoded by that peer to the same signaling data, sender, sequence number and message identifier,
  whenever the receiver's clock is within the allowed skew behind and the time to live ahead of the
  sender's and at most one scope rotation away, whether it is addressed to the peer or broadcast to the
  room. The one exception is a ciphertext whose text reads as the hexadecimal format of an older version.
\<close>

theorem message_event_roundtrip:
  assumes "crypto_laws C" and "json_laws J" and "random_ok R" and "key_pair C a xa" and "key_pair C b xb" and "dh_agree C a xa b xb"
    and "length mid = 16" and "length rnd16 = 16" and "0 < ttl_seconds cfg"
    and "clocks_fit cfg s now" and "s \<le> now + max_clock_skew_seconds cfg" and "now < s + ttl_seconds cfg" and "near cfg s now"
    and "receiver_id d = local \<or> is_broadcast (receiver_id d)"
    and "build_message_event_with_sequence_and_joined_at C canonical J psk s mid rnd16 R cfg a (public_key b) d seq joined = Inr e"
    and "\<not> looks_legacy (ev_content e)"
  shows "decode_message_event C canonical J psk now cfg b local e (room_id d) =
    Inr \<lparr>dm_sender_pubkey = public_key a, dm_data = d, dm_expires_at = s + ttl_seconds cfg,
         dm_message_id = Some (random_subscription_id mid), dm_sequence = Some seq, dm_sender_joined_at = joined\<rparr>"
  using message_event_decodes [OF assms] .

theorem message_event_roundtrip_witness:
  "\<exists>e. build_message_event_with_sequence_and_joined_at demo_crypto (\<lambda>_ _ _ _ _. []) demo_json [] 1000 (replicate 16 3) (replicate 16 4)
         demo_random demo_config (demo_identity 1) (public_key (demo_identity 2)) demo_data 1 None = Inr e
     \<and> decode_message_event demo_crypto (\<lambda>_ _ _ _ _. []) demo_json [] 1200 demo_config (demo_identity 2) (NodeId ''b'') e ''room'' =
         Inr \<lparr>dm_sender_pubkey = public_key (demo_identity 1), dm_data = demo_data, dm_expires_at = 1600,
              dm_message_id = Some (random_subscription_id (replicate 16 3)), dm_sequence = Some 1, dm_sender_joined_at = None\<rparr>"
proof -
  obtain e where e: "build_message_event_with_sequence_and_joined_at demo_crypto (\<lambda>_ _ _ _ _. []) demo_json [] 1000 (replicate 16 3) (replicate 16 4)
      demo_random demo_config (demo_identity 1) (public_key (demo_identity 2)) demo_data 1 None = Inr e" and c: "\<not> looks_legacy (ev_content e)"
    by (rule demo_build)
  have "decode_message_event demo_crypto (\<lambda>_ _ _ _ _. []) demo_json [] 1200 demo_config (demo_identity 2) (NodeId ''b'') e (room_id demo_data) =
      Inr \<lparr>dm_sender_pubkey = public_key (demo_identity 1), dm_data = demo_data, dm_expires_at = 1000 + ttl_seconds demo_config,
           dm_message_id = Some (random_subscription_id (replicate 16 3)), dm_sequence = Some 1, dm_sender_joined_at = None\<rparr>"
    by (rule message_event_roundtrip [OF demo_laws(1-3) demo_laws(4) [of 1] demo_laws(4) [of 2] demo_laws(5) _ _ _ _ _ _ _ _ e])
      (simp_all add: c demo_config_def clocks_fit_def near_def room_scope_rotation_seconds_def demo_data_def u64_max_def
        MIN_ROOM_SCOPE_ROTATION_SECONDS_def MAX_ROOM_SCOPE_ROTATION_SECONDS_def)
  with e show ?thesis by (simp add: demo_config_def demo_data_def)
qed

text \<open>
  Discovery announcements survive the relay: an announcement built by a member of a room is
  accepted by every other member whose clock is within the same limits as for messages, and yields the
  announcer's public key, its expiration, its rank in the room and its time of joining.
\<close>

lemma discovery_event_roundtrip:
  assumes "crypto_laws C" and "key_pair C a xa" and "length rnd16 = 16" and "0 < ttl_seconds cfg"
    and "clocks_fit cfg s now" and "s \<le> now + max_clock_skew_seconds cfg" and "now < s + ttl_seconds cfg" and "near cfg s now"
    and "\<And>j. joined = Some j \<Longrightarrow> j \<le> u64_max"
    and "build_discovery_event_with_joined_at C canonical s rnd16 cfg a room joined = Inr e"
  shows "decode_discovery_event C canonical now cfg e room =
    Inr \<lparr>dd_signaling_pubkey = public_key a, dd_expires_at = s + ttl_seconds cfg,
         dd_topology_rank = topology_rank C cfg room (public_key a), dd_joined_at = joined\<rparr>"
proof -
  let ?nonce = "random_subscription_id rnd16"
  let ?tags = "[event_tag TAG_INVITE_SCOPE (current_room_scope C s cfg room), event_tag TAG_NONCE ?nonce,
      event_tag TAG_EXPIRATION (u64_to_string (codec_expires_at s cfg)),
      event_tag TAG_DISCOVERY_PROOF (discovery_proof C cfg room (public_key a) (codec_expires_at s cfg) ?nonce)]
      @ (case joined of None \<Rightarrow> [] | Some j \<Rightarrow> [event_tag TAG_JOINED_AT (u64_to_string j)])"
  let ?u = "unsigned_event C canonical s (public_key a) (discovery_kind cfg) ?tags []"
  from assms(10) obtain sg where sg: "sign_event C (secret_key a) ?u = Inr sg" and e: "e = ?u\<lparr>ev_sig := sg\<rparr>"
    unfolding build_discovery_event_with_joined_at_def Let_def by (auto split: sum.splits)
  note signed = signed_event_verifies [OF assms(1,2) refl sg]
  have fields: "ev_pubkey e = public_key a" "ev_created_at e = s" "ev_kind e = discovery_kind cfg" "ev_tags e = ?tags" "ev_content e = []"
    "ev_id e = ev_id ?u" "ev_sig e = sg"
    by (simp_all add: e unsigned_event_def refresh_id_def)
  have exp: "codec_expires_at s cfg = s + ttl_seconds cfg" and le: "s + ttl_seconds cfg \<le> u64_max"
    using assms(5) by (auto simp: codec_expires_at_def saturating_add64_def clocks_fit_def)
  have hashes: "length (current_room_scope C s cfg room) = 64" "length (discovery_proof C cfg room k x ?nonce) = 64" for k x
    using sha256_hex_props [OF assms(1)]
    by (simp_all add: current_room_scope_def room_scope_def derive_room_scope_def discovery_proof_def derive_discovery_proof_def)
  have shape: "validate_event_shape e = Inr ()"
    using signed(2-4) assms(3,9) hashes u64_string_length [OF le] u64_string_length
    by (intro validate_event_shape_ok, unfold fields)
      (simp_all add: exp event_tag_ok MAX_NOSTR_EVENT_TAGS_def MAX_NOSTR_EVENT_CONTENT_CHARS_def tag_defs random_subscription_id_def
        split: option.splits)
  have tags: "tag_value e TAG_EXPIRATION = Some (u64_to_string (s + ttl_seconds cfg))" "tag_value e TAG_NONCE = Some ?nonce"
    "tag_value e TAG_DISCOVERY_PROOF = Some (discovery_proof C cfg room (public_key a) (s + ttl_seconds cfg) ?nonce)"
    "tag_value e TAG_JOINED_AT = map_option u64_to_string joined"
    by (simp_all add: tag_value_def fields event_tag_def tag_defs exp split: option.splits)
  have "has_tag_value e TAG_INVITE_SCOPE (current_room_scope C s cfg room)"
    by (simp add: has_tag_value_def fields event_tag_def)
  with room_scope_window [OF assms(8)] have scope: "in_room_scope C now cfg e room"
    by (auto simp: in_room_scope_def list_ex_iff)
  have "Option.bind (map_option u64_to_string joined) parse_u64 = joined"
    using assms(9) by (cases joined) (simp_all add: parse_u64_to_string)
  moreover have "verify_event C canonical e = Inr ()" using signed(1) unfolding e .
  ultimately show ?thesis
    using shape basics_window [OF shape fields(3,2) assms(4) tags(1) assms(5)] assms(6,7) scope tags
      event_expiration_fresh [OF tags(1) le]
    by (simp add: decode_discovery_event_def validate_discovery_event_def fields(1))
qed

theorem discovery_event_roundtrip_witness:
  "\<exists>e. build_discovery_event_with_joined_at demo_crypto (\<lambda>_ _ _ _ _. []) 1000 (replicate 16 4) demo_config (demo_identity 1) ''room''
         (Some 5) = Inr e
     \<and> decode_discovery_event demo_crypto (\<lambda>_ _ _ _ _. []) 800 demo_config e ''room'' =
         Inr \<lparr>dd_signaling_pubkey = public_key (demo_identity 1), dd_expires_at = 1600,
              dd_topology_rank = topology_rank demo_crypto demo_config ''room'' (public_key (demo_identity 1)), dd_joined_at = Some 5\<rparr>"
proof -
  let ?C = demo_crypto and ?canon = "\<lambda>_ _ _ _ _. [] :: bytes" and ?a = "demo_identity 1"
  have sign: "\<exists>sg. sign_event ?C (secret_key ?a) (unsigned_event ?C ?canon t k n tags c) = Inr sg" for t k n tags c
    by (simp add: sign_event_def unsigned_event_def refresh_id_def event_id_bytes_def hex_decode_exact_def sha256_hex_def hex_roundtrip)
      (simp add: demo_crypto_def)
  obtain e where e: "build_discovery_event_with_joined_at ?C ?canon 1000 (replicate 16 4) demo_config ?a ''room'' (Some 5) = Inr e"
    unfolding build_discovery_event_with_joined_at_def Let_def using signed_exists [OF sign] by blast
  have "decode_discovery_event ?C ?canon 800 demo_config e ''room'' =
      Inr \<lparr>dd_signaling_pubkey = public_key ?a, dd_expires_at = 1000 + ttl_seconds demo_config,
           dd_topology_rank = topology_rank ?C demo_config ''room'' (public_key ?a), dd_joined_at = Some 5\<rparr>"
    by (rule discovery_event_roundtrip [OF demo_laws(1) demo_laws(4) [of 1] _ _ _ _ _ _ _ e])
      (simp_all add: demo_config_def clocks_fit_def near_def room_scope_rotation_seconds_def u64_max_def
        MIN_ROOM_SCOPE_ROTATION_SECONDS_def MAX_ROOM_SCOPE_ROTATION_SECONDS_def)
  with e show ?thesis by (simp add: demo_config_def)
qed

text \<open>
  Property C36. The acceptance window of an honest event: an event stamped with the sender's time and
  expiring one time to live later passes the time checks exactly while the sender's clock is at most
  the allowed skew ahead of the receiver's and the receiver's clock has not reached the expiration. The
  skew tolerance does not extend the window past the expiration.
\<close>

theorem event_acceptance_window:
  assumes "validate_event_shape e = Inr ()" and "ev_kind e = kind" and "0 < ttl_seconds cfg" and "ev_created_at e = s"
    and "tag_value e TAG_EXPIRATION = Some (u64_to_string (s + ttl_seconds cfg))" and "clocks_fit cfg s now"
  shows "validate_event_basics now cfg kind e = Inr () \<longleftrightarrow> s \<le> now + max_clock_skew_seconds cfg \<and> now < s + ttl_seconds cfg"
  using basics_window assms by blast

definition demo_event :: nostr_event where
  "demo_event = \<lparr>ev_id = hex_encode (replicate 32 0), ev_pubkey = hex_encode (replicate 32 0), ev_created_at = 1000, ev_kind = 25050,
     ev_tags = [event_tag TAG_EXPIRATION (u64_to_string 1600)], ev_content = [], ev_sig = hex_encode (replicate 64 0)\<rparr>"

theorem event_acceptance_window_witness:
  "validate_event_basics 1599 demo_config 25050 demo_event = Inr () \<and> validate_event_basics 1600 demo_config 25050 demo_event \<noteq> Inr ()
   \<and> validate_event_basics 700 demo_config 25050 demo_event = Inr () \<and> validate_event_basics 699 demo_config 25050 demo_event \<noteq> Inr ()"
proof -
  have le: "1600 \<le> u64_max" by (simp add: u64_max_def)
  have shape: "validate_event_shape demo_event = Inr ()"
    using u64_string_length [OF le]
    by (intro validate_event_shape_ok) (simp_all add: demo_event_def is_hex_len_encode MAX_NOSTR_EVENT_CONTENT_CHARS_def
        MAX_NOSTR_EVENT_TAGS_def event_tag_ok tag_defs)
  have "validate_event_basics now demo_config 25050 demo_event = Inr () \<longleftrightarrow> 1000 \<le> now + 300 \<and> now < 1600" if "now \<le> 2000" for now
    using event_acceptance_window [OF shape, of 25050 demo_config 1000 now] that
    by (simp add: demo_event_def demo_config_def tag_value_def event_tag_def clocks_fit_def u64_max_def)
  then show ?thesis by simp
qed



end
