(* ===== verification/Nostr_Discovery.thy ===== *)
theory Nostr_Discovery
  imports Nostr_Codec Ttl_Cache "HOL-Library.Product_Lexorder"
begin

text \<open>
  Who is in the room and who answers whom: the discovery table with its node bindings
  (\<open>signaling/nostr/identity.rs\<close>), the session rules built on it (\<open>session.rs\<close>), the bounded bootstrap
  probes (\<open>bootstrap.rs\<close>), and the choice between relay and overlay signaling (\<open>signaling/relay.rs\<close>).
  \<open>now\<close> is the Unix clock in seconds where a table is involved, and a monotonic clock in milliseconds
  for the probes.
\<close>

section \<open>Discovery table\<close>

record discovery_entry =
  de_signaling_pubkey :: string
  de_expires_at :: nat
  de_topology_rank :: string

record node_binding =
  nb_pubkey :: string
  nb_epoch :: "nat option"

datatype bind_outcome = Known | NewBinding | Rebound string

definition is_known :: "bind_outcome \<Rightarrow> bool" where
  "is_known b \<longleftrightarrow> b = Known"

fun rebound_from :: "bind_outcome \<Rightarrow> string option" where
  "rebound_from (Rebound previous) = Some previous"
| "rebound_from _ = None"

fun newer_epoch :: "nat option \<Rightarrow> nat option \<Rightarrow> nat option" where
  "newer_epoch (Some stored) (Some incoming) = Some (max stored incoming)"
| "newer_epoch (Some stored) None = Some stored"
| "newer_epoch None (Some incoming) = Some incoming"
| "newer_epoch None None = None"

record discovery_table =
  by_pubkey :: "(string, discovery_entry) hmap"
  node_to_pubkey :: "(node_id, node_binding) hmap"

definition table_default :: discovery_table where
  "table_default = \<lparr>by_pubkey = [], node_to_pubkey = []\<rparr>"

definition sweep_expired :: "nat \<Rightarrow> discovery_table \<Rightarrow> discovery_table" where
  "sweep_expired now t =
     (let bp = hm_retain (\<lambda>_ entry. de_expires_at entry > now) (by_pubkey t) in
      \<lparr>by_pubkey = bp, node_to_pubkey = hm_retain (\<lambda>_ binding. hm_contains bp (nb_pubkey binding)) (node_to_pubkey t)\<rparr>)"

definition insert_pubkey_with_rank :: "nat \<Rightarrow> string \<Rightarrow> nat \<Rightarrow> string \<Rightarrow> discovery_table \<Rightarrow> discovery_table" where
  "insert_pubkey_with_rank now pubkey expires_at rank t =
     (let t = sweep_expired now t;
          expires_at = (case hm_get (by_pubkey t) pubkey of None \<Rightarrow> expires_at | Some entry \<Rightarrow> max (de_expires_at entry) expires_at)
      in t\<lparr>by_pubkey := hm_insert pubkey
             \<lparr>de_signaling_pubkey = pubkey, de_expires_at = expires_at, de_topology_rank = rank\<rparr> (by_pubkey t)\<rparr>)"

definition insert_pubkey :: "nat \<Rightarrow> string \<Rightarrow> nat \<Rightarrow> discovery_table \<Rightarrow> discovery_table" where
  "insert_pubkey now pubkey expires_at t = insert_pubkey_with_rank now pubkey expires_at pubkey t"

definition epoch_is_newer :: "nat option \<Rightarrow> nat option \<Rightarrow> bool" where
  "epoch_is_newer stored sender =
     (case sender of None \<Rightarrow> False
      | Some candidate \<Rightarrow> (case stored of None \<Rightarrow> True | Some s \<Rightarrow> candidate > s))"

text \<open>The two inserts at the end of \<open>bind_node_with_epoch\<close>.\<close>

definition bind_insert ::
  "nat \<Rightarrow> node_id \<Rightarrow> string \<Rightarrow> nat \<Rightarrow> string \<Rightarrow> nat option \<Rightarrow> discovery_table \<Rightarrow> discovery_table" where
  "bind_insert now node pubkey expires_at rank epoch t =
     (let t = insert_pubkey_with_rank now pubkey expires_at rank t in
      t\<lparr>node_to_pubkey := hm_insert node \<lparr>nb_pubkey = pubkey, nb_epoch = epoch\<rparr> (node_to_pubkey t)\<rparr>)"

definition bind_node_with_epoch ::
  "nat \<Rightarrow> node_id \<Rightarrow> string \<Rightarrow> nat \<Rightarrow> string \<Rightarrow> nat option \<Rightarrow> bool \<Rightarrow> discovery_table \<Rightarrow> bind_outcome result \<times> discovery_table" where
  "bind_node_with_epoch now node pubkey expires_at rank sender_epoch allow_rebind t =
     (let t = sweep_expired now t in
      case hm_get (node_to_pubkey t) node of
        None \<Rightarrow> (Inr NewBinding, bind_insert now node pubkey expires_at rank sender_epoch t)
      | Some existing \<Rightarrow>
          if nb_pubkey existing = pubkey then
            (Inr Known, bind_insert now node pubkey expires_at rank (newer_epoch (nb_epoch existing) sender_epoch) t)
          else if epoch_is_newer (nb_epoch existing) sender_epoch \<or> allow_rebind then
            (Inr (Rebound (nb_pubkey existing)),
             bind_insert now node pubkey expires_at rank sender_epoch (t\<lparr>by_pubkey := hm_remove (nb_pubkey existing) (by_pubkey t)\<rparr>))
          else (Inl (Signaling ''Nostr sender node id changed pubkey''), t))"

definition bind_node_checked_with_rank_and_rebind ::
  "nat \<Rightarrow> node_id \<Rightarrow> string \<Rightarrow> nat \<Rightarrow> string \<Rightarrow> bool \<Rightarrow> discovery_table \<Rightarrow> bool result \<times> discovery_table" where
  "bind_node_checked_with_rank_and_rebind now node pubkey expires_at rank allow_rebind t =
     (case bind_node_with_epoch now node pubkey expires_at rank None allow_rebind t of
        (Inl err, t) \<Rightarrow> (Inl err, t)
      | (Inr outcome, t) \<Rightarrow> (Inr (is_known outcome), t))"

definition bind_node_checked_with_rank ::
  "nat \<Rightarrow> node_id \<Rightarrow> string \<Rightarrow> nat \<Rightarrow> string \<Rightarrow> discovery_table \<Rightarrow> bool result \<times> discovery_table" where
  "bind_node_checked_with_rank now node pubkey expires_at rank t =
     bind_node_checked_with_rank_and_rebind now node pubkey expires_at rank False t"

definition bind_node_checked :: "nat \<Rightarrow> node_id \<Rightarrow> string \<Rightarrow> nat \<Rightarrow> discovery_table \<Rightarrow> bool result \<times> discovery_table" where
  "bind_node_checked now node pubkey expires_at t = bind_node_checked_with_rank now node pubkey expires_at pubkey t"

definition bind_node :: "nat \<Rightarrow> node_id \<Rightarrow> string \<Rightarrow> nat \<Rightarrow> discovery_table \<Rightarrow> discovery_table" where
  "bind_node now node pubkey expires_at t = snd (bind_node_checked now node pubkey expires_at t)"

definition pubkey_for_node :: "nat \<Rightarrow> node_id \<Rightarrow> discovery_table \<Rightarrow> string option \<times> discovery_table" where
  "pubkey_for_node now node t =
     (let t = sweep_expired now t in (map_option nb_pubkey (hm_get (node_to_pubkey t) node), t))"

definition epoch_for_node :: "node_id \<Rightarrow> discovery_table \<Rightarrow> nat option" where
  "epoch_for_node node t = Option.bind (hm_get (node_to_pubkey t) node) nb_epoch"

definition unbind_node :: "node_id \<Rightarrow> discovery_table \<Rightarrow> string option \<times> discovery_table" where
  "unbind_node node t =
     (case hm_get (node_to_pubkey t) node of
        None \<Rightarrow> (None, t)
      | Some binding \<Rightarrow>
          (Some (nb_pubkey binding),
           \<lparr>by_pubkey = hm_remove (nb_pubkey binding) (by_pubkey t), node_to_pubkey = hm_remove node (node_to_pubkey t)\<rparr>))"

definition table_touch_node :: "nat \<Rightarrow> node_id \<Rightarrow> nat \<Rightarrow> discovery_table \<Rightarrow> discovery_table" where
  "table_touch_node now node ttl_secs t =
     (let t = sweep_expired now t in
      case hm_get (node_to_pubkey t) node of
        None \<Rightarrow> t
      | Some binding \<Rightarrow>
          t\<lparr>by_pubkey := hm_update (nb_pubkey binding)
             (\<lambda>entry. entry\<lparr>de_expires_at := max (de_expires_at entry) (saturating_add64 now ttl_secs)\<rparr>) (by_pubkey t)\<rparr>)"

definition active_pubkeys :: "nat \<Rightarrow> discovery_table \<Rightarrow> string list \<times> discovery_table" where
  "active_pubkeys now t = (let t = sweep_expired now t in (map fst (by_pubkey t), t))"

definition expires_at_for_pubkey :: "string \<Rightarrow> discovery_table \<Rightarrow> nat option" where
  "expires_at_for_pubkey pubkey t = map_option de_expires_at (hm_get (by_pubkey t) pubkey)"

definition table_clear :: "discovery_table \<Rightarrow> discovery_table" where
  "table_clear t = \<lparr>by_pubkey = [], node_to_pubkey = []\<rparr>"

section \<open>The responder ring\<close>

text \<open>\<open>Vec::dedup_by\<close> on the public key: an element equal to the last one kept is dropped.\<close>

fun dedup_pubkeys :: "(string \<times> string) list \<Rightarrow> (string \<times> string) list" where
  "dedup_pubkeys (x # y # xs) = (if snd x = snd y then dedup_pubkeys (x # xs) else x # dedup_pubkeys (y # xs))"
| "dedup_pubkeys xs = xs"

definition ranked_members :: "string \<Rightarrow> string \<Rightarrow> string \<Rightarrow> string \<Rightarrow> discovery_table \<Rightarrow> (string \<times> string) list" where
  "ranked_members subject_pubkey subject_rank local_pubkey local_rank t =
     (let ranked = map (\<lambda>(_, entry). (de_topology_rank entry, de_signaling_pubkey entry)) (by_pubkey t);
          ranked = (if local_pubkey \<in> snd ` set ranked then ranked else ranked @ [(local_rank, local_pubkey)]);
          ranked = (if subject_pubkey \<in> snd ` set ranked then ranked else ranked @ [(subject_rank, subject_pubkey)])
      in dedup_pubkeys (sort ranked))"

fun ring_position :: "string \<Rightarrow> (string \<times> string) list \<Rightarrow> nat option" where
  "ring_position k [] = None"
| "ring_position k (x # xs) = (if snd x = k then Some 0 else map_option Suc (ring_position k xs))"

text \<open>The loop over \<open>1..ranked.len()\<close> with its \<open>continue\<close> and \<open>break\<close>.\<close>

fun ring_loop :: "(string \<times> string) list \<Rightarrow> string \<Rightarrow> nat \<Rightarrow> nat \<Rightarrow> nat list \<Rightarrow> string list \<Rightarrow> string list" where
  "ring_loop ranked subject i limit [] responders = responders"
| "ring_loop ranked subject i limit (offset # offsets) responders =
     (let index = (i + length ranked - offset) mod length ranked;
          pubkey = snd (ranked ! index)
      in if pubkey = subject then ring_loop ranked subject i limit offsets responders
         else if length (responders @ [pubkey]) = limit then responders @ [pubkey]
         else ring_loop ranked subject i limit offsets (responders @ [pubkey]))"

definition responder_pubkeys_for ::
  "nat \<Rightarrow> string \<Rightarrow> string \<Rightarrow> string \<Rightarrow> string \<Rightarrow> nat \<Rightarrow> discovery_table \<Rightarrow> string list \<times> discovery_table" where
  "responder_pubkeys_for now subject_pubkey subject_rank local_pubkey local_rank limit t =
     (let t = sweep_expired now t in
      if limit = 0 then ([], t)
      else
        let ranked = ranked_members subject_pubkey subject_rank local_pubkey local_rank t in
        if length ranked \<le> 1 then ([], t)
        else case ring_position subject_pubkey ranked of
               None \<Rightarrow> ([], t)
             | Some i \<Rightarrow> (ring_loop ranked subject_pubkey i limit [1..<length ranked] [], t))"

section \<open>Session rules\<close>

definition DEFAULT_MAX_DISCOVERY_RESPONDERS_PER_PEER :: nat where "DEFAULT_MAX_DISCOVERY_RESPONDERS_PER_PEER = 2"
definition NOSTR_SEQUENCE_REORDER_WINDOW :: nat where "NOSTR_SEQUENCE_REORDER_WINDOW = 64"

datatype message_order_acceptance =
    Accepted
  | DuplicateMessageId
  | ReorderedWithinWindow nat nat
  | StaleSequence nat nat
  | Gap nat nat

fun is_accepted :: "message_order_acceptance \<Rightarrow> bool" where
  "is_accepted Accepted = True"
| "is_accepted (Gap high sequence) = True"
| "is_accepted (ReorderedWithinWindow high sequence) = True"
| "is_accepted _ = False"

definition next_outgoing_sequence :: "string \<Rightarrow> (string, nat) hmap \<Rightarrow> nat \<times> (string, nat) hmap" where
  "next_outgoing_sequence receiver_pubkey outgoing =
     (let sequence = (case hm_get outgoing receiver_pubkey of None \<Rightarrow> 0 | Some s \<Rightarrow> s);
          sequence = max (saturating_add64 sequence 1) 1
      in (sequence, hm_insert receiver_pubkey sequence outgoing))"

definition record_discovery_and_should_request ::
  "crypto_prims \<Rightarrow> nat \<Rightarrow> nostr_codec_config \<Rightarrow> decoded_discovery \<Rightarrow> string \<Rightarrow> string \<Rightarrow> nat \<Rightarrow> discovery_table \<Rightarrow> bool \<times> discovery_table" where
  "record_discovery_and_should_request C now cfg decoded room local_pubkey max_responders t =
     (let local_rank = topology_rank C cfg room local_pubkey;
          t = insert_pubkey_with_rank now (dd_signaling_pubkey decoded) (dd_expires_at decoded) (dd_topology_rank decoded) t;
          (responders, t) = responder_pubkeys_for now (dd_signaling_pubkey decoded) (dd_topology_rank decoded)
                              local_pubkey local_rank max_responders t
      in (local_pubkey \<in> set responders, t))"

definition accept_sender_for_payload ::
  "nat \<Rightarrow> bool \<Rightarrow> string \<Rightarrow> signaling_data \<Rightarrow> discovery_table \<Rightarrow> bool \<times> discovery_table" where
  "accept_sender_for_payload now sender_was_requested sender_pubkey d t =
     (if signaling_type d = Request \<or> sender_was_requested then (True, t)
      else let (bound, t) = pubkey_for_node now (sender_id d) t in (bound = Some sender_pubkey, t))"

definition accept_message_order ::
  "instant \<Rightarrow> string \<Rightarrow> string option \<Rightarrow> nat option \<Rightarrow> dedupe_cache \<Rightarrow> (string, nat) hmap
   \<Rightarrow> message_order_acceptance \<times> dedupe_cache \<times> (string, nat) hmap" where
  "accept_message_order now sender_pubkey message_id sequence cache incoming =
     (let (fresh, cache) = (case message_id of None \<Rightarrow> (True, cache) | Some i \<Rightarrow> dedupe_check_and_insert now i cache) in
      if \<not> fresh then (DuplicateMessageId, cache, incoming)
      else case sequence of
        None \<Rightarrow> (Accepted, cache, incoming)
      | Some s \<Rightarrow>
          (case hm_get incoming sender_pubkey of
             Some high \<Rightarrow>
               if s \<le> high then
                 (if high - s < NOSTR_SEQUENCE_REORDER_WINDOW then ReorderedWithinWindow high s else StaleSequence high s, cache, incoming)
               else if s > saturating_add64 high 1 then (Gap high s, cache, hm_insert sender_pubkey s incoming)
               else (Accepted, cache, hm_insert sender_pubkey s incoming)
           | None \<Rightarrow> (Accepted, cache, hm_insert sender_pubkey s incoming)))"

section \<open>Bootstrap probes\<close>

definition INITIAL_DELAY :: duration where "INITIAL_DELAY = 500"
definition MAX_ROUNDS :: nat where "MAX_ROUNDS = 2"
definition MAX_PROBES :: nat where "MAX_PROBES = 6"
definition TARGET_PEERS :: nat where "TARGET_PEERS = 2"
definition MIN_REFRESH_SPAN :: nat where "MIN_REFRESH_SPAN = 30"

record advertisement =
  ad_first :: nat
  ad_latest :: nat
  ad_refreshed :: bool

record discovery_bootstrap =
  next_probe :: "instant option"
  rounds :: nat
  finished :: bool
  advertisements :: "(string, advertisement) hmap"
  probed :: "string list"

definition bootstrap_default :: discovery_bootstrap where
  "bootstrap_default = \<lparr>next_probe = None, rounds = 0, finished = False, advertisements = [], probed = []\<rparr>"

definition bootstrap_stop :: "discovery_bootstrap \<Rightarrow> discovery_bootstrap" where
  "bootstrap_stop b = b\<lparr>finished := True, advertisements := []\<rparr>"

definition joined_long_ago :: "nat \<Rightarrow> nat option \<Rightarrow> bool" where
  "joined_long_ago created_at joined_at =
     (case joined_at of None \<Rightarrow> False | Some joined \<Rightarrow> joined > 0 \<and> created_at - joined div 1000 \<ge> MIN_REFRESH_SPAN)"

definition bootstrap_observe :: "string \<Rightarrow> nat \<Rightarrow> nat option \<Rightarrow> instant \<Rightarrow> discovery_bootstrap \<Rightarrow> discovery_bootstrap" where
  "bootstrap_observe pubkey created_at joined_at now b =
     (if finished b \<or> rounds b \<ge> MAX_ROUNDS then b
      else
        let ad = (case hm_get (advertisements b) pubkey of
                    None \<Rightarrow> \<lparr>ad_first = created_at, ad_latest = created_at, ad_refreshed = False\<rparr> | Some ad \<Rightarrow> ad);
            f = min (ad_first ad) created_at;
            l = max (ad_latest ad) created_at;
            ad = \<lparr>ad_first = f, ad_latest = l,
                  ad_refreshed = (ad_refreshed ad \<or> joined_long_ago created_at joined_at \<or> l - f \<ge> MIN_REFRESH_SPAN)\<rparr>
        in b\<lparr>next_probe := (case next_probe b of None \<Rightarrow> Some (now + INITIAL_DELAY) | Some t \<Rightarrow> Some t),
             advertisements := hm_insert pubkey ad (advertisements b)\<rparr>)"

definition bootstrap_activity :: "string \<Rightarrow> nat \<Rightarrow> discovery_bootstrap \<Rightarrow> discovery_bootstrap" where
  "bootstrap_activity pubkey created_at b =
     (if finished b \<or> rounds b \<ge> MAX_ROUNDS then b
      else b\<lparr>advertisements := hm_update pubkey (\<lambda>ad.
             let l = max (ad_latest ad) created_at
             in ad\<lparr>ad_latest := l, ad_refreshed := (ad_refreshed ad \<or> l - ad_first ad \<ge> MIN_REFRESH_SPAN)\<rparr>) (advertisements b)\<rparr>)"

definition bootstrap_evidence :: "string \<Rightarrow> discovery_bootstrap \<Rightarrow> bool \<times> nat" where
  "bootstrap_evidence pubkey b =
     (case hm_get (advertisements b) pubkey of None \<Rightarrow> (False, 0) | Some ad \<Rightarrow> (ad_refreshed ad, ad_latest ad))"

definition probe_batch :: "nat \<Rightarrow> nat \<Rightarrow> nat" where
  "probe_batch connected round = (if connected > 0 then 1 else if round = 0 then 4 else 2)"

text \<open>The part of \<open>poll\<close> that selects and charges a round of probes, once a round is due.\<close>

definition probe_round ::
  "instant \<Rightarrow> nat \<Rightarrow> string \<Rightarrow> string \<Rightarrow> string list \<Rightarrow> nat \<Rightarrow> discovery_bootstrap \<Rightarrow> discovery_table
   \<Rightarrow> string list \<times> discovery_bootstrap \<times> discovery_table" where
  "probe_round now unix local_pubkey local_rank requested connected b t =
     (let (active, t) = active_pubkeys unix t;
          (candidates, t) = responder_pubkeys_for unix local_pubkey local_rank local_pubkey local_rank (length active) t;
          candidates = filter (\<lambda>k. k \<notin> set requested \<and> k \<notin> set (probed b)) (rev candidates);
          ads = hm_retain (\<lambda>k _. expires_at_for_pubkey k t \<noteq> None) (advertisements b);
          candidates = sort_key (\<lambda>k. Reverse (case hm_get ads k of None \<Rightarrow> (False, 0) | Some ad \<Rightarrow> (ad_refreshed ad, ad_latest ad))) candidates;
          candidates = take (min (probe_batch connected (rounds b)) (MAX_PROBES - length (probed b))) candidates;
          probed' = fold hs_insert candidates (probed b);
          rounds' = rounds b + 1;
          ads = (if rounds' = MAX_ROUNDS then hm_retain (\<lambda>k _. k \<in> set probed') ads else ads)
      in (candidates,
          b\<lparr>probed := probed', rounds := rounds', advertisements := ads, next_probe := Some (now + INITIAL_DELAY)\<rparr>, t))"

definition bootstrap_poll ::
  "instant \<Rightarrow> nat \<Rightarrow> string \<Rightarrow> string \<Rightarrow> string list \<Rightarrow> nat \<Rightarrow> discovery_bootstrap \<Rightarrow> discovery_table
   \<Rightarrow> string list \<times> discovery_bootstrap \<times> discovery_table" where
  "bootstrap_poll now unix local_pubkey local_rank requested connected b t =
     (let b = (if connected \<ge> TARGET_PEERS then b\<lparr>finished := True, advertisements := []\<rparr> else b) in
      if finished b \<or> rounds b \<ge> MAX_ROUNDS then ([], b, t)
      else case next_probe b of
             None \<Rightarrow> ([], b, t)
           | Some deadline \<Rightarrow>
               if now < deadline then ([], b, t)
               else probe_round now unix local_pubkey local_rank requested connected b t)"

section \<open>Routed signaling\<close>

datatype signaling_route = WebSocket | OverlayRoute

type_synonym peer_routes = "(node_id, signaling_route) hmap"

definition remember_route :: "node_id \<Rightarrow> signaling_route \<Rightarrow> peer_routes \<Rightarrow> peer_routes" where
  "remember_route peer route routes = (if is_server peer \<or> is_broadcast peer then routes else hm_insert peer route routes)"

definition route_for :: "node_id \<Rightarrow> peer_routes \<Rightarrow> signaling_route option" where
  "route_for peer routes = hm_get routes peer"

text \<open>The signaler a message to a peer goes through; \<open>live\<close> is the overlay's \<open>has_signaling_route\<close>.\<close>

definition signaling_target :: "(node_id \<Rightarrow> bool) \<Rightarrow> node_id \<Rightarrow> peer_routes \<Rightarrow> signaling_route" where
  "signaling_target live to routes =
     (if is_server to \<or> is_broadcast to then WebSocket
      else if live to then OverlayRoute
      else case route_for to routes of
             Some WebSocket \<Rightarrow> WebSocket
           | Some OverlayRoute \<Rightarrow> WebSocket
           | None \<Rightarrow> OverlayRoute)"

definition reset_session :: "peer_routes \<Rightarrow> peer_routes" where
  "reset_session routes = []"

text \<open>
  \<open>handle_message\<close> of the routed handler: the new routes, and the peer reported alive to the bootstrap
  signaler; the message is then passed on unchanged.
\<close>

definition routed_handle_message :: "signaling_route \<Rightarrow> message_content \<Rightarrow> peer_routes \<Rightarrow> node_id option \<times> peer_routes" where
  "routed_handle_message ingress msg routes =
     (case msg of
        Data d \<Rightarrow>
          (if signaling_type d \<in> {Request, Rejoin} then None else Some (sender_id d), remember_route (sender_id d) ingress routes)
      | _ \<Rightarrow> (None, routes))"

section \<open>Tables\<close>

definition table_ok :: "discovery_table \<Rightarrow> bool" where
  "table_ok t \<longleftrightarrow> hm_ok (by_pubkey t) \<and> hm_ok (node_to_pubkey t)
     \<and> (\<forall>k e. hm_get (by_pubkey t) k = Some e \<longrightarrow> de_signaling_pubkey e = k)"

lemma sweep_fields:
  "by_pubkey (sweep_expired now t) = hm_retain (\<lambda>_ entry. de_expires_at entry > now) (by_pubkey t)"
  by (simp add: sweep_expired_def Let_def)

lemma table_ok_sweep [simp]: "table_ok t \<Longrightarrow> table_ok (sweep_expired now t)"
  by (auto simp: table_ok_def sweep_expired_def Let_def hm_get_retain split: option.splits if_splits)

lemma sweep_get: "table_ok t \<Longrightarrow> hm_get (by_pubkey (sweep_expired now t)) k =
    (case hm_get (by_pubkey t) k of None \<Rightarrow> None | Some e \<Rightarrow> if de_expires_at e > now then Some e else None)"
  by (simp add: table_ok_def sweep_fields hm_get_retain)

lemma table_ok_insert: "table_ok t \<Longrightarrow> table_ok (insert_pubkey_with_rank now k x r t)"
  using table_ok_sweep [of t now] by (auto simp: insert_pubkey_with_rank_def table_ok_def Let_def split: if_splits)

lemma bind_insert_ok: "table_ok t \<Longrightarrow> table_ok (bind_insert now n k x r ep t)"
  using table_ok_insert [of t now k x r] by (auto simp: bind_insert_def table_ok_def Let_def)

lemma table_ok_remove: "table_ok t \<Longrightarrow> table_ok (t\<lparr>by_pubkey := hm_remove k (by_pubkey t)\<rparr>)"
  by (auto simp: table_ok_def split: if_splits)

lemma bind_node_ok: "table_ok t \<Longrightarrow> table_ok (snd (bind_node_with_epoch now n k x r ep allow t))"
  by (simp add: bind_node_with_epoch_def Let_def bind_insert_ok table_ok_remove split: option.splits)

lemma unbind_ok: "table_ok t \<Longrightarrow> table_ok (snd (unbind_node n t))"
  by (auto simp: unbind_node_def table_ok_def split: option.splits if_splits)

lemma touch_ok: "table_ok t \<Longrightarrow> table_ok (table_touch_node now n d t)"
  using table_ok_sweep [of t now] by (auto simp: table_touch_node_def table_ok_def Let_def split: option.splits if_splits)

section \<open>The ring\<close>

lemma dedup_distinct: "distinct (map snd xs) \<Longrightarrow> dedup_pubkeys xs = xs"
  by (induction xs rule: dedup_pubkeys.induct) auto

lemma ring_position_Some:
  "k \<in> snd ` set xs \<Longrightarrow> \<exists>i. ring_position k xs = Some i \<and> i < length xs \<and> snd (xs ! i) = k"
proof (induction xs)
  case Nil
  then show ?case by simp
next
  case (Cons x xs)
  show ?case
  proof (cases "snd x = k")
    case True
    then show ?thesis by auto
  next
    case False
    with Cons obtain i where "ring_position k xs = Some i" "i < length xs" "snd (xs ! i) = k" by auto
    with False show ?thesis by (intro exI [of _ "Suc i"]) simp
  qed
qed

lemma ring_position_in: "ring_position k xs = Some i \<Longrightarrow> i < length xs \<and> snd (xs ! i) = k"
  by (induction xs arbitrary: i) (auto split: if_splits)

lemma ring_loop_take:
  "length acc < limit \<Longrightarrow> ring_loop ranked subject i limit offsets acc =
     take limit (acc @ filter (\<lambda>k. k \<noteq> subject) (map (\<lambda>j. snd (ranked ! ((i + length ranked - j) mod length ranked))) offsets))"
proof (induction offsets arbitrary: acc)
  case Nil
  then show ?case by simp
next
  case (Cons j offsets)
  let ?k = "snd (ranked ! ((i + length ranked - j) mod length ranked))"
  show ?case
  proof (cases "?k = subject")
    case True
    with Cons show ?thesis by (simp add: Let_def)
  next
    case False
    show ?thesis
    proof (cases "length (acc @ [?k]) = limit")
      case True
      with False show ?thesis by (auto simp: Let_def)
    next
      case more: False
      with Cons.prems have "length (acc @ [?k]) < limit" by simp
      from Cons.IH [OF this] False more show ?thesis by (simp add: Let_def)
    qed
  qed
qed

text \<open>Going round the ring from a position visits every other position once.\<close>

lemma ring_indices:
  fixes i n :: nat
  assumes "i < n"
  shows "inj_on (\<lambda>j. (i + n - j) mod n) {1..<n}" and "j \<in> {1..<n} \<Longrightarrow> (i + n - j) mod n \<noteq> i"
proof -
  have val: "(i + n - j) mod n = (if j \<le> i then i - j else i + n - j)" if "j \<in> {1..<n}" for j
  proof (cases "j \<le> i")
    case True
    then have "i + n - j = (i - j) + n" by arith
    with True assms show ?thesis by (metis (full_types) diff_less_mono2 less_imp_diff_less mod_add_self2 mod_less)
  next
    case False
    with that assms show ?thesis by simp
  qed
  show "inj_on (\<lambda>j. (i + n - j) mod n) {1..<n}"
    by (rule inj_onI) (use assms in \<open>auto simp: val split: if_splits\<close>)
  show "j \<in> {1..<n} \<Longrightarrow> (i + n - j) mod n \<noteq> i" using assms by (auto simp: val split: if_splits)
qed

lemma ring_responders:
  assumes "distinct (map snd ranked)" and "i < length ranked" and "snd (ranked ! i) = subject" and "0 < limit"
  defines "rs \<equiv> ring_loop ranked subject i limit [1..<length ranked] []"
  shows "distinct rs" and "length rs = min limit (length ranked - 1)" and "set rs \<subseteq> snd ` set ranked - {subject}"
proof -
  let ?n = "length ranked"
  let ?key = "\<lambda>j. snd (ranked ! ((i + ?n - j) mod ?n))"
  have pos: "0 < ?n" using assms(2) by linarith
  have key: "?key j = map snd ranked ! ((i + ?n - j) mod ?n)" for j using pos by simp
  have inj: "inj_on ?key {1..<?n}"
  proof (rule inj_onI)
    fix a b assume ab: "a \<in> {1..<?n}" "b \<in> {1..<?n}" "?key a = ?key b"
    then have "(i + ?n - a) mod ?n = (i + ?n - b) mod ?n"
      unfolding key using nth_eq_iff_index_eq [OF assms(1)] pos by simp
    with ab show "a = b" using ring_indices(1) [OF assms(2)] by (auto dest: inj_onD)
  qed
  have other: "?key j \<noteq> subject" if "j \<in> {1..<?n}" for j
  proof -
    have "(i + ?n - j) mod ?n \<noteq> i" by (rule ring_indices(2) [OF assms(2) that])
    then show ?thesis unfolding key assms(3) [symmetric]
      using nth_eq_iff_index_eq [OF assms(1), of "(i + ?n - j) mod ?n" i] assms(2) pos by simp
  qed
  then have "filter (\<lambda>k. k \<noteq> subject) (map ?key [1..<?n]) = map ?key [1..<?n]" by (auto simp: filter_id_conv)
  then have rs: "rs = take limit (map ?key [1..<?n])"
    unfolding rs_def using ring_loop_take [of "[]" limit ranked subject i "[1..<?n]"] assms(4) by simp
  show "distinct rs" unfolding rs using inj by (intro distinct_take) (simp add: distinct_map)
  show "length rs = min limit (?n - 1)" unfolding rs by simp
  show "set rs \<subseteq> snd ` set ranked - {subject}"
  proof
    fix x assume "x \<in> set rs"
    then have "x \<in> set (map ?key [1..<?n])" unfolding rs by (rule in_set_takeD)
    then obtain j where j: "j \<in> {1..<?n}" "x = ?key j" by auto
    have "(i + ?n - j) mod ?n < ?n" using pos by simp
    then have "ranked ! ((i + ?n - j) mod ?n) \<in> set ranked" by (rule nth_mem)
    with j other [OF j(1)] show "x \<in> snd ` set ranked - {subject}" by auto
  qed
qed

text \<open>
  A member's view of a room: its table holds live, correctly ranked entries for the other members,
  possibly for itself, and for nobody else; the announcer need not be there yet.
\<close>

definition room_view :: "(string \<Rightarrow> string) \<Rightarrow> nat \<Rightarrow> string set \<Rightarrow> string \<Rightarrow> string \<Rightarrow> discovery_table \<Rightarrow> bool" where
  "room_view rank now M announcer m t \<longleftrightarrow> table_ok t
     \<and> (\<forall>k e. hm_get (by_pubkey t) k = Some e \<longrightarrow> de_topology_rank e = rank k \<and> now < de_expires_at e \<and> k \<in> M)
     \<and> (\<forall>k \<in> M - {m, announcer}. hm_get (by_pubkey t) k \<noteq> None)"

lemma hm_keys_dom: "fst ` set m = {k. hm_get m k \<noteq> None}"
  by (auto simp: hm_get_def map_of_eq_None_iff)

lemma members_sorted:
  assumes ok: "table_ok t" and ranks: "\<forall>k e. hm_get (by_pubkey t) k = Some e \<longrightarrow> de_topology_rank e = rank k"
    and keys: "insert local (insert subject {k. hm_get (by_pubkey t) k \<noteq> None}) = M"
  shows "ranked_members subject (rank subject) local (rank local) t = sorted_list_of_set ((\<lambda>k. (rank k, k)) ` M)"
proof -
  let ?pair = "\<lambda>k. (rank k, k)"
  define l0 where "l0 = map (\<lambda>(_, entry). (de_topology_rank entry, de_signaling_pubkey entry)) (by_pubkey t)"
  have get: "p \<in> set (by_pubkey t) \<Longrightarrow> hm_get (by_pubkey t) (fst p) = Some (snd p)" for p
    using hm_in_get [of "by_pubkey t" "fst p" "snd p"] ok by (simp add: table_ok_def)
  have l0: "l0 = map (?pair \<circ> fst) (by_pubkey t)"
    unfolding l0_def using get ok ranks by (auto simp: table_ok_def)
  have snd0: "map snd l0 = map fst (by_pubkey t)" by (simp add: l0)
  then have d0: "distinct (map snd l0)" using ok by (simp add: table_ok_def hm_ok_def)
  define l1 where "l1 = (if local \<in> snd ` set l0 then l0 else l0 @ [?pair local])"
  define l2 where "l2 = (if subject \<in> snd ` set l1 then l1 else l1 @ [?pair subject])"
  have d1: "distinct (map snd l1)" using d0 by (auto simp: l1_def)
  have d2: "distinct (map snd l2)" using d1 by (auto simp: l2_def)
  have pair0: "\<forall>x \<in> set l0. x = ?pair (snd x)" by (auto simp: l0)
  have keys2: "snd ` set l2 = M"
    using keys hm_keys_dom [of "by_pubkey t"] snd0 by (auto simp: l1_def l2_def simp flip: set_map split: if_splits)
  have "\<forall>x \<in> set l2. x = ?pair (snd x)" using pair0 by (auto simp: l1_def l2_def split: if_splits)
  then have set2: "set l2 = ?pair ` M" using keys2 by force
  have "distinct l2" using d2 by (simp add: distinct_map)
  then have "sort l2 = sorted_list_of_set (set l2)" by (simp add: sorted_list_of_set_sort_remdups distinct_remdups_id)
  moreover have "distinct (map snd (sort l2))"
    using d2 by (metis card_distinct distinct_card length_map length_sort list.set_map set_sort)
  moreover have "ranked_members subject (rank subject) local (rank local) t = dedup_pubkeys (sort l2)"
    unfolding ranked_members_def Let_def l0_def [symmetric] unfolding l1_def [symmetric] unfolding l2_def [symmetric] ..
  ultimately show ?thesis by (simp add: dedup_distinct set2)
qed

lemma sweep_noop:
  "table_ok t \<Longrightarrow> \<forall>k e. hm_get (by_pubkey t) k = Some e \<longrightarrow> now < de_expires_at e \<Longrightarrow> by_pubkey (sweep_expired now t) = by_pubkey t"
  unfolding sweep_fields hm_retain_def table_ok_def
  by (auto simp: filter_id_conv dest: hm_in_get)

text \<open>The responders that a member with a full view computes are the same at every member.\<close>

definition ring_of :: "(string \<Rightarrow> string) \<Rightarrow> string set \<Rightarrow> string \<Rightarrow> nat \<Rightarrow> string list" where
  "ring_of rank M subject limit =
     (let ranked = sorted_list_of_set ((\<lambda>k. (rank k, k)) ` M) in
      if limit = 0 \<or> length ranked \<le> 1 then []
      else case ring_position subject ranked of None \<Rightarrow> []
           | Some i \<Rightarrow> ring_loop ranked subject i limit [1..<length ranked] [])"

lemma ring_of_props:
  assumes "finite M" and "subject \<in> M"
  shows "distinct (ring_of rank M subject limit)" and "set (ring_of rank M subject limit) \<subseteq> M - {subject}"
    and "length (ring_of rank M subject limit) = min limit (card M - 1)"
proof -
  let ?r = "sorted_list_of_set ((\<lambda>k. (rank k, k)) ` M)"
  have inj: "inj_on (\<lambda>k. (rank k, k)) M" by (auto simp: inj_on_def)
  have set: "set ?r = (\<lambda>k. (rank k, k)) ` M" using assms(1) by simp
  have len: "length ?r = card M" using card_image [OF inj] by simp
  have keys: "snd ` set ?r = M" unfolding set by (auto simp: image_image)
  then have d: "distinct (map snd ?r)" using len by (metis card_distinct length_map list.set_map)
  obtain i where i: "ring_position subject ?r = Some i" "i < length ?r" "snd (?r ! i) = subject"
    using ring_position_Some [of subject ?r] assms(2) keys by auto
  note rr = ring_responders [OF d i(2,3), of limit]
  show "distinct (ring_of rank M subject limit)" "set (ring_of rank M subject limit) \<subseteq> M - {subject}"
    "length (ring_of rank M subject limit) = min limit (card M - 1)"
    using rr i keys len by (auto simp: ring_of_def Let_def)
qed

lemma should_request_iff:
  assumes "room_view (topology_rank C cfg room) now M (dd_signaling_pubkey d) m t" and "m \<in> M" and "dd_signaling_pubkey d \<in> M"
    and "dd_topology_rank d = topology_rank C cfg room (dd_signaling_pubkey d)" and "now < dd_expires_at d"
  shows "fst (record_discovery_and_should_request C now cfg d room m limit t) \<longleftrightarrow>
    m \<in> set (ring_of (topology_rank C cfg room) M (dd_signaling_pubkey d) limit)"
proof -
  let ?rank = "topology_rank C cfg room" and ?a = "dd_signaling_pubkey d"
  define t1 where "t1 = insert_pubkey_with_rank now ?a (dd_expires_at d) (dd_topology_rank d) t"
  have ok: "table_ok t" and view: "hm_get (by_pubkey t) k = Some e \<Longrightarrow> de_topology_rank e = ?rank k \<and> now < de_expires_at e \<and> k \<in> M"
    and full: "k \<in> M - {m, ?a} \<Longrightarrow> hm_get (by_pubkey t) k \<noteq> None" for k e
    using assms(1) by (auto simp: room_view_def)
  have ok1: "table_ok t1" unfolding t1_def by (rule table_ok_insert [OF ok])
  have bp: "by_pubkey (sweep_expired now t) = by_pubkey t" using sweep_noop [OF ok] view by blast
  have get1: "hm_get (by_pubkey t1) k = Some e \<Longrightarrow> de_topology_rank e = ?rank k \<and> now < de_expires_at e" for k e
    using view assms(4,5) by (auto simp: t1_def insert_pubkey_with_rank_def Let_def bp split: if_splits option.splits)
  have keys1: "{k. hm_get (by_pubkey t1) k \<noteq> None} = insert ?a {k. hm_get (by_pubkey t) k \<noteq> None}"
    by (auto simp: t1_def insert_pubkey_with_rank_def Let_def bp)
  define t2 where "t2 = sweep_expired now t1"
  have bp2: "by_pubkey t2 = by_pubkey t1" unfolding t2_def using sweep_noop [OF ok1] get1 by blast
  have "insert m (insert ?a {k. hm_get (by_pubkey t2) k \<noteq> None}) = M"
    unfolding bp2 keys1 using view full assms(2,3) by auto
  from members_sorted [OF _ _ this, of ?rank]
  have "ranked_members ?a (?rank ?a) m (?rank m) t2 = sorted_list_of_set ((\<lambda>k. (?rank k, k)) ` M)"
    using table_ok_sweep [OF ok1, of now] get1 by (auto simp: t2_def [symmetric] bp2)
  then have "fst (responder_pubkeys_for now ?a (?rank ?a) m (?rank m) limit t1) = ring_of ?rank M ?a limit"
    unfolding responder_pubkeys_for_def t2_def [symmetric] ring_of_def Let_def by (simp split: option.splits)
  then show ?thesis
    unfolding record_discovery_and_should_request_def Let_def case_prod_beta fst_conv
    unfolding t1_def [symmetric] unfolding assms(4) by simp
qed

section \<open>Properties\<close>

text \<open>
  Property C37. The answers to an announcement are spread over the room: when every member sees the room
  (live entries, ranked by the shared topology rank), the number of members that decide to request the
  announcer is exactly the responder limit, or everyone else in a room smaller than that, although each
  member decides alone on its own table.
\<close>

theorem announcement_fan_out:
  fixes T :: "string \<Rightarrow> discovery_table"
  assumes "finite M" and "dd_signaling_pubkey d \<in> M"
    and "dd_topology_rank d = topology_rank C cfg room (dd_signaling_pubkey d)" and "now < dd_expires_at d"
    and "\<And>m. m \<in> M \<Longrightarrow> room_view (topology_rank C cfg room) now M (dd_signaling_pubkey d) m (T m)"
  shows "card {m \<in> M. fst (record_discovery_and_should_request C now cfg d room m limit (T m))} = min limit (card M - 1)"
proof -
  let ?ring = "ring_of (topology_rank C cfg room) M (dd_signaling_pubkey d) limit"
  have "{m \<in> M. fst (record_discovery_and_should_request C now cfg d room m limit (T m))} = set ?ring"
    using should_request_iff [OF assms(5) _ assms(2-4)] ring_of_props(2) [OF assms(1,2)] by blast
  then show ?thesis
    using ring_of_props(1,3) [OF assms(1,2), of "topology_rank C cfg room" limit] by (simp add: distinct_card)
qed

definition demo_room :: "string set" where "demo_room = {''a'', ''b'', ''c'', ''d''}"

definition demo_table :: discovery_table where
  "demo_table = table_default\<lparr>by_pubkey := map (\<lambda>k. (k, \<lparr>de_signaling_pubkey = k, de_expires_at = 100,
     de_topology_rank = topology_rank demo_crypto demo_config ''room'' k\<rparr>)) [''c'', ''a'', ''d'', ''b'']\<rparr>"

lemma demo_view: "room_view (topology_rank demo_crypto demo_config ''room'') 10 demo_room a m demo_table"
  by (auto simp: room_view_def table_ok_def demo_table_def table_default_def demo_room_def hm_ok_def hm_get_def split: if_splits)

definition demo_announcement :: decoded_discovery where
  "demo_announcement = \<lparr>dd_signaling_pubkey = ''b'', dd_expires_at = 200,
     dd_topology_rank = topology_rank demo_crypto demo_config ''room'' ''b'', dd_joined_at = None\<rparr>"

theorem announcement_fan_out_witness:
  "card {m \<in> demo_room. fst (record_discovery_and_should_request demo_crypto 10 demo_config demo_announcement ''room'' m 2 demo_table)} = 2"
proof -
  have "finite demo_room" "card demo_room = 4" "''b'' \<in> demo_room" by (simp_all add: demo_room_def)
  then show ?thesis
    using announcement_fan_out [of demo_room demo_announcement demo_crypto demo_config "''room''" 10 "\<lambda>_. demo_table" 2] demo_view
    by (simp add: demo_announcement_def)
qed

section \<open>The probe budget over a session\<close>

datatype bootstrap_op =
    ObserveOp string nat "nat option" instant
  | ActivityOp string nat
  | StopOp
  | PollOp instant nat string string "string list" nat discovery_table

text \<open>One call of the session on the bootstrap state; a poll sees whatever table the session then has.\<close>

fun bootstrap_step :: "bootstrap_op \<Rightarrow> discovery_bootstrap \<Rightarrow> string list \<times> discovery_bootstrap" where
  "bootstrap_step (ObserveOp k created joined now) b = ([], bootstrap_observe k created joined now b)"
| "bootstrap_step (ActivityOp k created) b = ([], bootstrap_activity k created b)"
| "bootstrap_step StopOp b = ([], bootstrap_stop b)"
| "bootstrap_step (PollOp now unix k r requested connected t) b =
     (let (probes, b, _) = bootstrap_poll now unix k r requested connected b t in (probes, b))"

fun bootstrap_run :: "bootstrap_op list \<Rightarrow> discovery_bootstrap \<Rightarrow> string list list \<times> discovery_bootstrap" where
  "bootstrap_run [] b = ([], b)"
| "bootstrap_run (x # xs) b =
     (let (probes, b) = bootstrap_step x b; (rest, b) = bootstrap_run xs b in (probes # rest, b))"

fun op_ok :: "bootstrap_op \<Rightarrow> bool" where
  "op_ok (PollOp now unix k r requested connected t) \<longleftrightarrow> table_ok t"
| "op_ok _ \<longleftrightarrow> True"

definition bootstrap_ok :: "discovery_bootstrap \<Rightarrow> bool" where
  "bootstrap_ok b \<longleftrightarrow> distinct (probed b) \<and> length (probed b) \<le> MAX_PROBES \<and> rounds b \<le> MAX_ROUNDS"

lemma fold_hs_insert:
  "distinct xs \<Longrightarrow> set xs \<inter> set ys = {} \<Longrightarrow> fold hs_insert xs ys = ys @ xs"
  by (induction xs arbitrary: ys) (auto simp: hs_insert_def)

lemma ranked_members_distinct:
  assumes "table_ok t"
  shows "distinct (map snd (ranked_members s rs l rl t))"
proof -
  define l0 where "l0 = map (\<lambda>(_, entry). (de_topology_rank entry, de_signaling_pubkey entry)) (by_pubkey t)"
  have "map snd l0 = map fst (by_pubkey t)"
    unfolding l0_def using assms by (auto simp: table_ok_def dest: hm_in_get)
  then have d0: "distinct (map snd l0)" using assms by (simp add: table_ok_def hm_ok_def)
  define l1 where "l1 = (if l \<in> snd ` set l0 then l0 else l0 @ [(rl, l)])"
  define l2 where "l2 = (if s \<in> snd ` set l1 then l1 else l1 @ [(rs, s)])"
  have "distinct (map snd l2)" using d0 by (auto simp: l1_def l2_def)
  then have "distinct (map snd (sort l2))" by (metis card_distinct distinct_card length_map length_sort list.set_map set_sort)
  then show ?thesis
    unfolding ranked_members_def Let_def l0_def [symmetric] unfolding l1_def [symmetric] unfolding l2_def [symmetric]
    by (simp add: dedup_distinct)
qed

lemma responders_distinct: "table_ok t \<Longrightarrow> distinct (fst (responder_pubkeys_for now s rs l rl limit t))"
proof -
  assume ok: "table_ok t"
  define ranked where "ranked = ranked_members s rs l rl (sweep_expired now t)"
  have d: "distinct (map snd ranked)" unfolding ranked_def using ok by (intro ranked_members_distinct) simp
  have "distinct (ring_loop ranked s i limit [1..<length ranked] [])" if "ring_position s ranked = Some i" "0 < limit" for i
    using ring_responders(1) [OF d _ _ that(2)] ring_position_Some [of s ranked] that(1) ring_position_in [OF that(1)] by auto
  then show ?thesis
    unfolding responder_pubkeys_for_def Let_def ranked_def [symmetric] by (auto split: option.splits)
qed

lemma probe_round_props:
  assumes "table_ok t" and "bootstrap_ok b" and "rounds b < MAX_ROUNDS"
    and "probe_round now unix k r requested connected b t = (probes, b', t')"
  shows "probed b' = probed b @ probes" and "rounds b' = Suc (rounds b)" and "bootstrap_ok b'"
    and "set probes \<inter> set requested = {}"
proof -
  define cs where "cs = fst (responder_pubkeys_for unix k r k r (length (fst (active_pubkeys unix t))) (snd (active_pubkeys unix t)))"
  have "table_ok (snd (active_pubkeys unix t))" using assms(1) by (simp add: active_pubkeys_def Let_def)
  then have "distinct cs" unfolding cs_def by (rule responders_distinct)
  then obtain f :: "string \<Rightarrow> (bool \<times> nat) reverse" and n where
    probes: "probes = take (min n (MAX_PROBES - length (probed b))) (sort_key f (filter (\<lambda>k. k \<notin> set requested \<and> k \<notin> set (probed b)) (rev cs)))"
    using assms(4) by (auto simp: probe_round_def Let_def cs_def case_prod_beta)
  have sub: "set probes \<subseteq> {k \<in> set cs. k \<notin> set requested \<and> k \<notin> set (probed b)}"
    unfolding probes using set_take_subset by fastforce
  have d: "distinct probes" unfolding probes using \<open>distinct cs\<close> by (intro distinct_take) simp
  have len: "length probes \<le> MAX_PROBES - length (probed b)" unfolding probes by simp
  have "probed b' = fold hs_insert probes (probed b)" using assms(4) by (auto simp: probe_round_def Let_def case_prod_beta)
  then show p: "probed b' = probed b @ probes" using fold_hs_insert [OF d, of "probed b"] sub by auto
  show rd: "rounds b' = Suc (rounds b)" using assms(4) by (auto simp: probe_round_def Let_def case_prod_beta)
  show "bootstrap_ok b'" using assms(2,3) len d sub p rd by (auto simp: bootstrap_ok_def)
  show "set probes \<inter> set requested = {}" using sub by auto
qed

lemma bootstrap_step_props:
  assumes "op_ok x" and "bootstrap_ok b" and "bootstrap_step x b = (probes, b')"
  shows "probed b' = probed b @ probes" and "bootstrap_ok b'"
    and "rounds b + (if probes = [] then 0 else 1) \<le> rounds b'"
proof -
  have "probed b' = probed b @ probes \<and> bootstrap_ok b' \<and> rounds b + (if probes = [] then 0 else 1) \<le> rounds b'"
  proof (cases x)
    case (PollOp now unix k r requested connected t)
    define c where "c = (if connected \<ge> TARGET_PEERS then b\<lparr>finished := True, advertisements := []\<rparr> else b)"
    have c: "probed c = probed b" "rounds c = rounds b" "bootstrap_ok c" using assms(2) by (auto simp: c_def bootstrap_ok_def)
    obtain t' where poll: "bootstrap_poll now unix k r requested connected b t = (probes, b', t')"
      using assms(3) PollOp by (auto split: prod.splits)
    show ?thesis
    proof (cases "rounds c < MAX_ROUNDS \<and> probe_round now unix k r requested connected c t = (probes, b', t')")
      case True
      with probe_round_props [of t c now unix k r requested connected probes b' t'] c assms(1) PollOp show ?thesis by simp
    next
      case False
      with poll c show ?thesis
        unfolding bootstrap_poll_def Let_def c_def [symmetric] by (auto split: if_splits option.splits)
    qed
  qed (use assms in \<open>auto simp: bootstrap_observe_def bootstrap_activity_def bootstrap_stop_def bootstrap_ok_def Let_def\<close>)
  then show "probed b' = probed b @ probes" "bootstrap_ok b'" "rounds b + (if probes = [] then 0 else 1) \<le> rounds b'" by auto
qed

lemma bootstrap_run_props:
  "list_all op_ok xs \<Longrightarrow> bootstrap_ok b \<Longrightarrow> bootstrap_run xs b = (probes, b') \<Longrightarrow>
    probed b' = probed b @ concat probes \<and> bootstrap_ok b' \<and> rounds b + length (filter (\<lambda>p. p \<noteq> []) probes) \<le> rounds b'"
proof (induction xs arbitrary: b probes)
  case Nil
  then show ?case by simp
next
  case (Cons x xs)
  obtain p c where step: "bootstrap_step x b = (p, c)" by (cases "bootstrap_step x b")
  obtain ps where run: "bootstrap_run xs c = (ps, b')" "probes = p # ps"
    using Cons.prems(3) step by (auto split: prod.splits)
  note sp = bootstrap_step_props [OF _ Cons.prems(2) step]
  from Cons.IH [OF _ sp(2) run(1)] sp Cons.prems(1) run(2) show ?case by (auto split: if_splits)
qed

text \<open>
  Property C39. The fallback probes of a session are bounded whatever the advertisements: over every
  sequence of observations, activity reports, stops and polls on any tables, no key is probed twice, at
  most six keys are probed in all, and at most two polls probe anything.
\<close>

theorem bootstrap_probes_bounded:
  assumes "list_all op_ok xs" and "bootstrap_run xs bootstrap_default = (probes, b)"
  shows "distinct (concat probes) \<and> length (concat probes) \<le> 6 \<and> length (filter (\<lambda>p. p \<noteq> []) probes) \<le> 2"
proof -
  have "bootstrap_ok bootstrap_default" by (simp add: bootstrap_ok_def bootstrap_default_def)
  from bootstrap_run_props [OF assms(1) this assms(2)]
  show ?thesis by (auto simp: bootstrap_ok_def bootstrap_default_def MAX_PROBES_def MAX_ROUNDS_def)
qed

theorem bootstrap_probes_bounded_witness:
  "\<exists>probes b. bootstrap_run [ObserveOp ''a'' 5 None 0, PollOp 600 10 ''me'' [] [] 0 demo_table] bootstrap_default = (probes, b)
     \<and> distinct (concat probes) \<and> length (concat probes) \<le> 6"
  using bootstrap_probes_bounded [of "[ObserveOp ''a'' 5 None 0, PollOp 600 10 ''me'' [] [] 0 demo_table]"] demo_view [of "[]" "[]"]
  by (cases "bootstrap_run [ObserveOp ''a'' 5 None 0, PollOp 600 10 ''me'' [] [] 0 demo_table] bootstrap_default")
    (auto simp: room_view_def simp del: bootstrap_run.simps)

section \<open>Node bindings\<close>

text \<open>A later binding of a node: the same key with an epoch that is not older, or a strictly newer epoch.\<close>

definition binding_advances :: "node_binding \<Rightarrow> node_binding \<Rightarrow> bool" where
  "binding_advances old new \<longleftrightarrow> epoch_is_newer (nb_epoch old) (nb_epoch new)
     \<or> nb_pubkey new = nb_pubkey old \<and> nb_epoch new = nb_epoch old"

lemma binding_advances_refl [simp]: "binding_advances b b"
  by (simp add: binding_advances_def)

lemma binding_advances_trans: "binding_advances a b \<Longrightarrow> binding_advances b c \<Longrightarrow> binding_advances a c"
  by (auto simp: binding_advances_def epoch_is_newer_def split: option.splits)

lemma newer_epoch_advances: "epoch_is_newer e (newer_epoch e e') \<or> newer_epoch e e' = e"
  by (cases "(e, e')" rule: newer_epoch.cases) (auto simp: epoch_is_newer_def)

lemma sweep_nodes: "table_ok t \<Longrightarrow> hm_get (node_to_pubkey (sweep_expired now t)) n = Some b \<Longrightarrow> hm_get (node_to_pubkey t) n = Some b"
  by (auto simp: sweep_expired_def Let_def hm_get_retain table_ok_def split: option.splits if_splits)

lemma bind_insert_nodes:
  assumes "table_ok t" and "hm_get (node_to_pubkey (bind_insert now m k x r ep t)) n = Some b"
  shows "n = m \<and> b = \<lparr>nb_pubkey = k, nb_epoch = ep\<rparr> \<or> n \<noteq> m \<and> hm_get (node_to_pubkey t) n = Some b"
  using assms sweep_nodes [OF assms(1)]
  by (auto simp: bind_insert_def insert_pubkey_with_rank_def Let_def split: if_splits)

lemma bind_step_advances:
  assumes ok: "table_ok t" and old: "hm_get (node_to_pubkey (sweep_expired now t)) n = Some old"
    and new: "hm_get (node_to_pubkey (snd (bind_node_with_epoch now m k x r ep False t))) n = Some new"
  shows "binding_advances old new"
proof -
  let ?t = "sweep_expired now t"
  have ok': "table_ok ?t" using ok by simp
  show ?thesis
  proof (cases "hm_get (node_to_pubkey ?t) m")
    case None
    with bind_insert_nodes [OF ok', of now m k x r ep n new] old new show ?thesis
      by (auto simp: bind_node_with_epoch_def Let_def)
  next
    case (Some b)
    have same: "n = m \<Longrightarrow> old = b" using Some old by simp
    consider "nb_pubkey b = k" | "nb_pubkey b \<noteq> k" "epoch_is_newer (nb_epoch b) ep" | "nb_pubkey b \<noteq> k" "\<not> epoch_is_newer (nb_epoch b) ep"
      by blast
    then show ?thesis
    proof cases
      case 1
      with new Some have "hm_get (node_to_pubkey (bind_insert now m k x r (newer_epoch (nb_epoch b) ep) ?t)) n = Some new"
        by (simp add: bind_node_with_epoch_def Let_def)
      from bind_insert_nodes [OF ok' this] 1 old same newer_epoch_advances [of "nb_epoch b" ep]
      show ?thesis by (auto simp: binding_advances_def)
    next
      case 2
      with new Some have "hm_get (node_to_pubkey (bind_insert now m k x r ep (?t\<lparr>by_pubkey := hm_remove (nb_pubkey b) (by_pubkey ?t)\<rparr>))) n = Some new"
        by (simp add: bind_node_with_epoch_def Let_def)
      from bind_insert_nodes [OF table_ok_remove [OF ok'] this] 2 old same
      show ?thesis by (auto simp: binding_advances_def)
    next
      case 3
      with new Some old show ?thesis by (simp add: bind_node_with_epoch_def Let_def)
    qed
  qed
qed

record bind_call =
  bc_now :: nat
  bc_node :: node_id
  bc_pubkey :: string
  bc_expires_at :: nat
  bc_rank :: string
  bc_epoch :: "nat option"

text \<open>
  A run of calls without \<open>allow_rebind\<close> in which node \<open>n\<close> stays bound: the sweep of each call still
  keeps its binding, and so does the call itself.
\<close>

inductive bound_run :: "node_id \<Rightarrow> discovery_table \<Rightarrow> bind_call list \<Rightarrow> discovery_table \<Rightarrow> bool" for n where
  bound_nil: "hm_get (node_to_pubkey t) n \<noteq> None \<Longrightarrow> bound_run n t [] t"
| bound_cons: "hm_get (node_to_pubkey (sweep_expired (bc_now c) t)) n \<noteq> None \<Longrightarrow>
    bound_run n (snd (bind_node_with_epoch (bc_now c) (bc_node c) (bc_pubkey c) (bc_expires_at c) (bc_rank c) (bc_epoch c) False t)) cs t'
    \<Longrightarrow> bound_run n t (c # cs) t'"

inductive_cases bound_nilE: "bound_run n t [] t'"

lemma bound_run_start: "bound_run n t cs t' \<Longrightarrow> table_ok t \<Longrightarrow> hm_get (node_to_pubkey t) n \<noteq> None"
  by (cases rule: bound_run.cases, assumption) (auto dest: sweep_nodes)


definition demo_bound :: discovery_table where
  "demo_bound = \<lparr>by_pubkey = [(''k1'', \<lparr>de_signaling_pubkey = ''k1'', de_expires_at = 100, de_topology_rank = []\<rparr>)],
     node_to_pubkey = [(NodeId ''n'', \<lparr>nb_pubkey = ''k1'', nb_epoch = Some 5\<rparr>)]\<rparr>"

definition demo_call :: "string \<Rightarrow> nat \<Rightarrow> bind_call" where
  "demo_call k ep = \<lparr>bc_now = 10, bc_node = NodeId ''n'', bc_pubkey = k, bc_expires_at = 90, bc_rank = [], bc_epoch = Some ep\<rparr>"

definition demo_rebound :: discovery_table where
  "demo_rebound = \<lparr>by_pubkey = [(''k2'', \<lparr>de_signaling_pubkey = ''k2'', de_expires_at = 90, de_topology_rank = []\<rparr>)],
     node_to_pubkey = [(NodeId ''n'', \<lparr>nb_pubkey = ''k2'', nb_epoch = Some 6\<rparr>)]\<rparr>"

lemma demo_bound_run: "bound_run (NodeId ''n'') demo_bound [demo_call ''k2'' 6, demo_call ''k1'' 5] demo_rebound"
proof -
  have "bind_node_with_epoch 10 (NodeId ''n'') ''k2'' 90 [] (Some 6) False demo_bound = (Inr (Rebound ''k1''), demo_rebound)"
    by code_simp
  moreover have "bind_node_with_epoch 10 (NodeId ''n'') ''k1'' 90 [] (Some 5) False demo_rebound =
      (Inl (Signaling ''Nostr sender node id changed pubkey''), demo_rebound)"
    by code_simp
  moreover have "hm_get (node_to_pubkey (sweep_expired 10 demo_bound)) (NodeId ''n'') \<noteq> None" by code_simp
  moreover have "hm_get (node_to_pubkey (sweep_expired 10 demo_rebound)) (NodeId ''n'') \<noteq> None" by code_simp
  moreover have "hm_get (node_to_pubkey demo_rebound) (NodeId ''n'') \<noteq> None" by code_simp
  ultimately show ?thesis by (intro bound_cons) (simp_all add: demo_call_def bound_nil)
qed


end
