(* ===== verification/Spec2Isabelle.thy ===== *)
theory Spec2Isabelle
  imports Storage_Registry Storage_Files Engine_Delivery Send_Queue_Order Block_Fetch Block_Serving Nostr_Exchange Nostr_Outbox Nostr_Discovery
begin

text \<open>
  Verification of the core of mistlib, a peer-to-peer overlay library.
\<close>

section \<open>Ordered delivery between two engines\<close>

text \<open>
  Property C1. Reliable ordered messages arrive once and in order, end to end: if an engine's router wraps
  up to 256 reliable ordered messages for a peer, and every frame reaches that peer's engine at least
  once, each copy through any neighbour, with any hop count, in any order, with any number of duplicates,
  all within the gap timeout, then the receiving application is handed exactly the sent payloads, each
  once, in the order they were sent.
\<close>

theorem ordered_delivery_end_to_end:
  fixes env :: "'p engine_env"
  assumes codec: "\<And>e data. ser e = Some data \<Longrightarrow> ee_deser env data = Some e"
    and sender: "seq_counters r = []" "local_node r \<noteq> to" "stream_sequenced to ms r" "send_stream ser to ms r = (map Inr acts, r')"
    and ids: "distinct (map fst ms)" "0 \<notin> set (map fst ms)" and len: "length ms \<le> REORDER_MAX_PER_SOURCE"
    and receiver: "self_id e = to" "engine_overlay e = Some ov" "local_node ov = to" "inbound ov = reorder_default"
      "seen_envelopes ov = overlay_seen_new OVERLAY_SEEN_TTL OVERLAY_SEEN_MAX_ENTRIES"
    and arrivals: "length js = length xs" "set js = {..<length ms}"
      "\<forall>i < length xs. relayed_copy (ee_deser env) (action_frame (acts ! (js ! i))) (snd (snd (xs ! i)))"
      "\<forall>(now, nbr, data) \<in> set xs. begun \<le> now \<and> now < begun + REORDER_GAP_TIMEOUT"
  shows "raw_from (local_node r) (fst (receive_run env xs e)) = map (\<lambda>(_, _, payload). payload) ms"
proof -
  let ?n = "length ms"
  define ids' where "ids' k = fst (ms ! (k - 1))" for k
  define p where "p k = snd (snd (ms ! (k - 1)))" for k
  have small: "?n \<le> u64_max" using len by (simp add: REORDER_MAX_PER_SOURCE_def u64_max_def)
  have start: "listening to (local_node r) ids' p begun {} [] e"
    using receiver by (simp add: listening_def seen_exact_def stream_at_def overlay_seen_new_def ttl_new_def reorder_default_def reorder_new_def)
  have inj: "inj_on ids' {1..?n}"
  proof (rule inj_onI)
    fix x y assume xy: "x \<in> {1..?n}" "y \<in> {1..?n}" "ids' x = ids' y"
    then have "x - 1 = y - 1" using nth_eq_iff_index_eq [OF ids(1), of "x - 1" "y - 1"] by (auto simp: ids'_def)
    with xy show "x = y" by auto
  qed
  have copies: "Suc (js ! i) \<in> {1..?n} \<and> (\<exists>x. ee_deser env (snd (snd (xs ! i))) = Some x \<and>
      stream_message (local_node r) to ids' p (Suc (js ! i)) x)" if i: "i < length xs" for i
  proof -
    have j: "js ! i < ?n" using arrivals(1,2) i nth_mem [of i js] by auto
    obtain hop frame m lane where f: "acts ! (js ! i) = SendMessage hop frame m lane"
        "ser (stream_envelope (local_node r) to (router_hops r) (Suc (js ! i)) (ms ! (js ! i))) = Some frame"
      using send_stream_frames [OF _ _ _ sender(3,4) j] sender(1) small by (auto simp: counter_of_def)
    then have "ee_deser env frame = Some (stream_envelope (local_node r) to (router_hops r) (Suc (js ! i))
        (ids' (Suc (js ! i)), fst (snd (ms ! (js ! i))), p (Suc (js ! i))))"
      using codec by (simp add: ids'_def p_def)
    from stream_message_envelope [where ids = ids' and p = p and deser = "ee_deser env", OF this] show ?thesis using arrivals(3) i f(1) j by force
  qed
  have set: "set (map Suc js) = {1..?n}" unfolding set_map arrivals(2) image_Suc_lessThan by simp
  have "listening to (local_node r) ids' p begun ({} \<union> set (map Suc js)) ([] @ raw_from (local_node r) (fst (receive_run env xs e)))
      (snd (receive_run env xs e))"
    by (rule receive_stream [OF start _ len inj _ sender(2) arrivals(4)])
      (use arrivals(1) copies ids(2) in \<open>auto simp: ids'_def\<close>)
  then obtain b where "stream_at (local_node r) (Raw \<circ> p) begun {1..?n} b (map Raw (raw_from (local_node r) (fst (receive_run env xs e))))"
    unfolding set by (auto simp: listening_def)
  from stream_at_complete [OF this]
  have "map Raw (raw_from (local_node r) (fst (receive_run env xs e))) = map Raw (map p [1..<Suc ?n])" by simp
  then have "raw_from (local_node r) (fst (receive_run env xs e)) = map p [1..<Suc ?n]"
    by (rule map_injective) (simp add: inj_def)
  also have "\<dots> = map (\<lambda>(_, _, payload). payload) ms"
    by (rule nth_equalityI) (auto simp: p_def case_prod_beta simp del: upt_Suc)
  finally show ?thesis .
qed

definition demo_delivery_env :: "unit engine_env" where
  "demo_delivery_env = demo_env\<lparr>ee_deser := demo_stream_deser\<rparr>"

definition demo_messages :: "(nat \<times> instant \<times> bytes) list" where
  "demo_messages = [(7, 0, [20]), (8, 1, [21])]"

definition demo_sender :: overlay_router where
  "demo_sender = router_new 4 transfer_default (NodeId ''a'')"

definition demo_receiver :: "unit engine" where
  "demo_receiver = (engine_new mist_stats_new)\<lparr>self_id := NodeId ''b'',
     state := Running \<lparr>rc_id = 1, rc_overlay = Some (router_new 4 transfer_default (NodeId ''b''))\<rparr>\<rparr>"

lemma demo_lane: "send_lane_classify (Raw [x]) False = General" if "x \<in> {20, 21}"
  using that by (auto simp: send_lane_classify_def classify_storage_frame_def msg_tag_defs)

lemma demo_sends:
  "fst (send_stream demo_stream_ser (NodeId ''b'') demo_messages demo_sender) =
     map Inr [SendMessage (NodeId ''b'') [7, 1, 4, 20] ReliableOrdered General, SendMessage (NodeId ''b'') [8, 2, 4, 21] ReliableOrdered General]"
  by (simp add: demo_messages_def demo_sender_def router_new_def wrap_data_checked_def dispatch_data_def dispatch_data_via_def
      Let_def demo_lane is_sequenced_def is_broadcast_def transfer_default_def with_next_seq_def next_seq_def build_frame_def
      storage_delivery_def demo_stream_ser_def demo_stream_env_def envelope_new_def with_seq_def create_send_action_def
      get_next_hop_def routing_table_new_def remember_outgoing_def wrap64_def case_prod_beta SEQ_COUNTER_MAX_DESTINATIONS_def)

theorem ordered_delivery_end_to_end_witness:
  "raw_from (NodeId ''a'') (fst (receive_run demo_delivery_env
     [(1, NodeId ''c'', [8, 2, 3, 21]), (2, NodeId ''a'', [7, 1, 4, 20]), (3, NodeId ''d'', [7, 1, 2, 20])] demo_receiver)) = [[20], [21]]"
proof -
  obtain r' where s: "send_stream demo_stream_ser (NodeId ''b'') demo_messages demo_sender =
      (map Inr [SendMessage (NodeId ''b'') [7, 1, 4, 20] ReliableOrdered General, SendMessage (NodeId ''b'') [8, 2, 4, 21] ReliableOrdered General], r')"
    using demo_sends by (cases "send_stream demo_stream_ser (NodeId ''b'') demo_messages demo_sender") auto
  have "raw_from (local_node demo_sender) (fst (receive_run demo_delivery_env
     [(1, NodeId ''c'', [8, 2, 3, 21]), (2, NodeId ''a'', [7, 1, 4, 20]), (3, NodeId ''d'', [7, 1, 2, 20])] demo_receiver)) =
     map (\<lambda>(_, _, payload). payload) demo_messages"
    by (rule ordered_delivery_end_to_end [OF _ _ _ _ s, where js = "[1, 0, 0]" and ov = "router_new 4 transfer_default (NodeId ''b'')" and begun = 0])
      (auto simp: demo_delivery_env_def demo_stream_codec demo_sender_def router_new_def stream_sequenced_def demo_messages_def
        demo_lane is_sequenced_def is_broadcast_def transfer_default_def REORDER_MAX_PER_SOURCE_def REORDER_GAP_TIMEOUT_def
        demo_receiver_def engine_overlay_def running_context_def relayed_copy_def less_Suc_eq demo_stream_env_def with_seq_def envelope_new_def)
  then show ?thesis by (simp add: demo_sender_def router_new_def demo_messages_def)
qed

section \<open>A block from store to request\<close>

text \<open>
  Property C2. A block travels from store to request: if a node holds a block of at most 8 MiB and is asked
  for it, and at most 25 of its sends are refused, each for lack of a route, then it answers with
  complete success; and if the frames it submitted reach the asking node, each once and in any order,
  while open requests listen on that path and the registry has room, then exactly those requests
  each receive exactly the block, and nothing else is handed out.
\<close>

theorem block_transfer_end_to_end:
  assumes server: "is_valid_cid cid" "provider_get_block (ns_providers srv) (sx_room sctx) client cid = None"
      "ns_storage srv = Some s" "hm_get (se_blocks s) cid = Some data" "io_load io cid = Inr ()" "length data \<le> MAX_WANT_BLOCK_BYTES"
    and transport: "refuses_only S tx" "finite S" "card S \<le> 25"
    and registry: "ws = reg_state (ns_registry st)" "ws_ok ws" "listeners cid holder (sx_room cctx) ws \<noteq> []"
      "\<forall>l \<in> set (listeners cid holder (sx_room cctx) ws). within (length data) l"
      "hm_get (assemblies ws) (cid, holder, sx_room cctx) = None" "length (assemblies ws) < MAX_WANT_ASSEMBLIES"
      "assembly_total ws + length data \<le> MAX_WANT_ASSEMBLY_BYTES"
    and arrivals: "fst (handle_want io tx sctx client cid srv) = Some (res, r)"
      "distinct (map snd order)" "snd ` set order = {..<length (rp_submitted r)}"
  shows "res = Inr () \<and> fst (receive_frames cctx holder (map (\<lambda>(now, i). (now, rp_submitted r ! i)) order) st)
    = map OutSignal (deliveries data (listeners cid holder (sx_room cctx) ws))"
proof -
  let ?cs = "chunk_size_for_limit cid (sx_limit sctx client)"
  have cs: "0 < ?cs" using chunk_size_min [of cid "sx_limit sctx client"] by (simp add: MIN_CHUNK_SIZE_def)
  obtain n where n: "n \<le> MAX_WANT_CHUNKS" "have_chunk_count (length data) ?cs = Some n"
    using block_fits_chunks [OF server(6) chunk_size_min] by blast
  have "fst (handle_want io tx sctx client cid srv) = Some (send_block tx cid data ?cs n responder_new)"
    using handle_want_serves [OF server(1-5)] n(2) by (simp add: respond_with_def)
  moreover obtain r' where "send_block tx cid data ?cs n responder_new = (Inr (), r')"
      "rp_submitted r' = rp_submitted responder_new @ response_frames cid data ?cs n"
    using send_block_succeeds [OF transport] by blast
  ultimately have r: "res = Inr ()" "rp_submitted r = response_frames cid data ?cs n"
    using arrivals(1) by (auto simp: responder_new_def)
  have "snd ` set order = {..<max n 1}" using arrivals(3) by (simp add: r response_frames_def)
  from response_delivers [OF server(1) cs n(2,1) server(6) registry(2-7,1) refl arrivals(2) this] r show ?thesis by simp
qed

definition demo_server :: "unit native_storage" where
  "demo_server = \<lparr>ns_registry = registry_new, ns_storage = Some (engine_with 9 False [(''bafk2'', [1, 2, 3])] None), ns_serving = [], ns_providers = []\<rparr>"

definition demo_ctx :: session_ctx where
  "demo_ctx = \<lparr>sx_ptr = 1, sx_room = ''r'', sx_pipeline = False, sx_limit = (\<lambda>_. None)\<rparr>"

definition demo_wants :: want_state where
  "demo_wants = snd (track_path 1 ''r'' (snd (register_attempt ''bafk2'' (NodeId ''s'') want_state_default)))"

definition demo_client :: "unit native_storage" where
  "demo_client = \<lparr>ns_registry = registry_new\<lparr>reg_state := demo_wants\<rparr>, ns_storage = None, ns_serving = [], ns_providers = []\<rparr>"

definition demo_gap :: "nat \<Rightarrow> bytes \<Rightarrow> unit result" where
  "demo_gap k frame = (if k = 0 then Inl (RouteNotFound (NodeId ''c'')) else Inr ())"

lemma demo_gap_refuses: "refuses_only {0} demo_gap"
  by (auto simp: refuses_only_def demo_gap_def split: if_splits)

lemma demo_response:
  "\<exists>r. fst (handle_want demo_io demo_gap demo_ctx (NodeId ''c'') ''bafk2'' demo_server) = Some (Inr (), r) \<and> length (rp_submitted r) = 1"
proof -
  have v: "is_valid_cid ''bafk2''" by code_simp
  have "fst (handle_want demo_io demo_gap demo_ctx (NodeId ''c'') ''bafk2'' demo_server) = Some (send_block demo_gap ''bafk2'' [1, 2, 3] HAVE_CHUNK_SIZE 1 responder_new)"
    using handle_want_serves [OF v, of demo_server demo_ctx "NodeId ''c''" _ "[1, 2, 3]" demo_io demo_gap]
    by (simp add: demo_server_def demo_ctx_def engine_with_def hm_get_def demo_io_def respond_with_def chunk_size_for_limit_def have_chunk_count_def
        div_ceil_def HAVE_CHUNK_SIZE_def)
  moreover obtain r where "send_block demo_gap ''bafk2'' [1, 2, 3] HAVE_CHUNK_SIZE 1 responder_new = (Inr (), r)"
      "rp_submitted r = rp_submitted responder_new @ response_frames ''bafk2'' [1, 2, 3] HAVE_CHUNK_SIZE 1"
    using send_block_succeeds [OF demo_gap_refuses, of "''bafk2''" "[1, 2, 3]" HAVE_CHUNK_SIZE 1 responder_new] by auto
  ultimately show ?thesis by (auto simp: response_frames_def responder_new_def)
qed

theorem block_transfer_end_to_end_witness:
  "\<exists>r. fst (handle_want demo_io demo_gap demo_ctx (NodeId ''c'') ''bafk2'' demo_server) = Some (Inr (), r)
     \<and> fst (receive_frames demo_ctx (NodeId ''s'') [(5, rp_submitted r ! 0)] demo_client) = [OutSignal (Deliver 1 [1, 2, 3])]"
proof -
  obtain r where r: "fst (handle_want demo_io demo_gap demo_ctx (NodeId ''c'') ''bafk2'' demo_server) = Some (Inr (), r)" "length (rp_submitted r) = 1"
    using demo_response by blast
  have ls: "listeners ''bafk2'' (NodeId ''s'') ''r'' demo_wants = [(1, None)]"
    by (simp add: demo_wants_def track_path_def find_want_def listeners_def on_path_def hm_get_def registry_eval)
  have st: "assemblies demo_wants = []" by (simp add: demo_wants_def track_path_def find_want_def registry_eval)
  have ok: "ws_ok demo_wants"
    unfolding demo_wants_def register_attempt_def
    by (intro track_path_ok register_attempt_ok) (simp add: ws_ok_def wants_ok_def asms_ok_def want_state_default_def)
  have v: "is_valid_cid ''bafk2''" by code_simp
  from block_transfer_end_to_end [where S = "{0}" and tx = demo_gap and srv = demo_server and sctx = demo_ctx and client = "NodeId ''c''"
      and io = demo_io and s = "engine_with 9 False [(''bafk2'', [1, 2, 3])] None" and ws = demo_wants and st = demo_client
      and cid = "''bafk2''" and data = "[1, 2, 3]" and holder = "NodeId ''s''" and cctx = demo_ctx and order = "[(5, 0)]", OF v _ _ _ _ _ _ _ _ _ _ _ _ _ _ _ r(1)]
  have "fst (receive_frames demo_ctx (NodeId ''s'') [(5, rp_submitted r ! 0)] demo_client) = [OutSignal (Deliver 1 [1, 2, 3])]"
    using ls st ok r(2) demo_gap_refuses
    by (simp add: demo_server_def demo_ctx_def engine_with_def hm_get_def demo_io_def demo_client_def within_def assembly_total_def
        MAX_WANT_BLOCK_BYTES_def MAX_WANT_ASSEMBLIES_def MAX_WANT_ASSEMBLY_BYTES_def deliveries_def lessThan_Suc)
  then show ?thesis using r(1) by blast
qed

end
